(* ===== verification/Prelude.thy ===== *)
theory Prelude
  imports Main "HOL-Library.Word"
begin

text \<open>
  Shared vocabulary of the development: the machine integers of the C sources, the errno values of
  \<^verbatim>\<open>include/plenjos/errno.h\<close>, the ways a kernel routine can fail to return (\<open>fault\<close>), and the
  generic facts on words, lists and options that the component theories use.
\<close>

unbundle bit_operations_syntax

type_synonym u8 = "8 word"
type_synonym u16 = "16 word"
type_synonym u32 = "32 word"
type_synonym u64 = "64 word"

text \<open>
  A routine that returns yields \<open>Inr\<close> of its result. \<open>Halt\<close> is \<^verbatim>\<open>panic()\<close> or \<^verbatim>\<open>hcf()\<close>, which never
  return; \<open>BadAccess\<close> is the use of a pointer at which no object of the expected type lives;
  \<open>Deadlock\<close> is a spin on a lock that the running thread itself left locked.
\<close>

datatype fault = Halt | BadAccess | Deadlock

type_synonym 'a kres = "fault + 'a"

definition bindR :: "'a kres \<Rightarrow> ('a \<Rightarrow> 'b kres) \<Rightarrow> 'b kres" where
  "bindR m f = (case m of Inl e \<Rightarrow> Inl e | Inr x \<Rightarrow> f x)"

lemma bindR_simps [simp]: "bindR (Inl e) f = Inl e" "bindR (Inr x) f = f x"
  by (simp_all add: bindR_def)

lemma bindR_eq_Inr: "bindR m f = Inr y \<longleftrightarrow> (\<exists>x. m = Inr x \<and> f x = Inr y)"
  by (cases m) auto

text \<open>The errno values, positive as in the header; routines return their negation.\<close>

definition ENOENT :: int where "ENOENT = 2"
definition EIO :: int where "EIO = 5"
definition ENOMEM :: int where "ENOMEM = 12"
definition EACCES :: int where "EACCES = 13"
definition EFAULT :: int where "EFAULT = 14"
definition EEXIST :: int where "EEXIST = 17"
definition ENOTDIR :: int where "ENOTDIR = 20"
definition EISDIR :: int where "EISDIR = 21"
definition EINVAL :: int where "EINVAL = 22"
definition EMFILE :: int where "EMFILE = 24"
definition ERANGE :: int where "ERANGE = 34"
definition ENAMETOOLONG :: int where "ENAMETOOLONG = 36"
definition ENOSYS :: int where "ENOSYS = 38"

lemmas errno_defs = ENOENT_def EIO_def ENOMEM_def EACCES_def EFAULT_def EEXIST_def ENOTDIR_def
  EISDIR_def EINVAL_def EMFILE_def ERANGE_def ENAMETOOLONG_def ENOSYS_def

definition PAGE_LEN :: u64 where "PAGE_LEN = 4096"

named_theorems word_nat "facts that move word arithmetic to natural numbers"

lemma unat_add_nowrap [word_nat]:
  "unat (a::u64) + unat b < 2 ^ 64 \<Longrightarrow> unat (a + b) = unat a + unat b"
  by (simp add: unat_word_ariths)

lemma unat_sub_nowrap [word_nat]: "(b::u64) \<le> a \<Longrightarrow> unat (a - b) = unat a - unat b"
  by (rule unat_sub)

lemma unat_u64_bound [simp]: "unat (a::u64) < 18446744073709551616"
  using unsigned_less [of a] by simp

lemma below_unat_u64:
  assumes "n \<le> unat (e::u64)" shows "n < 2 ^ 64"
proof -
  from assms unat_u64_bound [of e] have "n < 18446744073709551616" by (rule order_le_less_trans)
  then show ?thesis by simp
qed

lemma unat_of_nat_u64: "n < 2 ^ 64 \<Longrightarrow> unat (of_nat n :: u64) = n"
  by (simp add: unat_of_nat)

lemma and_4095: "(a::u64) AND 4095 = a mod 4096"
proof -
  have "a AND 4095 = take_bit 12 a" by (simp add: take_bit_eq_mask mask_eq_exp_minus_1)
  then show ?thesis by (simp add: take_bit_eq_mod)
qed

text \<open>The number of entries of a list that satisfy a predicate, and how one update moves it.\<close>

definition num_sat :: "('a \<Rightarrow> bool) \<Rightarrow> 'a list \<Rightarrow> nat" where
  "num_sat P xs = length (filter P xs)"

lemma num_sat_replicate [simp]: "num_sat P (replicate n x) = (if P x then n else 0)"
  by (simp add: num_sat_def)

lemma num_sat_le_length: "num_sat P xs \<le> length xs"
  by (simp add: num_sat_def)

lemma num_sat_update:
  "t < length xs \<Longrightarrow>
   num_sat P (xs[t := x]) + (if P (xs ! t) then 1 else 0) = num_sat P xs + (if P x then 1 else 0)"
  unfolding num_sat_def
proof (induction xs arbitrary: t)
  case Nil
  then show ?case by simp
next
  case (Cons y ys)
  show ?case
  proof (cases t)
    case (Suc u)
    with Cons show ?thesis by (auto split: if_splits)
  qed simp
qed

lemma num_sat_pos: "t < length xs \<Longrightarrow> P (xs ! t) \<Longrightarrow> 0 < num_sat P xs"
  unfolding num_sat_def by (auto simp: filter_empty_conv)

lemma num_sat_two:
  assumes "t < length xs" "u < length xs" "t \<noteq> u" "P (xs ! t)" "P (xs ! u)"
  shows "2 \<le> num_sat P xs"
proof -
  have "{t, u} \<subseteq> {i. i < length xs \<and> P (xs ! i)}" using assms by auto
  then have "card {t, u} \<le> card {i. i < length xs \<and> P (xs ! i)}" by (rule card_mono [rotated]) simp
  then show ?thesis using assms(3) by (simp add: num_sat_def length_filter_conv_card)
qed

lemma num_sat_zero: "num_sat P xs = 0 \<longleftrightarrow> (\<forall>x\<in>set xs. \<not> P x)"
  by (auto simp: num_sat_def filter_empty_conv)

lemma list_all_update: "list_all P xs \<Longrightarrow> P x \<Longrightarrow> list_all P (xs[t := x])"
  using set_update_subset_insert [of xs t x] by (auto simp: list_all_iff)

lemma mod_add_inj:
  fixes k l :: nat
  assumes "(a + k) mod n = (a + l) mod n" "k < n" "l < n"
  shows "k = l"
proof -
  have *: "k = l" if "(a + k) mod n = (a + l) mod n" "k < n" "l < n" "k \<le> l" for k l :: nat
    using that mod_eq_dvd_iff_nat [of "a + k" "a + l" n] by (auto dest: dvd_imp_le)
  show ?thesis using * [of k l] * [of l k] assms by (cases "k \<le> l") auto
qed

lemma round16:
  fixes m :: nat
  shows "16 * ((m + 15) div 16) = (if m mod 16 = 0 then m else m + 16 - m mod 16)"
proof -
  obtain q r where m: "m = 16 * q + r" "r < 16" by (metis mod_less_divisor mult_div_mod_eq zero_less_numeral)
  have "(16 * q + r + 15) div 16 = q + (r + 15) div 16" by (metis add.assoc div_mult_self4 zero_neq_numeral)
  moreover have "(r + 15) div 16 = (if r = 0 then 0 else 1)" using m(2) by (cases "r = 0") (auto simp: div_nat_eqI)
  ultimately show ?thesis using m by auto
qed

end
