(* ===== verification/Locks.thy ===== *)
theory Locks
  imports Prelude
begin

text \<open>
  The locks of \<^verbatim>\<open>src/lib/lock.c\<close>. Every routine is a relation on the shared lock and the program
  counter of the calling thread, one rule per atomic access in the order the code performs them; a
  weak compare-exchange may fail spuriously, so each such loop has a retry rule with no condition.
  The system of all threads interleaves these steps. The atomic counters are integers; the invariant
  bounds them by the number of threads, so that a 32-bit counter cannot wrap with fewer than
  \<open>2 ^ 31\<close> threads.
\<close>

section \<open>The spin mutex\<close>

datatype mutex_pc = MIdle | MSpin | MHeld

inductive mutex_lock_step :: "bool \<Rightarrow> mutex_pc \<Rightarrow> bool \<Rightarrow> mutex_pc \<Rightarrow> bool" where
  mutex_call: "mutex_lock_step m MIdle m MSpin"
| mutex_taken: "mutex_lock_step True MSpin True MSpin"
| mutex_acquire: "mutex_lock_step False MSpin True MHeld"

inductive mutex_unlock_step :: "bool \<Rightarrow> mutex_pc \<Rightarrow> bool \<Rightarrow> mutex_pc \<Rightarrow> bool" where
  mutex_clear: "mutex_unlock_step m MHeld False MIdle"

definition mutex_is_locked :: "bool \<Rightarrow> bool" where
  "mutex_is_locked m = m"

text \<open>A system of \<open>n\<close> threads sharing one mutex: the program counters are a list.\<close>

inductive mutex_reachable :: "nat \<Rightarrow> bool \<Rightarrow> mutex_pc list \<Rightarrow> bool" for n where
  mutex_start: "mutex_reachable n False (replicate n MIdle)"
| mutex_lock_by: "mutex_reachable n m ps \<Longrightarrow> t < n \<Longrightarrow> mutex_lock_step m (ps ! t) m' p' \<Longrightarrow>
    mutex_reachable n m' (ps[t := p'])"
| mutex_unlock_by: "mutex_reachable n m ps \<Longrightarrow> t < n \<Longrightarrow> mutex_unlock_step m (ps ! t) m' p' \<Longrightarrow>
    mutex_reachable n m' (ps[t := p'])"

definition n_held :: "mutex_pc list \<Rightarrow> nat" where "n_held ps = num_sat (\<lambda>p. p = MHeld) ps"

lemma mutex_reachable_length: "mutex_reachable n m ps \<Longrightarrow> length ps = n"
  by (induction rule: mutex_reachable.induct) auto

lemma mutex_reachable_inv: "mutex_reachable n m ps \<Longrightarrow> n_held ps = (if m then 1 else 0)"
proof (induction rule: mutex_reachable.induct)
  case mutex_start
  show ?case by (simp add: n_held_def)
next
  case (mutex_lock_by m ps t m' p')
  then have "t < length ps" by (simp add: mutex_reachable_length)
  from num_sat_update [OF this, of "\<lambda>p. p = MHeld" p'] mutex_lock_by(3,4) show ?case
    by (auto simp: n_held_def elim!: mutex_lock_step.cases)
next
  case (mutex_unlock_by m ps t m' p')
  then have t: "t < length ps" by (simp add: mutex_reachable_length)
  from num_sat_update [OF t, of "\<lambda>p. p = MHeld" p'] num_sat_pos [OF t, of "\<lambda>p. p = MHeld"]
    mutex_unlock_by(3,4) show ?case
    by (auto simp: n_held_def elim!: mutex_unlock_step.cases split: if_splits)
qed

section \<open>The read/write lock\<close>

record rw_lock =
  rw_state :: int
  writers_waiting :: int

definition rw_lock_init :: "rw_lock" where
  "rw_lock_init = \<lparr>rw_state = 0, writers_waiting = 0\<rparr>"

text \<open>
  Where a thread is. \<open>RL_\<close> is inside \<^verbatim>\<open>rw_lock_read_lock\<close>, \<open>WL_\<close> inside \<^verbatim>\<open>rw_lock_write_lock\<close>, \<open>UP_\<close>
  inside \<^verbatim>\<open>rw_lock_upgrade_read_to_write\<close>; \<open>Reading\<close> and \<open>Writing\<close> are outside every lock routine with
  the lock held.
\<close>

datatype rw_pc = Idle | RL_load | RL_check int | RL_cas int | Reading
  | WL_add | WL_cas | WL_sub | Writing
  | UP_add | UP_release | UP_cas | UP_sub

inductive rw_lock_read_lock_step :: "rw_lock \<Rightarrow> rw_pc \<Rightarrow> rw_lock \<Rightarrow> rw_pc \<Rightarrow> bool" where
  rl_call: "rw_lock_read_lock_step l Idle l RL_load"
| rl_load: "rw_lock_read_lock_step l RL_load l (RL_check (rw_state l))"
| rl_blocked: "v < 0 \<or> writers_waiting l \<noteq> 0 \<Longrightarrow> rw_lock_read_lock_step l (RL_check v) l RL_load"
| rl_open: "\<not> v < 0 \<Longrightarrow> writers_waiting l = 0 \<Longrightarrow> rw_lock_read_lock_step l (RL_check v) l (RL_cas v)"
| rl_cas_ok: "rw_state l = v \<Longrightarrow>
    rw_lock_read_lock_step l (RL_cas v) (l\<lparr>rw_state := v + 1\<rparr>) Reading"
| rl_cas_fail: "rw_lock_read_lock_step l (RL_cas v) l RL_load"

inductive rw_lock_read_unlock_step :: "rw_lock \<Rightarrow> rw_pc \<Rightarrow> rw_lock \<Rightarrow> rw_pc \<Rightarrow> bool" where
  ru_sub: "rw_lock_read_unlock_step l Reading (l\<lparr>rw_state := rw_state l - 1\<rparr>) Idle"

inductive rw_lock_write_lock_step :: "rw_lock \<Rightarrow> rw_pc \<Rightarrow> rw_lock \<Rightarrow> rw_pc \<Rightarrow> bool" where
  wl_call: "rw_lock_write_lock_step l Idle l WL_add"
| wl_add: "rw_lock_write_lock_step l WL_add (l\<lparr>writers_waiting := writers_waiting l + 1\<rparr>) WL_cas"
| wl_cas_ok: "rw_state l = 0 \<Longrightarrow> rw_lock_write_lock_step l WL_cas (l\<lparr>rw_state := -1\<rparr>) WL_sub"
| wl_cas_fail: "rw_lock_write_lock_step l WL_cas l WL_cas"
| wl_sub: "rw_lock_write_lock_step l WL_sub (l\<lparr>writers_waiting := writers_waiting l - 1\<rparr>) Writing"

inductive rw_lock_write_unlock_step :: "rw_lock \<Rightarrow> rw_pc \<Rightarrow> rw_lock \<Rightarrow> rw_pc \<Rightarrow> bool" where
  wu_store: "rw_lock_write_unlock_step l Writing (l\<lparr>rw_state := 0\<rparr>) Idle"

definition rw_lock_is_write_locked :: "rw_lock \<Rightarrow> bool" where
  "rw_lock_is_write_locked l = (rw_state l < 0)"

inductive rw_lock_upgrade_step :: "rw_lock \<Rightarrow> rw_pc \<Rightarrow> rw_lock \<Rightarrow> rw_pc \<Rightarrow> bool" where
  up_call: "rw_lock_upgrade_step l Reading l UP_add"
| up_add: "rw_lock_upgrade_step l UP_add (l\<lparr>writers_waiting := writers_waiting l + 1\<rparr>) UP_release"
| up_release: "rw_lock_upgrade_step l UP_release (l\<lparr>rw_state := rw_state l - 1\<rparr>) UP_cas"
| up_cas_ok: "rw_state l = 0 \<Longrightarrow> rw_lock_upgrade_step l UP_cas (l\<lparr>rw_state := -1\<rparr>) UP_sub"
| up_cas_fail: "rw_lock_upgrade_step l UP_cas l UP_cas"
| up_sub: "rw_lock_upgrade_step l UP_sub (l\<lparr>writers_waiting := writers_waiting l - 1\<rparr>) Writing"

inductive rw_lock_downgrade_step :: "rw_lock \<Rightarrow> rw_pc \<Rightarrow> rw_lock \<Rightarrow> rw_pc \<Rightarrow> bool" where
  dg_store: "rw_lock_downgrade_step l Writing (l\<lparr>rw_state := 1\<rparr>) Reading"

definition rw_step :: "rw_lock \<Rightarrow> rw_pc \<Rightarrow> rw_lock \<Rightarrow> rw_pc \<Rightarrow> bool" where
  "rw_step l p l' p' \<longleftrightarrow>
     rw_lock_read_lock_step l p l' p' \<or> rw_lock_read_unlock_step l p l' p' \<or>
     rw_lock_write_lock_step l p l' p' \<or> rw_lock_write_unlock_step l p l' p' \<or>
     rw_lock_upgrade_step l p l' p' \<or> rw_lock_downgrade_step l p l' p'"

text \<open>What a program counter holds: a share of the read count, the write lock, a waiting slot.\<close>

fun holds_read :: "rw_pc \<Rightarrow> bool" where
  "holds_read Reading = True"
| "holds_read UP_add = True"
| "holds_read UP_release = True"
| "holds_read _ = False"

fun holds_write :: "rw_pc \<Rightarrow> bool" where
  "holds_write WL_sub = True"
| "holds_write Writing = True"
| "holds_write UP_sub = True"
| "holds_write _ = False"

fun is_waiting :: "rw_pc \<Rightarrow> bool" where
  "is_waiting WL_cas = True"
| "is_waiting WL_sub = True"
| "is_waiting UP_release = True"
| "is_waiting UP_cas = True"
| "is_waiting UP_sub = True"
| "is_waiting _ = False"

text \<open>A system of \<open>n\<close> threads: the program counters are a list, the lock is shared.\<close>

definition n_read :: "rw_pc list \<Rightarrow> nat" where "n_read ps = num_sat holds_read ps"
definition n_write :: "rw_pc list \<Rightarrow> nat" where "n_write ps = num_sat holds_write ps"
definition n_wait :: "rw_pc list \<Rightarrow> nat" where "n_wait ps = num_sat is_waiting ps"

inductive rw_reachable :: "nat \<Rightarrow> rw_lock \<Rightarrow> rw_pc list \<Rightarrow> bool" for n where
  rw_start: "rw_reachable n rw_lock_init (replicate n Idle)"
| rw_by: "rw_reachable n l ps \<Longrightarrow> t < n \<Longrightarrow> rw_step l (ps ! t) l' p' \<Longrightarrow>
    rw_reachable n l' (ps[t := p'])"

text \<open>A reader only attempts its compare-exchange with a count it has seen to be non-negative.\<close>

fun cas_ok :: "rw_pc \<Rightarrow> bool" where
  "cas_ok (RL_cas v) = (0 \<le> v)"
| "cas_ok _ = True"

definition rw_inv :: "rw_lock \<Rightarrow> rw_pc list \<Rightarrow> bool" where
  "rw_inv l ps \<longleftrightarrow>
     (n_write ps = 0 \<and> rw_state l = int (n_read ps) \<or>
      n_write ps = 1 \<and> n_read ps = 0 \<and> rw_state l = -1) \<and>
     writers_waiting l = int (n_wait ps) \<and> list_all cas_ok ps"

lemmas n_defs = n_read_def n_write_def n_wait_def

lemma rw_reachable_length: "rw_reachable n l ps \<Longrightarrow> length ps = n"
  by (induction rule: rw_reachable.induct) auto

lemma rw_step_inv:
  assumes "rw_step l (ps ! t) l' p'" and t: "t < length ps" and inv: "rw_inv l ps"
  shows "rw_inv l' (ps[t := p'])"
proof -
  note upd = num_sat_update [OF t, of holds_read p'] num_sat_update [OF t, of holds_write p']
    num_sat_update [OF t, of is_waiting p']
  have cas: "cas_ok (ps ! t)" using inv t by (auto simp: rw_inv_def list_all_length)
  have all: "cas_ok p' \<Longrightarrow> list_all cas_ok (ps[t := p'])"
    using inv by (auto simp: rw_inv_def intro: list_all_update)
  note pos = num_sat_pos [OF t, of holds_read] num_sat_pos [OF t, of holds_write]
    num_sat_pos [OF t, of is_waiting]
  from assms(1) consider
    "rw_lock_read_lock_step l (ps ! t) l' p'" | "rw_lock_read_unlock_step l (ps ! t) l' p'"
    | "rw_lock_write_lock_step l (ps ! t) l' p'" | "rw_lock_write_unlock_step l (ps ! t) l' p'"
    | "rw_lock_upgrade_step l (ps ! t) l' p'" | "rw_lock_downgrade_step l (ps ! t) l' p'"
    unfolding rw_step_def by blast
  then show ?thesis
  proof cases
    case 1
    then show ?thesis using upd pos inv cas all unfolding rw_inv_def n_defs
      by (cases rule: rw_lock_read_lock_step.cases) auto
  next
    case 2
    then show ?thesis using upd pos inv cas all unfolding rw_inv_def n_defs
      by (cases rule: rw_lock_read_unlock_step.cases) auto
  next
    case 3
    then show ?thesis using upd pos inv cas all unfolding rw_inv_def n_defs
      by (cases rule: rw_lock_write_lock_step.cases) auto
  next
    case 4
    then show ?thesis using upd pos inv cas all unfolding rw_inv_def n_defs
      by (cases rule: rw_lock_write_unlock_step.cases) auto
  next
    case 5
    then show ?thesis using upd pos inv cas all unfolding rw_inv_def n_defs
      by (cases rule: rw_lock_upgrade_step.cases) auto
  next
    case 6
    then show ?thesis using upd pos inv cas all unfolding rw_inv_def n_defs
      by (cases rule: rw_lock_downgrade_step.cases) auto
  qed
qed

lemma rw_reachable_inv: "rw_reachable n l ps \<Longrightarrow> rw_inv l ps"
proof (induction rule: rw_reachable.induct)
  case rw_start
  show ?case by (simp add: rw_inv_def n_defs rw_lock_init_def list_all_iff)
next
  case (rw_by l ps t l' p')
  then show ?case by (auto intro: rw_step_inv simp: rw_reachable_length)
qed

section \<open>The routines of a thread that runs alone\<close>

text \<open>
  What a lock routine does when no other thread interferes, as a function: \<open>None\<close> is an endless
  spin. The theorems of this section tie each function to the small steps of its routine.
\<close>

definition rd_lock :: "rw_lock \<Rightarrow> rw_lock option" where
  "rd_lock l = (if rw_state l < 0 \<or> writers_waiting l \<noteq> 0 then None
                else Some (l\<lparr>rw_state := rw_state l + 1\<rparr>))"

definition rd_unlock :: "rw_lock \<Rightarrow> rw_lock" where
  "rd_unlock l = l\<lparr>rw_state := rw_state l - 1\<rparr>"

definition wr_lock :: "rw_lock \<Rightarrow> rw_lock option" where
  "wr_lock l = (if rw_state l = 0 then Some (l\<lparr>rw_state := -1\<rparr>) else None)"

definition wr_unlock :: "rw_lock \<Rightarrow> rw_lock" where
  "wr_unlock l = l\<lparr>rw_state := 0\<rparr>"

definition upgrade :: "rw_lock \<Rightarrow> rw_lock option" where
  "upgrade l = (if rw_state l = 1 then Some (l\<lparr>rw_state := -1\<rparr>) else None)"

definition downgrade :: "rw_lock \<Rightarrow> rw_lock" where
  "downgrade l = l\<lparr>rw_state := 1\<rparr>"

lemmas rw_fun_defs = rd_lock_def rd_unlock_def wr_lock_def wr_unlock_def upgrade_def downgrade_def

inductive solo :: "(rw_lock \<Rightarrow> rw_pc \<Rightarrow> rw_lock \<Rightarrow> rw_pc \<Rightarrow> bool) \<Rightarrow>
    rw_lock \<Rightarrow> rw_pc \<Rightarrow> rw_lock \<Rightarrow> rw_pc \<Rightarrow> bool" for R where
  solo_refl: "solo R l p l p"
| solo_step: "R l p l1 p1 \<Longrightarrow> solo R l1 p1 l2 p2 \<Longrightarrow> solo R l p l2 p2"

lemmas solo_rl = solo_step [where R = rw_lock_read_lock_step]
lemmas solo_wl = solo_step [where R = rw_lock_write_lock_step]
lemmas solo_up = solo_step [where R = rw_lock_upgrade_step]

lemma solo_read_lock_from:
  "solo rw_lock_read_lock_step l p l' p' \<Longrightarrow>
   p \<in> {Idle, RL_load} \<or> (\<exists>v. p = RL_check v \<and> v = rw_state l) \<or>
     (\<exists>v. p = RL_cas v \<and> v = rw_state l \<and> rd_lock l \<noteq> None) \<Longrightarrow>
   p' = Reading \<Longrightarrow> rd_lock l = Some l'"
proof (induction rule: solo.induct)
  case (solo_refl l p)
  then show ?case by auto
next
  case (solo_step l p l1 p1 l2 p2)
  from solo_step(1) show ?case
  proof cases
    case (rl_cas_ok v)
    from solo_step(2) show ?thesis
      using rl_cas_ok solo_step(4,5)
      by (cases rule: solo.cases)
        (auto simp: rd_lock_def split: if_splits elim: rw_lock_read_lock_step.cases)
  qed (use solo_step in \<open>auto simp: rd_lock_def split: if_splits\<close>)
qed

lemma solo_read_lock_to:
  assumes "rd_lock l = Some l'" shows "solo rw_lock_read_lock_step l Idle l' Reading"
proof -
  from assms have "\<not> rw_state l < 0" "writers_waiting l = 0" "l' = l\<lparr>rw_state := rw_state l + 1\<rparr>"
    by (auto simp: rd_lock_def split: if_splits)
  then show ?thesis
    by (auto intro!: solo_rl [OF rl_call] solo_rl [OF rl_load] solo_rl [OF rl_open]
        solo_rl [OF rl_cas_ok] solo_refl)
qed

text \<open>
  The write lock and the upgrade pass through the same three states; \<open>l0\<close> is the lock at the call.
\<close>

definition wl_from :: "rw_lock \<Rightarrow> rw_lock \<Rightarrow> rw_pc \<Rightarrow> bool" where
  "wl_from l0 l p \<longleftrightarrow> p = Idle \<and> l = l0 \<or> p = WL_add \<and> l = l0 \<or>
     p = WL_cas \<and> l = l0\<lparr>writers_waiting := writers_waiting l0 + 1\<rparr> \<or>
     p = WL_sub \<and> rw_state l0 = 0 \<and>
       l = l0\<lparr>rw_state := -1, writers_waiting := writers_waiting l0 + 1\<rparr> \<or>
     p = Writing \<and> wr_lock l0 = Some l"

lemma wl_from_step: "rw_lock_write_lock_step l p l' p' \<Longrightarrow> wl_from l0 l p \<Longrightarrow> wl_from l0 l' p'"
  by (cases rule: rw_lock_write_lock_step.cases) (auto simp: wl_from_def wr_lock_def)

lemma solo_wl_from: "solo rw_lock_write_lock_step l p l' p' \<Longrightarrow> wl_from l0 l p \<Longrightarrow> wl_from l0 l' p'"
  by (induction rule: solo.induct) (auto intro: wl_from_step)

lemma solo_write_lock_iff:
  "solo rw_lock_write_lock_step l Idle l' Writing \<longleftrightarrow> wr_lock l = Some l'"
proof
  assume "solo rw_lock_write_lock_step l Idle l' Writing"
  from solo_wl_from [OF this, of l] show "wr_lock l = Some l'" by (simp add: wl_from_def)
next
  assume "wr_lock l = Some l'"
  then have "rw_state l = 0" "l' = l\<lparr>rw_state := -1\<rparr>" by (auto simp: wr_lock_def split: if_splits)
  moreover have "l\<lparr>writers_waiting := writers_waiting l + 1, rw_state := -1,
      writers_waiting := writers_waiting l\<rparr> = l\<lparr>rw_state := -1\<rparr>" by simp
  ultimately show "solo rw_lock_write_lock_step l Idle l' Writing"
    by (auto intro!: solo_wl [OF wl_call] solo_wl [OF wl_add] solo_wl [OF wl_cas_ok]
        solo_wl [OF wl_sub] solo_refl simp del: rw_lock.update_convs)
qed

definition up_from :: "rw_lock \<Rightarrow> rw_lock \<Rightarrow> rw_pc \<Rightarrow> bool" where
  "up_from l0 l p \<longleftrightarrow> p = Reading \<and> l = l0 \<or> p = UP_add \<and> l = l0 \<or>
     p = UP_release \<and> l = l0\<lparr>writers_waiting := writers_waiting l0 + 1\<rparr> \<or>
     p = UP_cas \<and> l = l0\<lparr>rw_state := rw_state l0 - 1, writers_waiting := writers_waiting l0 + 1\<rparr> \<or>
     p = UP_sub \<and> rw_state l0 = 1 \<and>
       l = l0\<lparr>rw_state := -1, writers_waiting := writers_waiting l0 + 1\<rparr> \<or>
     p = Writing \<and> upgrade l0 = Some l"

lemma up_from_step: "rw_lock_upgrade_step l p l' p' \<Longrightarrow> up_from l0 l p \<Longrightarrow> up_from l0 l' p'"
  by (cases rule: rw_lock_upgrade_step.cases) (auto simp: up_from_def upgrade_def)

lemma solo_up_from: "solo rw_lock_upgrade_step l p l' p' \<Longrightarrow> up_from l0 l p \<Longrightarrow> up_from l0 l' p'"
  by (induction rule: solo.induct) (auto intro: up_from_step)

lemma solo_upgrade_iff:
  "solo rw_lock_upgrade_step l Reading l' Writing \<longleftrightarrow> upgrade l = Some l'"
proof
  assume "solo rw_lock_upgrade_step l Reading l' Writing"
  from solo_up_from [OF this, of l] show "upgrade l = Some l'" by (simp add: up_from_def)
next
  assume "upgrade l = Some l'"
  then have "rw_state l = 1" "l' = l\<lparr>rw_state := -1\<rparr>" by (auto simp: upgrade_def split: if_splits)
  then show "solo rw_lock_upgrade_step l Reading l' Writing"
    by (auto intro!: solo_up [OF up_call] solo_up [OF up_add] solo_up [OF up_release]
        solo_up [OF up_cas_ok] solo_up [OF up_sub] solo_refl)
qed

section \<open>Properties\<close>

text \<open>C1. Writer exclusion of the read/write lock, under every interleaving of any number of threads:
  while one thread holds the write lock (also while it is still inside the locking routine, after
  its compare-exchange succeeded) no other thread holds it for writing or for reading, and
  \<^verbatim>\<open>rw_lock_is_write_locked\<close> reports it.\<close>

theorem rw_lock_exclusion:
  assumes "rw_reachable n l ps" "t < n" "u < n" "t \<noteq> u" "holds_write (ps ! t)"
  shows "\<not> holds_write (ps ! u) \<and> \<not> holds_read (ps ! u) \<and> rw_lock_is_write_locked l"
proof -
  have inv: "rw_inv l ps" and len: "length ps = n"
    using assms(1) by (auto intro: rw_reachable_inv rw_reachable_length)
  have "0 < n_write ps" using num_sat_pos [of t ps holds_write] assms len by (simp add: n_defs)
  with inv have w: "n_write ps = 1" "n_read ps = 0" "rw_state l = -1" by (auto simp: rw_inv_def)
  have "\<not> holds_write (ps ! u)"
    using num_sat_two [of t ps u holds_write] assms len w by (auto simp: n_defs)
  moreover have "\<not> holds_read (ps ! u)"
    using num_sat_pos [of u ps holds_read] assms len w by (auto simp: n_defs)
  ultimately show ?thesis using w by (simp add: rw_lock_is_write_locked_def)
qed

lemma rw_two_threads: "rw_reachable 2 \<lparr>rw_state = -1, writers_waiting = 1\<rparr> [WL_sub, Idle]"
proof -
  have s0: "rw_reachable 2 \<lparr>rw_state = 0, writers_waiting = 0\<rparr> [Idle, Idle]"
    using rw_start [of 2] by (simp add: rw_lock_init_def numeral_2_eq_2)
  have s1: "rw_reachable 2 \<lparr>rw_state = 0, writers_waiting = 0\<rparr> [WL_add, Idle]"
    using rw_by [OF s0, of 0 _ WL_add] wl_call by (simp add: rw_step_def)
  have s2: "rw_reachable 2 \<lparr>rw_state = 0, writers_waiting = 1\<rparr> [WL_cas, Idle]"
    using rw_by [OF s1, of 0 _ WL_cas] wl_add [of "\<lparr>rw_state = 0, writers_waiting = 0\<rparr>"]
    by (simp add: rw_step_def)
  show ?thesis
    using rw_by [OF s2, of 0 _ WL_sub] wl_cas_ok [of "\<lparr>rw_state = 0, writers_waiting = 1\<rparr>"]
    by (simp add: rw_step_def)
qed

theorem rw_lock_exclusion_witness:
  "\<not> holds_write ([WL_sub, Idle] ! 1) \<and> \<not> holds_read ([WL_sub, Idle] ! 1) \<and>
   rw_lock_is_write_locked \<lparr>rw_state = -1, writers_waiting = 1\<rparr>"
  by (rule rw_lock_exclusion [OF rw_two_threads, of 0]) simp_all

text \<open>C2. The two counters always agree with what the threads hold: the state is \<open>-1\<close> under a writer
  and otherwise the number of read holds, the waiting count is the number of threads between its
  increment and its decrement; so both stay within the number of threads and never wrap.\<close>

theorem rw_lock_counters:
  assumes "rw_reachable n l ps"
  shows "rw_state l = (if n_write ps = 0 then int (n_read ps) else -1) \<and>
         writers_waiting l = int (n_wait ps) \<and>
         -1 \<le> rw_state l \<and> rw_state l \<le> int n \<and> 0 \<le> writers_waiting l \<and> writers_waiting l \<le> int n"
proof -
  have "rw_inv l ps" "length ps = n"
    using assms by (auto intro: rw_reachable_inv rw_reachable_length)
  moreover have "n_read ps \<le> length ps" "n_wait ps \<le> length ps"
    by (auto simp: n_defs num_sat_le_length)
  ultimately show ?thesis by (auto simp: rw_inv_def)
qed

theorem rw_lock_counters_witness:
  "n_write [WL_sub, Idle] = 1 \<and>
   rw_state \<lparr>rw_state = -1, writers_waiting = 1\<rparr> = (if n_write [WL_sub, Idle] = 0 then 0 else -1)"
  using rw_lock_counters [OF rw_two_threads] by (simp add: n_defs num_sat_def)


lemma rw_waiting_thread: "rw_reachable 1 \<lparr>rw_state = 0, writers_waiting = 1\<rparr> [WL_cas]"
proof -
  have s0: "rw_reachable 1 \<lparr>rw_state = 0, writers_waiting = 0\<rparr> [Idle]"
    using rw_start [of 1] by (simp add: rw_lock_init_def)
  have s1: "rw_reachable 1 \<lparr>rw_state = 0, writers_waiting = 0\<rparr> [WL_add]"
    using rw_by [OF s0, of 0 _ WL_add] wl_call by (simp add: rw_step_def)
  show ?thesis
    using rw_by [OF s1, of 0 _ WL_cas] wl_add [of "\<lparr>rw_state = 0, writers_waiting = 0\<rparr>"]
    by (simp add: rw_step_def)
qed


text \<open>C4. What the lock routines do for a thread that is not interfered with: the small steps of
  \<^verbatim>\<open>rw_lock_read_lock\<close>, \<^verbatim>\<open>rw_lock_write_lock\<close> and \<^verbatim>\<open>rw_lock_upgrade_read_to_write\<close> lead from the call to
  its return exactly when \<open>rd_lock\<close>, \<open>wr_lock\<close> and \<open>upgrade\<close> return, with the same lock; in every other
  state the routine never returns.\<close>

theorem rw_lock_routines_alone:
  "(solo rw_lock_read_lock_step l Idle l' Reading \<longleftrightarrow> rd_lock l = Some l') \<and>
   (solo rw_lock_write_lock_step l Idle l' Writing \<longleftrightarrow> wr_lock l = Some l') \<and>
   (solo rw_lock_upgrade_step l Reading l' Writing \<longleftrightarrow> upgrade l = Some l')"
  using solo_read_lock_from [of l Idle l' Reading] solo_read_lock_to solo_write_lock_iff
    solo_upgrade_iff by blast

text \<open>C5. Mutual exclusion of the spin mutex under every interleaving: at most one thread is past
  \<^verbatim>\<open>mutex_lock\<close> and before \<^verbatim>\<open>mutex_unlock\<close>, and \<^verbatim>\<open>mutex_is_locked\<close> tells whether one is.\<close>

theorem mutex_exclusion:
  assumes "mutex_reachable n m ps"
  shows "(mutex_is_locked m \<longleftrightarrow> MHeld \<in> set ps) \<and>
         (\<forall>t<n. \<forall>u<n. ps ! t = MHeld \<and> ps ! u = MHeld \<longrightarrow> t = u)"
proof -
  note inv = mutex_reachable_inv [OF assms] and len = mutex_reachable_length [OF assms]
  have "MHeld \<in> set ps \<longleftrightarrow> n_held ps \<noteq> 0" by (auto simp: n_held_def num_sat_zero)
  moreover have "t = u" if "t < n" "u < n" "ps ! t = MHeld" "ps ! u = MHeld" for t u
  proof (rule ccontr)
    assume "t \<noteq> u"
    with that len num_sat_two [of t ps u "\<lambda>p. p = MHeld"] have "2 \<le> n_held ps"
      by (simp add: n_held_def)
    with inv show False by (auto split: if_splits)
  qed
  ultimately show ?thesis using inv by (auto simp: mutex_is_locked_def split: if_splits)
qed

lemma mutex_two_threads: "mutex_reachable 2 True [MHeld, MSpin]"
proof -
  have s0: "mutex_reachable 2 False [MIdle, MIdle]"
    using mutex_start [of 2] by (simp add: numeral_2_eq_2)
  have s1: "mutex_reachable 2 False [MSpin, MIdle]"
    using mutex_lock_by [OF s0, of 0 _ MSpin] mutex_call by simp
  have s2: "mutex_reachable 2 False [MSpin, MSpin]"
    using mutex_lock_by [OF s1, of 1 _ MSpin] mutex_call by simp
  show ?thesis using mutex_lock_by [OF s2, of 0 _ MHeld] mutex_acquire by simp
qed

theorem mutex_exclusion_witness: "mutex_is_locked True \<longleftrightarrow> MHeld \<in> set [MHeld, MSpin]"
  using mutex_exclusion [OF mutex_two_threads] by simp

end
