(* ===== verification/Alloc_Spec.thy ===== *)
theory Alloc_Spec
  imports Prelude
begin

text \<open>
  The contract between a heap and its clients. A heap has a state, the set of live blocks in it
  (first address and length of every payload handed out and not freed), and a budget: the number of
  bytes of address space it can still grow into. An allocation within the budget succeeds, adds one
  block at least as long as the request to the live blocks and spends at most the request and a
  fixed overhead; live blocks never overlap; freeing a live block removes exactly that block.
\<close>

definition apart :: "nat \<times> nat \<Rightarrow> nat \<times> nat \<Rightarrow> bool" where
  "apart x y \<longleftrightarrow> fst x + snd x \<le> fst y \<or> fst y + snd y \<le> fst x"

locale heap_allocator =
  fixes inv :: "'s \<Rightarrow> bool"
    and live :: "'s \<Rightarrow> (nat \<times> nat) set"
    and budget :: "'s \<Rightarrow> nat"
    and overhead :: nat
    and alloc :: "nat \<Rightarrow> 's \<Rightarrow> (nat \<times> 's) option"
    and dealloc :: "nat \<Rightarrow> 's \<Rightarrow> 's option"
  assumes alloc_law: "inv s \<Longrightarrow> 0 < n \<Longrightarrow> n + overhead < budget s \<Longrightarrow>
      \<exists>p m s'. alloc n s = Some (p, s') \<and> inv s' \<and> n \<le> m \<and> (p, m) \<notin> live s \<and>
        live s' = insert (p, m) (live s) \<and> p mod 16 = 0 \<and> budget s \<le> budget s' + n + overhead"
    and live_apart: "inv s \<Longrightarrow> x \<in> live s \<Longrightarrow> y \<in> live s \<Longrightarrow> x \<noteq> y \<Longrightarrow> apart x y"
    and live_size: "inv s \<Longrightarrow> (p, m) \<in> live s \<Longrightarrow> 0 < m"
    and dealloc_law: "inv s \<Longrightarrow> (p, m) \<in> live s \<Longrightarrow>
      \<exists>s'. dealloc p s = Some s' \<and> inv s' \<and> live s' = live s - {(p, m)} \<and> budget s' = budget s"
begin

text \<open>A client that makes several requests in a row, and one that gives blocks back.\<close>

primrec alloc_all :: "nat list \<Rightarrow> 's \<Rightarrow> (nat list \<times> 's) option" where
  "alloc_all [] s = Some ([], s)"
| "alloc_all (n # ns) s =
     (case alloc n s of None \<Rightarrow> None
      | Some (p, s1) \<Rightarrow> (case alloc_all ns s1 of None \<Rightarrow> None | Some (ps, s2) \<Rightarrow> Some (p # ps, s2)))"

primrec dealloc_all :: "nat list \<Rightarrow> 's \<Rightarrow> 's option" where
  "dealloc_all [] s = Some s"
| "dealloc_all (p # ps) s = (case dealloc p s of None \<Rightarrow> None | Some s1 \<Rightarrow> dealloc_all ps s1)"

lemma live_unique:
  assumes "inv s" "(p, m) \<in> live s" "(p, m') \<in> live s" shows "m = m'"
proof (rule ccontr)
  assume "m \<noteq> m'"
  then have "apart (p, m) (p, m')" using live_apart [OF assms] by simp
  then show False using live_size [OF assms(1,2)] live_size [OF assms(1,3)] by (simp add: apart_def)
qed

lemma alloc_all_law:
  assumes "inv s" "\<forall>n\<in>set ns. 0 < n" "(\<Sum>n\<leftarrow>ns. n + overhead) < budget s"
  shows "\<exists>ps ms s'. alloc_all ns s = Some (ps, s') \<and> inv s' \<and> length ps = length ns \<and>
           list_all2 (\<le>) ns ms \<and> distinct (zip ps ms) \<and> set (zip ps ms) \<inter> live s = {} \<and>
           live s' = set (zip ps ms) \<union> live s"
  using assms
proof (induction ns arbitrary: s)
  case (Cons n ns)
  then have "inv s" "0 < n" "n + overhead < budget s" by simp_all
  then obtain p m s1 where s1: "alloc n s = Some (p, s1)" "inv s1" "n \<le> m" "(p, m) \<notin> live s"
    "live s1 = insert (p, m) (live s)" "budget s \<le> budget s1 + n + overhead"
    using alloc_law by blast
  have "(\<Sum>n\<leftarrow>ns. n + overhead) < budget s1" using Cons.prems(3) s1(6) by simp
  with Cons.IH [OF s1(2)] Cons.prems(2) obtain ps ms s2 where
    s2: "alloc_all ns s1 = Some (ps, s2)" "inv s2" "length ps = length ns" "list_all2 (\<le>) ns ms"
      "distinct (zip ps ms)" "set (zip ps ms) \<inter> live s1 = {}" "live s2 = set (zip ps ms) \<union> live s1"
    by auto
  then show ?case
    using s1 by (intro exI [of _ "p # ps"] exI [of _ "m # ms"] exI [of _ s2]) auto
qed auto

text \<open>Giving back everything that was requested, in any order, leaves the live blocks as they were.\<close>

lemma dealloc_all_law:
  assumes "inv s" "length ps = length ms" "distinct (zip ps ms)" "set (zip ps ms) \<subseteq> live s"
  shows "\<exists>s'. dealloc_all ps s = Some s' \<and> inv s' \<and> live s' = live s - set (zip ps ms)"
  using assms(2,1,3,4)
proof (induction ps ms arbitrary: s rule: list_induct2)
  case (Cons p ps m ms)
  then obtain s1 where s1: "dealloc p s = Some s1" "inv s1" "live s1 = live s - {(p, m)}"
    using dealloc_law [of s p m] by auto
  have "distinct (zip ps ms)" "set (zip ps ms) \<subseteq> live s1" using Cons.prems s1(3) by auto
  then obtain s2 where "dealloc_all ps s1 = Some s2" "inv s2" "live s2 = live s1 - set (zip ps ms)"
    using Cons.IH [OF s1(2)] by blast
  with s1 show ?case by auto
qed simp

lemma alloc_then_dealloc:
  assumes "inv s" "\<forall>n\<in>set ns. 0 < n" "(\<Sum>n\<leftarrow>ns. n + overhead) < budget s"
  shows "\<exists>ps s1 s2. alloc_all ns s = Some (ps, s1) \<and> dealloc_all ps s1 = Some s2 \<and> inv s2 \<and>
           live s2 = live s"
proof -
  obtain ps ms s1 where s1: "alloc_all ns s = Some (ps, s1)" "inv s1" "length ps = length ns"
    "list_all2 (\<le>) ns ms" "distinct (zip ps ms)" "set (zip ps ms) \<inter> live s = {}"
    "live s1 = set (zip ps ms) \<union> live s"
    using alloc_all_law [OF assms] by auto
  moreover from s1 have "length ps = length ms" by (auto dest: list_all2_lengthD)
  ultimately obtain s2 where "dealloc_all ps s1 = Some s2" "inv s2" "live s2 = live s"
    using dealloc_all_law [of s1 ps ms] by auto
  with s1(1) show ?thesis by blast
qed

end

end
