(* ===== verification/Kmalloc.thy ===== *)
theory Kmalloc
  imports Prelude Alloc_Spec
begin

text \<open>
  The kernel heap of \<^verbatim>\<open>src/memory/kmalloc.c\<close>. Headers live in a store from addresses to
  \<^verbatim>\<open>heap_segment_info\<close> objects and are linked by address, with \<open>0\<close> for \<^verbatim>\<open>NULL\<close>; every size and
  address is a 64-bit word. Mapping a page (\<^verbatim>\<open>find_page\<close>) acts on a component \<open>vm\<close> of the state
  through a parameter, since the page tables are another component. The free-list walk is a
  \<^verbatim>\<open>for (;;)\<close> over \<^verbatim>\<open>next\<close> pointers and is an option-valued recursion: \<open>None\<close> is a walk that never
  ends. Disabling interrupts around the lock has no effect on this state and is left out.

  The abstract heap is the list of blocks in address order. \<open>kheap_rel\<close> relates it to the linked
  headers: the list is doubly linked, the blocks tile the range from \<^verbatim>\<open>kheap_start\<close> to \<^verbatim>\<open>kheap_end\<close> without
  gaps, and there are no other headers. The theorems at the end state that allocation is first fit on
  this list.
\<close>

section \<open>The code\<close>

definition HEAP_GRANULARITY :: u64 where "HEAP_GRANULARITY = 0x10"
definition HEAP_ALLOC_MIN :: u64 where "HEAP_ALLOC_MIN = 0x10"
definition HEAP_HEADER_LEN :: u64 where "HEAP_HEADER_LEN = 32"
definition KHEAP_INIT_PAGES :: u64 where "KHEAP_INIT_PAGES = 160"
definition KHEAP_INIT_SIZE :: u64 where "KHEAP_INIT_SIZE = PAGE_LEN * KHEAP_INIT_PAGES"
definition KERNEL_HEAP_START_ADDR :: u64 where "KERNEL_HEAP_START_ADDR = 0xFFFFA00000000000"

record heap_segment_info =
  seg_size :: u64
  seg_next :: u64
  seg_prev :: u64
  seg_free :: bool

type_synonym seg_store = "u64 \<Rightarrow> heap_segment_info option"

record 'm kheap =
  kheap_start :: u64
  kheap_end :: u64
  kheap_last_segment :: u64
  segs :: seg_store
  kheap_locked :: bool
  vm :: 'm

definition deref :: "seg_store \<Rightarrow> u64 \<Rightarrow> heap_segment_info kres" where
  "deref h a = (case h a of None \<Rightarrow> Inl BadAccess | Some s \<Rightarrow> Inr s)"

text \<open>\<^verbatim>\<open>if (size % HEAP_GRANULARITY) size = size + HEAP_GRANULARITY - (size % HEAP_GRANULARITY);\<close> then the
  minimum, as at the head of \<^verbatim>\<open>kmalloc_heap\<close> and \<^verbatim>\<open>kheap_segment_split\<close>.\<close>

definition round_size :: "u64 \<Rightarrow> u64" where
  "round_size n =
     (let n1 = (if n mod HEAP_GRANULARITY \<noteq> 0
                then n + HEAP_GRANULARITY - n mod HEAP_GRANULARITY else n)
      in if n1 < HEAP_ALLOC_MIN then HEAP_ALLOC_MIN else n1)"

definition map_pages :: "(u64 \<Rightarrow> 'm \<Rightarrow> 'm) \<Rightarrow> u64 \<Rightarrow> u64 \<Rightarrow> 'm \<Rightarrow> 'm" where
  "map_pages find_page pg_addr pages m =
     fold (\<lambda>i. find_page (pg_addr + of_nat i * PAGE_LEN)) [0..<unat pages] m"

definition kheap_add_segment :: "(u64 \<Rightarrow> 'm \<Rightarrow> 'm) \<Rightarrow> u64 \<Rightarrow> 'm kheap \<Rightarrow> (u64 \<times> 'm kheap) kres" where
  "kheap_add_segment find_page len0 st =
     (let len = (if len0 < HEAP_ALLOC_MIN then HEAP_ALLOC_MIN else len0);
          pages = (len + HEAP_HEADER_LEN + PAGE_LEN - 1) div PAGE_LEN;
          pg_addr = kheap_end st
      in if pg_addr AND (PAGE_LEN - 1) \<noteq> 0 then Inl Halt
         else
           let st1 = st\<lparr>vm := map_pages find_page pg_addr pages (vm st)\<rparr>;
               last_segment = kheap_last_segment st1;
               st2 = st1\<lparr>kheap_last_segment := pg_addr\<rparr>
           in bindR (if last_segment = 0 then Inr st2
                     else bindR (deref (segs st2) last_segment)
                       (\<lambda>s. Inr (st2\<lparr>segs := (segs st2)(last_segment \<mapsto> s\<lparr>seg_next := pg_addr\<rparr>)\<rparr>)))
                (\<lambda>st3. Inr (pg_addr,
                   st3\<lparr>segs := (segs st3)(pg_addr \<mapsto>
                         \<lparr>seg_size = pages * PAGE_LEN - HEAP_HEADER_LEN, seg_next = 0,
                          seg_prev = last_segment, seg_free = True\<rparr>),
                       kheap_end := pg_addr + pages * PAGE_LEN\<rparr>)))"

definition kheap_segment_split :: "u64 \<Rightarrow> u64 \<Rightarrow> 'm kheap \<Rightarrow> (u64 \<times> 'm kheap) kres" where
  "kheap_segment_split segment keep0 st =
     (if segment = 0 then Inr (0, st)
      else bindR (deref (segs st) segment) (\<lambda>s.
        let keep_size = round_size keep0 in
        if seg_size s \<le> keep_size + HEAP_HEADER_LEN then Inr (0, st)
        else if seg_size s - keep_size - HEAP_HEADER_LEN < HEAP_ALLOC_MIN then Inr (0, st)
        else
          let new_segment = segment + keep_size + HEAP_HEADER_LEN;
              h1 = (segs st)(new_segment \<mapsto>
                     \<lparr>seg_size = seg_size s - keep_size - HEAP_HEADER_LEN, seg_next = seg_next s,
                      seg_prev = segment, seg_free = True\<rparr>);
              h2 = h1(segment \<mapsto> s\<lparr>seg_size := keep_size\<rparr>)
          in bindR (if seg_next s = 0 then Inr h2
                    else bindR (deref h2 (seg_next s))
                      (\<lambda>nx. Inr (h2(seg_next s \<mapsto> nx\<lparr>seg_prev := new_segment\<rparr>))))
               (\<lambda>h3. bindR (deref h3 segment) (\<lambda>s'.
                 let st1 = st\<lparr>segs := h3(segment \<mapsto> s'\<lparr>seg_next := new_segment\<rparr>)\<rparr>
                 in Inr (new_segment,
                      if kheap_last_segment st1 = segment
                      then st1\<lparr>kheap_last_segment := new_segment\<rparr> else st1)))))"

partial_function (option) kheap_search :: "seg_store \<Rightarrow> u64 \<Rightarrow> u64 \<Rightarrow> u64 option kres option" where
  "kheap_search h sz cur =
     (case h cur of
        None \<Rightarrow> Some (Inl BadAccess)
      | Some s \<Rightarrow>
          if seg_free s \<and> sz \<le> seg_size s then Some (Inr (Some cur))
          else if seg_next s = 0 then Some (Inr None)
          else kheap_search h sz (seg_next s))"

definition set_used :: "u64 \<Rightarrow> 'm kheap \<Rightarrow> 'm kheap kres" where
  "set_used a st = bindR (deref (segs st) a) (\<lambda>s. Inr (st\<lparr>segs := (segs st)(a \<mapsto> s\<lparr>seg_free := False\<rparr>)\<rparr>))"

text \<open>The common tail of the three return paths: unlock, check the alignment, step over the header.\<close>

definition kmalloc_return :: "u64 \<Rightarrow> 'm kheap \<Rightarrow> (u64 \<times> 'm kheap) kres" where
  "kmalloc_return seg st =
     (if seg mod HEAP_GRANULARITY \<noteq> 0 then Inl Halt
      else Inr (seg + HEAP_HEADER_LEN, st\<lparr>kheap_locked := False\<rparr>))"

definition kmalloc_heap :: "(u64 \<Rightarrow> 'm \<Rightarrow> 'm) \<Rightarrow> u64 \<Rightarrow> 'm kheap \<Rightarrow> (u64 \<times> 'm kheap) kres option" where
  "kmalloc_heap find_page sz0 st0 =
     (if sz0 = 0 then Some (Inr (0, st0))
      else if kheap_locked st0 then Some (Inl Deadlock)
      else
        let sz = round_size sz0; st = st0\<lparr>kheap_locked := True\<rparr>
        in case kheap_search (segs st) sz (kheap_start st) of
             None \<Rightarrow> None
           | Some (Inl e) \<Rightarrow> Some (Inl e)
           | Some (Inr (Some cur_seg)) \<Rightarrow>
               Some (bindR (deref (segs st) cur_seg) (\<lambda>s.
                 bindR (if sz < seg_size s then kheap_segment_split cur_seg sz st else Inr (0, st))
                   (\<lambda>(_, st1). bindR (set_used cur_seg st1) (kmalloc_return cur_seg))))
           | Some (Inr None) \<Rightarrow>
               Some (bindR (kheap_add_segment find_page sz st)
                 (\<lambda>(seg, st1). bindR (set_used seg st1) (kmalloc_return seg))))"

datatype free_status = FreeNull | DoubleFree | Freed

definition kfree_heap :: "u64 \<Rightarrow> 'm kheap \<Rightarrow> (free_status \<times> 'm kheap) kres" where
  "kfree_heap ptr st =
     (if ptr = 0 then Inr (FreeNull, st)
      else let cur_seg = ptr - HEAP_HEADER_LEN in
        if kheap_locked st then Inl Deadlock
        else bindR (deref (segs st) cur_seg) (\<lambda>s.
          if seg_free s then Inr (DoubleFree, st)
          else Inr (Freed, st\<lparr>segs := (segs st)(cur_seg \<mapsto> s\<lparr>seg_free := True\<rparr>)\<rparr>)))"

definition init_kernel_heap ::
    "(u64 \<Rightarrow> 'm \<Rightarrow> 'm) \<Rightarrow> (u64 \<Rightarrow> 'm \<Rightarrow> 'm) \<Rightarrow> 'm kheap \<Rightarrow> (u64 \<times> 'm kheap) kres" where
  "init_kernel_heap find_page_before_kheap find_page st =
     (let st1 = st\<lparr>vm := map_pages find_page_before_kheap KERNEL_HEAP_START_ADDR 4 (vm st),
                   kheap_start := KERNEL_HEAP_START_ADDR,
                   kheap_end := KERNEL_HEAP_START_ADDR + PAGE_LEN * 4\<rparr>;
          st2 = st1\<lparr>segs := (segs st1)(kheap_start st1 \<mapsto>
                  \<lparr>seg_size = PAGE_LEN * 4 - HEAP_HEADER_LEN, seg_next = 0, seg_prev = 0,
                   seg_free = True\<rparr>),
                  kheap_last_segment := kheap_start st1\<rparr>
      in kheap_add_segment find_page (KHEAP_INIT_SIZE - PAGE_LEN * 4) st2)"

text \<open>The bump allocators over physical memory, on \<^verbatim>\<open>PHYS_MEM_HEAD\<close>.\<close>

definition is_page_misaligned :: "u64 \<Rightarrow> bool" where
  "is_page_misaligned ptr = (ptr AND (PAGE_LEN - 1) \<noteq> 0)"

definition kmalloc :: "u64 \<Rightarrow> u64 \<Rightarrow> u64 \<Rightarrow> u64 \<Rightarrow> u64 \<times> u64" where
  "kmalloc hhdm useable_end sz head =
     (if useable_end \<le> head + sz then (0, head) else (head + hhdm, head + sz))"

definition kmalloc_a :: "u64 \<Rightarrow> u64 \<Rightarrow> u64 \<Rightarrow> bool \<Rightarrow> u64 \<Rightarrow> u64 \<times> u64" where
  "kmalloc_a hhdm useable_end sz align head0 =
     (let head = (if align \<and> is_page_misaligned head0
                  then (head0 + PAGE_LEN - 1) AND NOT (PAGE_LEN - 1) else head0)
      in if useable_end \<le> head + sz then (0, head) else (head + hhdm, head + sz))"

lemmas kheap_const_defs = HEAP_GRANULARITY_def HEAP_ALLOC_MIN_def HEAP_HEADER_LEN_def PAGE_LEN_def

section \<open>The abstract heap\<close>

record blk =
  baddr :: u64
  bsize :: u64
  bfree :: bool

fun head_addr :: "blk list \<Rightarrow> u64 \<Rightarrow> u64" where
  "head_addr [] n = n"
| "head_addr (b # bs) n = baddr b"

fun last_addr :: "u64 \<Rightarrow> blk list \<Rightarrow> u64" where
  "last_addr p [] = p"
| "last_addr p (b # bs) = last_addr (baddr b) bs"

text \<open>\<open>linked h p bs n\<close>: the headers of \<open>bs\<close> are in the store, doubly linked in this order, with \<open>p\<close> before
  and \<open>n\<close> after them.\<close>

fun linked :: "seg_store \<Rightarrow> u64 \<Rightarrow> blk list \<Rightarrow> u64 \<Rightarrow> bool" where
  "linked h p [] n = True"
| "linked h p (b # bs) n \<longleftrightarrow>
     h (baddr b) = Some \<lparr>seg_size = bsize b, seg_next = head_addr bs n, seg_prev = p,
       seg_free = bfree b\<rparr> \<and> linked h (baddr b) bs n"

text \<open>\<open>layout bs lo hi\<close>: headers and payloads of \<open>bs\<close> tile the addresses from \<open>lo\<close> to \<open>hi\<close>.\<close>

fun layout :: "blk list \<Rightarrow> nat \<Rightarrow> nat \<Rightarrow> bool" where
  "layout [] lo hi \<longleftrightarrow> lo = hi"
| "layout (b # bs) lo hi \<longleftrightarrow>
     unat (baddr b) = lo \<and> 16 dvd unat (bsize b) \<and> 16 \<le> unat (bsize b) \<and>
     layout bs (lo + 32 + unat (bsize b)) hi"

definition kheap_ok :: "'m kheap \<Rightarrow> blk list \<Rightarrow> bool" where
  "kheap_ok st bs \<longleftrightarrow>
     bs \<noteq> [] \<and> linked (segs st) 0 bs 0 \<and> layout bs (unat (kheap_start st)) (unat (kheap_end st)) \<and>
     dom (segs st) = baddr ` set bs \<and> kheap_last_segment st = last_addr 0 bs \<and>
     4096 dvd unat (kheap_end st) \<and> 16 dvd unat (kheap_start st) \<and> 0 < kheap_start st"

definition kheap_rel :: "'m kheap \<Rightarrow> blk list \<Rightarrow> bool" where
  "kheap_rel st bs \<longleftrightarrow> kheap_ok st bs \<and> \<not> kheap_locked st"

text \<open>First fit: the first free block that is large enough is taken; what is left of it becomes a
  free block when it can hold a header and the minimum payload.\<close>

definition carve :: "u64 \<Rightarrow> blk \<Rightarrow> blk list" where
  "carve n b =
     (if n + 32 < bsize b
      then [b\<lparr>bsize := n, bfree := False\<rparr>,
            \<lparr>baddr = baddr b + n + 32, bsize = bsize b - n - 32, bfree = True\<rparr>]
      else [b\<lparr>bfree := False\<rparr>])"

fun spec_take :: "u64 \<Rightarrow> blk list \<Rightarrow> (u64 \<times> blk list) option" where
  "spec_take n [] = None"
| "spec_take n (b # bs) =
     (if bfree b \<and> n \<le> bsize b then Some (baddr b + 32, carve n b @ bs)
      else map_option (\<lambda>(p, cs). (p, b # cs)) (spec_take n bs))"

definition grown :: "u64 \<Rightarrow> u64 \<Rightarrow> blk" where
  "grown n e = \<lparr>baddr = e, bsize = (n + 32 + 4095) div 4096 * 4096 - 32, bfree = False\<rparr>"

definition spec_alloc :: "u64 \<Rightarrow> u64 \<Rightarrow> blk list \<Rightarrow> u64 \<times> blk list" where
  "spec_alloc n e bs =
     (case spec_take n bs of Some r \<Rightarrow> r | None \<Rightarrow> (e + 32, bs @ [grown n e]))"

section \<open>Lists of blocks\<close>

named_theorems blks "facts on linked headers and block layouts"

lemma head_addr_append [blks]: "head_addr (xs @ ys) n = head_addr xs (head_addr ys n)"
  by (cases xs) auto

lemma last_addr_append [blks]: "last_addr p (xs @ ys) = last_addr (last_addr p xs) ys"
  by (induction xs arbitrary: p) auto

lemma last_addr_mem: "bs \<noteq> [] \<Longrightarrow> last_addr p bs \<in> baddr ` set bs"
  by (induction bs arbitrary: p) (force split: if_splits)+

lemma linked_append [blks]:
  "linked h p (xs @ ys) n \<longleftrightarrow> linked h p xs (head_addr ys n) \<and> linked h (last_addr p xs) ys n"
  by (induction xs arbitrary: p) (auto simp: head_addr_append)

lemma linked_upd [blks]: "a \<notin> baddr ` set xs \<Longrightarrow> linked (h(a := v)) p xs n = linked h p xs n"
  by (induction xs arbitrary: p) auto

lemma layout_append [blks]: "layout (xs @ ys) lo hi \<longleftrightarrow> (\<exists>m. layout xs lo m \<and> layout ys m hi)"
  by (induction xs arbitrary: lo) auto

lemma layout_le: "layout bs lo hi \<Longrightarrow> lo \<le> hi"
  by (induction bs arbitrary: lo) fastforce+

lemma layout_within:
  "layout bs lo hi \<Longrightarrow> b \<in> set bs \<Longrightarrow>
   lo \<le> unat (baddr b) \<and> unat (baddr b) + 32 + unat (bsize b) \<le> hi"
  by (induction bs arbitrary: lo) (fastforce dest: layout_le)+

lemma layout_aligned: "layout bs lo hi \<Longrightarrow> 16 dvd lo \<Longrightarrow> b \<in> set bs \<Longrightarrow> 16 dvd unat (baddr b)"
proof (induction bs arbitrary: lo)
  case (Cons c cs)
  have "16 dvd lo + 32 + unat (bsize c)" using Cons.prems by (simp add: dvd_add)
  with Cons show ?case by auto
qed simp

lemma layout_distinct: "layout bs lo hi \<Longrightarrow> distinct (map baddr bs)"
proof (induction bs arbitrary: lo)
  case (Cons b bs)
  then have "baddr b \<notin> baddr ` set bs" by (fastforce dest: layout_within)
  with Cons show ?case by auto
qed simp

lemma layout_sizes: "layout bs lo hi \<Longrightarrow> b \<in> set bs \<Longrightarrow> 16 dvd unat (bsize b) \<and> 16 \<le> unat (bsize b)"
  by (induction bs arbitrary: lo) auto

section \<open>The operations on lists of blocks\<close>

lemma unat_round_size:
  assumes "unat n \<le> 2 ^ 64 - 16"
  shows "unat (round_size n) = max 16 (16 * ((unat n + 15) div 16))"
proof -
  have m: "unat (n mod 16) = unat n mod 16" by (simp add: unat_mod)
  have "unat (n + 16 - n mod 16) = unat n + 16 - unat n mod 16" if "unat n mod 16 \<noteq> 0"
  proof -
    have "unat n \<noteq> 18446744073709551600" using that by (intro notI) simp
    with assms have lt: "unat n + 16 < 2 ^ 64" by simp
    then have a: "unat (n + 16) = unat n + 16" by (simp add: unat_word_ariths)
    have "n mod 16 \<le> n + 16" by (simp add: word_le_nat_alt a m)
    then show ?thesis by (simp add: unat_sub a m)
  qed
  moreover have "n mod 16 \<noteq> 0 \<longleftrightarrow> unat n mod 16 \<noteq> 0" using m by (metis unat_eq_zero)
  ultimately show ?thesis
    by (auto simp: round_size_def kheap_const_defs word_less_nat_alt max_def round16)
qed

lemma round_size_id:
  assumes "16 dvd unat n" "16 \<le> unat n" shows "round_size n = n"
proof -
  have "unat (n mod 16) = unat n mod 16" by (simp add: unat_mod)
  with assms(1) have "n mod 16 = 0" by (metis dvd_imp_mod_0 unat_eq_zero)
  then show ?thesis using assms(2) by (simp add: round_size_def kheap_const_defs word_less_nat_alt)
qed

lemma search_linked:
  "linked h p bs 0 \<Longrightarrow> bs \<noteq> [] \<Longrightarrow> \<forall>b\<in>set bs. baddr b \<noteq> 0 \<Longrightarrow>
   kheap_search h n (head_addr bs 0) =
     Some (Inr (map_option baddr (find (\<lambda>b. bfree b \<and> n \<le> bsize b) bs)))"
proof (induction bs arbitrary: p)
  case (Cons b bs)
  then show ?case by (cases bs) (auto simp: kheap_search.simps [of h n "baddr b"])
qed simp

lemma spec_take_find:
  "(case find (\<lambda>b. bfree b \<and> n \<le> bsize b) bs of
      None \<Rightarrow> spec_take n bs = None
    | Some b \<Rightarrow> bfree b \<and> n \<le> bsize b \<and>
        (\<exists>xs ys. bs = xs @ b # ys \<and> spec_take n bs = Some (baddr b + 32, xs @ carve n b @ ys)))"
proof (induction bs)
  case (Cons b bs)
  show ?case
  proof (cases "bfree b \<and> n \<le> bsize b")
    case True
    then show ?thesis by simp (rule exI [of _ "[]"], rule exI [of _ bs], simp)
  next
    case False
    show ?thesis
    proof (cases "find (\<lambda>b. bfree b \<and> n \<le> bsize b) bs")
      case None
      with False Cons.IH show ?thesis by auto
    next
      case (Some c)
      with Cons.IH obtain xs ys where "bfree c \<and> n \<le> bsize c" "bs = xs @ c # ys"
        "spec_take n bs = Some (baddr c + 32, xs @ carve n c @ ys)" by auto
      with False Some show ?thesis
        by auto (rule exI [of _ "b # xs"], rule exI [of _ ys], simp)+
    qed
  qed
qed simp

lemma linked_set_free:
  assumes "linked h p (xs @ b # ys) n" "distinct (map baddr (xs @ b # ys))"
  shows "\<exists>s. h (baddr b) = Some s \<and> seg_size s = bsize b \<and> seg_free s = bfree b \<and>
           linked (h(baddr b \<mapsto> s\<lparr>seg_free := f\<rparr>)) p (xs @ b\<lparr>bfree := f\<rparr> # ys) n"
  using assms by (simp add: blks)

lemma layout_set_free:
  "layout (xs @ b\<lparr>bfree := f\<rparr> # ys) lo hi = layout (xs @ b # ys) lo hi"
  by (simp add: blks)

lemma kheap_ok_set_free:
  assumes "kheap_ok st (xs @ b # ys)"
  shows "\<exists>s. segs st (baddr b) = Some s \<and> seg_size s = bsize b \<and> seg_free s = bfree b \<and>
           kheap_ok (st\<lparr>segs := (segs st)(baddr b \<mapsto> s\<lparr>seg_free := f\<rparr>)\<rparr>) (xs @ b\<lparr>bfree := f\<rparr> # ys)"
proof -
  from assms have "distinct (map baddr (xs @ b # ys))"
    unfolding kheap_ok_def by (blast dest: layout_distinct)
  with linked_set_free [of "segs st" 0 xs b ys 0 f] assms show ?thesis
    by (auto simp: kheap_ok_def layout_set_free blks)
qed

lemma unat_split_parts:
  assumes "n + 32 < sz" "(n::u64) < sz" "unat sz + 32 < 2 ^ 64"
  shows "unat (n + 32) = unat n + 32" "unat (sz - n - 32) = unat sz - unat n - 32"
    "unat n + 32 < unat sz"
proof -
  have "unat n + 32 < 2 ^ 64" using assms(2,3) by (simp add: word_less_nat_alt)
  then show a: "unat (n + 32) = unat n + 32" by (simp add: unat_word_ariths)
  with assms(1) show b: "unat n + 32 < unat sz" by (simp add: word_less_nat_alt)
  have "unat (sz - n) = unat sz - unat n" using assms(2) by (simp add: unat_sub)
  moreover have "32 \<le> sz - n" using b calculation by (simp add: word_le_nat_alt)
  ultimately show "unat (sz - n - 32) = unat sz - unat n - 32" by (simp add: unat_sub)
qed

text \<open>The address of the second half of a split, without wrap-around.\<close>

lemma unat_split_addr:
  assumes "n + 32 < sz" "(n::u64) < sz" "unat a + 32 + unat sz < 2 ^ 64"
  shows "unat (a + n + 32) = unat a + unat n + 32"
proof -
  have "unat n + 32 < unat sz" using unat_split_parts [OF assms(1,2)] assms(3) by simp
  with assms(3) have "unat a + unat n + 32 < 2 ^ 64" by simp
  then show ?thesis by (simp add: unat_word_ariths)
qed

lemma layout_split:
  assumes lay: "layout (xs @ b # ys) lo hi" "hi < 2 ^ 64"
    and n: "16 dvd unat n" "16 \<le> unat n" "n < bsize b" "n + 32 < bsize b"
  shows "layout (xs @ b\<lparr>bsize := n\<rparr> #
           \<lparr>baddr = baddr b + n + 32, bsize = bsize b - n - 32, bfree = True\<rparr> # ys) lo hi"
    and "16 \<le> bsize b - n - 32"
proof -
  have "unat (baddr b) + 32 + unat (bsize b) < 2 ^ 64" using layout_within [OF lay(1), of b] lay(2) by simp
  note parts = unat_split_parts [OF n(4,3)] unat_split_addr [OF n(4,3) this]
  have sz: "16 dvd unat (bsize b)" using layout_sizes [OF lay(1), of b] by simp
  have d: "16 dvd unat (bsize b) - unat n - 32" using sz n(1) by (simp add: dvd_diff_nat)
  have p: "unat n + 32 < unat (bsize b)" "unat (bsize b - n - 32) = unat (bsize b) - unat n - 32"
    "unat (baddr b + n + 32) = unat (baddr b) + unat n + 32"
    using parts layout_within [OF lay(1), of b] lay(2) by simp_all
  have "16 \<le> unat (bsize b) - unat n - 32" using d p(1) by (auto elim!: dvdE)
  with d p n lay(1) show "layout (xs @ b\<lparr>bsize := n\<rparr> #
           \<lparr>baddr = baddr b + n + 32, bsize = bsize b - n - 32, bfree = True\<rparr> # ys) lo hi"
    by (simp add: blks) (simp add: ac_simps)
  show "16 \<le> bsize b - n - 32" using \<open>16 \<le> unat (bsize b) - unat n - 32\<close> p by (simp add: word_le_nat_alt)
qed

definition split_store :: "seg_store \<Rightarrow> u64 \<Rightarrow> blk \<Rightarrow> blk \<Rightarrow> blk list \<Rightarrow> seg_store" where
  "split_store h p b c ys =
     (case ys of [] \<Rightarrow> h
      | y # zs \<Rightarrow> h(baddr y \<mapsto> \<lparr>seg_size = bsize y, seg_next = head_addr zs 0, seg_prev = baddr c,
                               seg_free = bfree y\<rparr>))
     (baddr c \<mapsto> \<lparr>seg_size = bsize c, seg_next = head_addr ys 0, seg_prev = baddr b, seg_free = bfree c\<rparr>,
      baddr b \<mapsto> \<lparr>seg_size = bsize b, seg_next = baddr c, seg_prev = p, seg_free = bfree b\<rparr>)"

lemma linked_split:
  assumes "linked h 0 (xs @ b # ys) 0" "distinct (map baddr (xs @ b # c # ys))"
  shows "linked (split_store h (last_addr 0 xs) (b\<lparr>bsize := n\<rparr>) c ys) 0 (xs @ b\<lparr>bsize := n\<rparr> # c # ys) 0"
proof (cases ys)
  case Nil
  with assms show ?thesis by (auto simp: split_store_def linked_append linked_upd)
next
  case (Cons y zs)
  from assms(1) have l: "linked h 0 xs (baddr b)" "linked h (baddr y) zs 0"
    by (auto simp: linked_append Cons)
  from assms(2) have d: "baddr b \<notin> baddr ` set xs" "baddr c \<notin> baddr ` set xs" "baddr y \<notin> baddr ` set xs"
    "baddr b \<notin> baddr ` set zs" "baddr c \<notin> baddr ` set zs" "baddr y \<notin> baddr ` set zs"
    "baddr b \<noteq> baddr c" "baddr b \<noteq> baddr y" "baddr c \<noteq> baddr y"
    by (auto simp: Cons)
  from d l show ?thesis by (simp add: Cons split_store_def linked_append linked_upd)
qed

lemma dom_split_store:
  "dom h = baddr ` set (xs @ b # ys) \<Longrightarrow>
   dom (split_store h p b c ys) = baddr ` set (xs @ b # c # ys)"
  by (cases ys) (auto simp: split_store_def)

lemma kheap_ok_split:
  assumes ok: "kheap_ok st (xs @ b # ys)" and n: "16 dvd unat n" "16 \<le> unat n" "n < bsize b"
    "n + 32 < bsize b"
  defines "c \<equiv> \<lparr>baddr = baddr b + n + 32, bsize = bsize b - n - 32, bfree = True\<rparr>"
  shows "\<exists>st'. kheap_segment_split (baddr b) n st = Inr (baddr c, st') \<and>
           kheap_ok st' (xs @ b\<lparr>bsize := n\<rparr> # c # ys) \<and> kheap_locked st' = kheap_locked st \<and>
           kheap_end st' = kheap_end st"
proof -
  from ok have lay: "layout (xs @ b # ys) (unat (kheap_start st)) (unat (kheap_end st))"
    and lnk: "linked (segs st) 0 (xs @ b # ys) 0" and dm: "dom (segs st) = baddr ` set (xs @ b # ys)"
    and lst: "kheap_last_segment st = last_addr 0 (xs @ b # ys)"
    by (simp_all add: kheap_ok_def)
  have lay': "layout (xs @ b\<lparr>bsize := n\<rparr> # c # ys) (unat (kheap_start st)) (unat (kheap_end st))"
    and rest: "16 \<le> bsize b - n - 32"
    using layout_split [OF lay _ n] unfolding c_def by simp_all
  have dist: "distinct (map baddr (xs @ b # c # ys))" using layout_distinct [OF lay'] by simp
  have nz: "0 \<notin> baddr ` set (xs @ b # ys)"
    using layout_within [OF lay] ok by (fastforce simp: kheap_ok_def word_less_nat_alt)
  have ca: "baddr b + n + 32 = baddr c" "bsize b - n - 32 = bsize c" "bfree c" by (simp_all add: c_def)
  have sp: "round_size n = n" "\<not> bsize b \<le> n + 32" "\<not> bsize c < 16"
    using round_size_id n rest by (auto simp: not_less ca)
  let ?h = "split_store (segs st) (last_addr 0 xs) (b\<lparr>bsize := n\<rparr>) c ys"
  have eq: "kheap_segment_split (baddr b) n st =
      Inr (baddr c, st\<lparr>segs := ?h, kheap_last_segment := last_addr 0 (xs @ b # c # ys)\<rparr>)"
  proof (cases ys)
    case Nil
    with lnk dist nz show ?thesis
      by (simp add: kheap_segment_split_def deref_def sp kheap_const_defs ca linked_append lst
          last_addr_append split_store_def fun_upd_twist Let_def)
  next
    case (Cons y zs)
    have "baddr b \<notin> baddr ` set (y # zs)" using dist Cons by auto
    then have "last_addr (baddr y) zs \<noteq> baddr b"
      using last_addr_mem [of "y # zs" "baddr b"] by (metis last_addr.simps(2) list.distinct(1))
    with Cons lnk dist nz show ?thesis
      by (simp add: kheap_segment_split_def deref_def sp kheap_const_defs ca linked_append lst
          last_addr_append split_store_def fun_upd_twist Let_def)
  qed
  show ?thesis unfolding eq
    using linked_split [OF lnk dist] dom_split_store [OF dm, of "last_addr 0 xs" c] lay' ok
    by (auto simp: kheap_ok_def last_addr_append split_store_def)
qed

lemma kheap_ok_nowrap:
  assumes "kheap_ok st bs" "b \<in> set bs"
  shows "unat (baddr b) + 32 + unat (bsize b) < 2 ^ 64" "baddr b \<noteq> 0" "16 dvd unat (baddr b)"
    "16 dvd unat (bsize b)" "16 \<le> unat (bsize b)"
proof -
  from assms(1) have lay: "layout bs (unat (kheap_start st)) (unat (kheap_end st))"
    and s: "0 < unat (kheap_start st)" "16 dvd unat (kheap_start st)"
    by (auto simp: kheap_ok_def word_less_nat_alt)
  show "unat (baddr b) + 32 + unat (bsize b) < 2 ^ 64"
    using layout_within [OF lay assms(2)] by (blast intro: below_unat_u64)
  show "baddr b \<noteq> 0" using layout_within [OF lay assms(2)] s(1) by auto
  show "16 dvd unat (baddr b)" by (rule layout_aligned [OF lay s(2) assms(2)])
  show "16 dvd unat (bsize b)" "16 \<le> unat (bsize b)" using layout_sizes [OF lay assms(2)] by auto
qed

lemma kheap_split_small:
  assumes "kheap_ok st (xs @ b # ys)" "16 dvd unat n" "16 \<le> unat n" "\<not> n + 32 < bsize b"
  shows "kheap_segment_split (baddr b) n st = Inr (0, st)"
  using assms kheap_ok_nowrap(2) [OF assms(1), of b]
  by (simp add: kheap_segment_split_def kheap_ok_def linked_append deref_def round_size_id
      kheap_const_defs not_less)

lemma set_used_ok:
  assumes "kheap_ok st (xs @ b # ys)"
  shows "\<exists>st'. set_used (baddr b) st = Inr st' \<and> kheap_ok st' (xs @ b\<lparr>bfree := False\<rparr> # ys) \<and>
           kheap_locked st' = kheap_locked st \<and> kheap_end st' = kheap_end st"
  using kheap_ok_set_free [OF assms, of False] by (auto simp: set_used_def deref_def)

lemma return_ok:
  assumes "kheap_ok st bs" "b \<in> set bs"
  shows "\<exists>st'. kmalloc_return (baddr b) st = Inr (baddr b + 32, st') \<and> kheap_rel st' bs \<and>
           kheap_end st' = kheap_end st"
proof -
  have "unat (baddr b mod 16) = 0" using kheap_ok_nowrap(3) [OF assms] by (simp add: unat_mod)
  then have "baddr b mod 16 = 0" by (metis unat_eq_zero)
  with assms show ?thesis by (simp add: kmalloc_return_def kheap_const_defs kheap_rel_def kheap_ok_def)
qed

lemma set_used_return:
  assumes "kheap_ok st (xs @ b # ys)"
  shows "\<exists>st'. bindR (set_used (baddr b) st) (kmalloc_return (baddr b)) = Inr (baddr b + 32, st') \<and>
           kheap_rel st' (xs @ b\<lparr>bfree := False\<rparr> # ys) \<and> kheap_end st' = kheap_end st"
proof -
  obtain st1 where "set_used (baddr b) st = Inr st1" "kheap_ok st1 (xs @ b\<lparr>bfree := False\<rparr> # ys)"
    "kheap_end st1 = kheap_end st"
    using set_used_ok [OF assms] by auto
  with return_ok [of st1 "xs @ b\<lparr>bfree := False\<rparr> # ys" "b\<lparr>bfree := False\<rparr>"] show ?thesis by auto
qed

text \<open>Taking the block found by the search: split when there is room, mark, unlock.\<close>

lemma take_block:
  assumes ok: "kheap_ok st (xs @ b # ys)" and n: "16 dvd unat n" "16 \<le> unat n" "n \<le> bsize b"
  shows "\<exists>st'. bindR (if n < bsize b then kheap_segment_split (baddr b) n st else Inr (0, st))
             (\<lambda>(_, st1). bindR (set_used (baddr b) st1) (kmalloc_return (baddr b))) =
           Inr (baddr b + 32, st') \<and> kheap_rel st' (xs @ carve n b @ ys) \<and>
           kheap_end st' = kheap_end st"
proof (cases "n + 32 < bsize b")
  case True
  have "unat n + 32 < 2 ^ 64"
    using n(3) kheap_ok_nowrap(1) [OF ok, of b] by (simp add: word_le_nat_alt)
  then have "unat (n + 32) = unat n + 32" by (simp add: unat_word_ariths)
  with True have lt: "n < bsize b" by (simp add: word_less_nat_alt)
  obtain st1 a where "kheap_segment_split (baddr b) n st = Inr (a, st1)"
    "kheap_ok st1 (xs @ b\<lparr>bsize := n\<rparr> #
       \<lparr>baddr = baddr b + n + 32, bsize = bsize b - n - 32, bfree = True\<rparr> # ys)"
    "kheap_end st1 = kheap_end st"
    using kheap_ok_split [OF ok n(1,2) lt True] by auto
  with set_used_return [of st1 xs "b\<lparr>bsize := n\<rparr>"] lt True show ?thesis by (simp add: carve_def)
next
  case False
  with kheap_split_small [OF ok n(1,2)] set_used_return [OF ok] show ?thesis by (simp add: carve_def)
qed

lemma grown_size:
  fixes n e :: u64
  assumes "16 dvd unat n" "16 \<le> unat n" "unat n + unat e + 8192 < 2 ^ 64"
  defines "p \<equiv> (n + 32 + 4095) div 4096"
  shows "unat (p * 4096 - 32) = unat p * 4096 - 32" "1 \<le> unat p"
    "unat (e + p * 4096) = unat e + unat p * 4096" "unat n + 32 \<le> unat p * 4096"
    "unat p * 4096 \<le> unat n + 4127"
proof -
  have up: "unat p = (unat n + 4127) div 4096"
    using assms(3) by (simp add: p_def unat_div unat_word_ariths add.assoc)
  then have lo: "unat n + 32 \<le> unat p * 4096" and hi: "unat p * 4096 \<le> unat n + 4127" by linarith+
  then show "1 \<le> unat p" "unat n + 32 \<le> unat p * 4096" "unat p * 4096 \<le> unat n + 4127" by simp_all
  have m: "unat (p * 4096) = unat p * 4096" using hi assms(3) by (simp add: unat_word_ariths)
  then show "unat (e + p * 4096) = unat e + unat p * 4096" using hi assms(3) by (simp add: unat_word_ariths)
  have "32 \<le> p * 4096" using m lo by (simp add: word_le_nat_alt)
  then show "unat (p * 4096 - 32) = unat p * 4096 - 32" using m by (simp add: unat_sub)
qed

lemma kheap_ok_add_segment:
  assumes ok: "kheap_ok st bs" and n: "16 dvd unat n" "16 \<le> unat n"
    and room: "unat n + unat (kheap_end st) + 8192 < 2 ^ 64"
  shows "\<exists>st'. kheap_add_segment find_page n st = Inr (kheap_end st, st') \<and>
           kheap_ok st' (bs @ [(grown n (kheap_end st))\<lparr>bfree := True\<rparr>]) \<and>
           kheap_locked st' = kheap_locked st \<and>
           kheap_end st' = kheap_end st + (n + 32 + 4095) div 4096 * 4096"
proof -
  let ?e = "kheap_end st" and ?p = "(n + 32 + 4095) div 4096"
  note g = grown_size [OF n room]
  have lay: "layout bs (unat (kheap_start st)) (unat ?e)" and d: "4096 dvd unat ?e"
    and lnk: "linked (segs st) 0 bs 0" and dm: "dom (segs st) = baddr ` set bs"
    and lst: "kheap_last_segment st = last_addr 0 bs" and ne: "bs \<noteq> []"
    using ok by (simp_all add: kheap_ok_def)
  have "unat (?e mod 4096) = 0" using d by (simp add: unat_mod)
  then have al: "?e AND 4095 = 0" by (metis and_4095 unat_eq_zero)
  have "16 dvd unat ?p * 4096 - 32" by (simp add: dvd_diff_nat)
  moreover have "16 \<le> unat ?p * 4096 - 32" using g(2) by linarith
  ultimately have lay': "layout (bs @ [(grown n ?e)\<lparr>bfree := True\<rparr>]) (unat (kheap_start st))
      (unat (?e + ?p * 4096))"
    using lay g by (simp add: layout_append grown_def)
  have fresh: "?e \<notin> baddr ` set bs" using layout_distinct [OF lay'] by (auto simp: grown_def)
  obtain xs b where bs: "bs = xs @ [b]" using ne by (metis rev_exhaust)
  have "n \<ge> 16" using n(2) by (simp add: word_le_nat_alt)
  moreover have "baddr b \<noteq> 0" using kheap_ok_nowrap(2) [OF ok] bs by simp
  moreover have "4096 dvd unat (?e + ?p * 4096)" using g d by simp
  ultimately show ?thesis
    using lay' fresh lnk dm lst ok al layout_distinct [OF lay]
    by (auto simp: kheap_add_segment_def kheap_const_defs deref_def bs linked_append linked_upd
        last_addr_append head_addr_append kheap_ok_def grown_def Let_def not_less)
qed

section \<open>Allocation is first fit\<close>

lemma round_size_room:
  assumes "sz \<noteq> 0" "unat sz + unat e + 8208 < 2 ^ 64"
  shows "16 dvd unat (round_size sz)" "16 \<le> unat (round_size sz)"
    "unat (round_size sz) + unat (e::u64) + 8192 < 2 ^ 64" "unat sz \<le> unat (round_size sz)"
    "unat (round_size sz) \<le> unat sz + 15"
proof -
  have pos: "0 < unat sz" using assms(1) by (simp add: unat_gt_0)
  then have rn: "unat (round_size sz) = 16 * ((unat sz + 15) div 16)"
    using assms(2) by (subst unat_round_size) auto
  moreover have "16 * ((unat sz + 15) div 16) \<le> unat sz + 15" "1 \<le> (unat sz + 15) div 16"
    "unat sz \<le> 16 * ((unat sz + 15) div 16)"
    using pos by linarith+
  ultimately show "16 dvd unat (round_size sz)" "16 \<le> unat (round_size sz)"
    "unat (round_size sz) + unat e + 8192 < 2 ^ 64" "unat sz \<le> unat (round_size sz)"
    "unat (round_size sz) \<le> unat sz + 15"
    using assms(2) by simp_all
qed

lemma kmalloc_heap_spec:
  assumes rel: "kheap_rel st bs" and n: "sz \<noteq> 0" "unat sz + unat (kheap_end st) + 8208 < 2 ^ 64"
  shows "\<exists>st'. kmalloc_heap find_page sz st =
             Some (Inr (fst (spec_alloc (round_size sz) (kheap_end st) bs), st')) \<and>
           kheap_rel st' (snd (spec_alloc (round_size sz) (kheap_end st) bs)) \<and>
           unat (kheap_end st') \<le> unat (kheap_end st) + unat sz + 8208"
proof -
  let ?n = "round_size sz" and ?st = "st\<lparr>kheap_locked := True\<rparr>"
  from rel have ok: "kheap_ok ?st bs" and unl: "\<not> kheap_locked st" by (auto simp: kheap_rel_def kheap_ok_def)
  have sz: "16 dvd unat ?n" "16 \<le> unat ?n" "unat ?n + unat (kheap_end ?st) + 8192 < 2 ^ 64"
    "unat ?n \<le> unat sz + 15"
    using round_size_room [OF n] by simp_all
  have hd: "head_addr bs 0 = kheap_start st"
    using ok by (cases bs) (auto simp: kheap_ok_def word_unat_eq_iff)
  have "kheap_search (segs ?st) ?n (head_addr bs 0) =
      Some (Inr (map_option baddr (find (\<lambda>b. bfree b \<and> ?n \<le> bsize b) bs)))"
    using ok kheap_ok_nowrap(2) [OF ok] by (intro search_linked) (auto simp: kheap_ok_def)
  then have srch: "kheap_search (segs st) ?n (kheap_start st) =
      Some (Inr (map_option baddr (find (\<lambda>b. bfree b \<and> ?n \<le> bsize b) bs)))" by (simp add: hd)
  show ?thesis
  proof (cases "find (\<lambda>b. bfree b \<and> ?n \<le> bsize b) bs")
    case None
    then have none: "spec_take ?n bs = None" using spec_take_find [of ?n bs] by simp
    let ?g = "grown ?n (kheap_end st)"
    obtain st1 where st1: "kheap_add_segment find_page ?n ?st = Inr (kheap_end st, st1)"
      "kheap_ok st1 (bs @ [?g\<lparr>bfree := True\<rparr>])"
      and e: "kheap_end st1 = kheap_end st + (?n + 32 + 4095) div 4096 * 4096"
      using kheap_ok_add_segment [OF ok sz(1-3)] by auto
    have "unat (kheap_end st1) \<le> unat (kheap_end st) + unat sz + 8208"
      using grown_size [OF sz(1-3)] sz(4) e by simp
    moreover
    have "baddr (?g\<lparr>bfree := True\<rparr>) = kheap_end st" "?g\<lparr>bfree := False\<rparr> = ?g" by (simp_all add: grown_def)
    ultimately show ?thesis using set_used_return [OF st1(2)] srch None st1(1) none n(1) unl
      by (auto simp: kmalloc_heap_def spec_alloc_def Let_def)
  next
    case (Some b)
    then obtain xs ys where b: "?n \<le> bsize b" "bs = xs @ b # ys"
      "spec_take ?n bs = Some (baddr b + 32, xs @ carve ?n b @ ys)"
      using spec_take_find [of ?n bs] by auto
    have "\<exists>s. segs st (baddr b) = Some s \<and> seg_size s = bsize b"
      using ok b(2) by (auto simp: kheap_ok_def linked_append)
    with take_block [OF ok [unfolded b(2)] sz(1,2) b(1)] srch Some b(3) n(1) unl show ?thesis
      by (auto simp: kmalloc_heap_def spec_alloc_def Let_def deref_def)
  qed
qed

section \<open>Live blocks\<close>

text \<open>The payloads handed out and not freed yet, as pairs of first address and length.\<close>

definition kheap_live :: "'m kheap \<Rightarrow> (nat \<times> nat) set" where
  "kheap_live st = {(unat a + 32, unat (seg_size s)) | a s. segs st a = Some s \<and> \<not> seg_free s}"

definition live_of :: "blk list \<Rightarrow> (nat \<times> nat) set" where
  "live_of bs = (\<lambda>b. (unat (baddr b) + 32, unat (bsize b))) ` {b \<in> set bs. \<not> bfree b}"

lemma live_of_simps [simp]:
  "live_of [] = {}"
  "live_of (b # bs) = (if bfree b then {} else {(unat (baddr b) + 32, unat (bsize b))}) \<union> live_of bs"
  "live_of (xs @ ys) = live_of xs \<union> live_of ys"
  by (auto simp: live_of_def)

lemma linked_lookup:
  "linked h p bs n \<Longrightarrow> b \<in> set bs \<Longrightarrow> \<exists>s. h (baddr b) = Some s \<and> seg_size s = bsize b \<and> seg_free s = bfree b"
  by (induction bs arbitrary: p) auto

lemma kheap_live_of:
  assumes "kheap_ok st bs" shows "kheap_live st = live_of bs"
proof -
  have lnk: "linked (segs st) 0 bs 0" and dm: "dom (segs st) = baddr ` set bs"
    using assms by (auto simp: kheap_ok_def)
  show ?thesis
  proof (intro set_eqI iffI)
    fix x assume "x \<in> kheap_live st"
    then obtain a s where s: "x = (unat a + 32, unat (seg_size s))" "segs st a = Some s" "\<not> seg_free s"
      by (auto simp: kheap_live_def)
    then obtain b where "b \<in> set bs" "a = baddr b" using dm by blast
    with linked_lookup [OF lnk] s show "x \<in> live_of bs" by (fastforce simp: live_of_def)
  next
    fix x assume "x \<in> live_of bs"
    then show "x \<in> kheap_live st" using linked_lookup [OF lnk] by (fastforce simp: live_of_def kheap_live_def)
  qed
qed

lemma layout_apart:
  "layout bs lo hi \<Longrightarrow> x \<in> live_of bs \<Longrightarrow> y \<in> live_of bs \<Longrightarrow> x \<noteq> y \<Longrightarrow> apart x y"
proof (induction bs arbitrary: lo)
  case (Cons b bs)
  have sep: "apart (unat (baddr b) + 32, unat (bsize b)) z \<and> apart z (unat (baddr b) + 32, unat (bsize b))"
    if "z \<in> live_of bs" for z
    using that Cons.prems(1) by (fastforce simp: live_of_def apart_def dest: layout_within)
  from Cons sep [of x] sep [of y] show ?case by (auto split: if_splits)
qed simp

lemma layout_live_base: "layout bs lo hi \<Longrightarrow> (p, m) \<in> live_of bs \<Longrightarrow> lo + 32 \<le> p \<and> p + m \<le> hi"
  by (auto simp: live_of_def dest: layout_within)

lemma kheap_spec_live:
  assumes ok: "kheap_ok st bs" "kheap_ok st' bs'" and n: "16 dvd unat n" "16 \<le> unat n"
    "unat n + unat (kheap_end st) + 8192 < 2 ^ 64"
    and bs': "(p, bs') = spec_alloc n (kheap_end st) bs"
  shows "\<exists>m. unat n \<le> m \<and> (unat p, m) \<notin> live_of bs \<and> live_of bs' = insert (unat p, m) (live_of bs) \<and>
           unat p mod 16 = 0"
proof -
  from ok have lay: "layout bs (unat (kheap_start st)) (unat (kheap_end st))" by (simp add: kheap_ok_def)
  show ?thesis
  proof (cases "find (\<lambda>b. bfree b \<and> n \<le> bsize b) bs")
    case None
    let ?g = "grown n (kheap_end st)"
    have eq: "p = kheap_end st + 32" "bs' = bs @ [?g]"
      using None spec_take_find [of n bs] bs' by (auto simp: spec_alloc_def)
    have up: "unat p = unat (baddr ?g) + 32" "unat p mod 16 = 0"
      using kheap_ok_nowrap(1,3) [OF ok(2), of ?g] eq
      by (simp_all add: grown_def unat_word_ariths dvd_eq_mod_eq_0 [symmetric])
    have "unat n \<le> unat (bsize ?g)" using grown_size [OF n] by (simp add: grown_def)
    moreover have "(unat p, m) \<notin> live_of bs" for m
      using layout_live_base [OF lay, of "unat p" m] up by (auto simp: grown_def)
    ultimately show ?thesis using eq up by (intro exI [of _ "unat (bsize ?g)"]) (simp add: grown_def)
  next
    case (Some b)
    then obtain xs ys where b: "bfree b" "n \<le> bsize b" "bs = xs @ b # ys"
      and eq: "p = baddr b + 32" "bs' = xs @ carve n b @ ys"
      using spec_take_find [of n bs] bs' by (auto simp: spec_alloc_def)
    have up: "unat p = unat (baddr b) + 32" "unat p mod 16 = 0"
      using kheap_ok_nowrap(1,3) [OF ok(1), of b] eq b(3)
      by (simp_all add: unat_word_ariths dvd_eq_mod_eq_0 [symmetric])
    have "(unat p, m) \<notin> live_of bs" for m
      using layout_distinct [OF lay] up b(1,3) by (force simp: live_of_def word_unat_eq_iff [symmetric])
    moreover have "live_of bs' = insert (unat p, if n + 32 < bsize b then unat n else unat (bsize b)) (live_of bs)"
      using b(1,3) eq up by (auto simp: carve_def)
    moreover have "unat n \<le> unat (bsize b)" using b(2) by (simp add: word_le_nat_alt)
    ultimately show ?thesis
      using up by (intro exI [of _ "if n + 32 < bsize b then unat n else unat (bsize b)"]) simp
  qed
qed

section \<open>Freeing\<close>

lemma kfree_heap_spec:
  assumes "kheap_rel st (xs @ b # ys)" "\<not> bfree b"
  shows "\<exists>st'. kfree_heap (baddr b + 32) st = Inr (Freed, st') \<and>
           kheap_rel st' (xs @ b\<lparr>bfree := True\<rparr> # ys) \<and> kheap_end st' = kheap_end st"
proof -
  from assms have ok: "kheap_ok st (xs @ b # ys)" by (simp add: kheap_rel_def)
  have "unat (baddr b + 32) \<noteq> 0"
    using kheap_ok_nowrap(1) [OF ok, of b] by (simp add: unat_word_ariths)
  then have "baddr b + 32 \<noteq> 0" by (metis unat_0)
  with kheap_ok_set_free [OF ok, of True] assms show ?thesis
    by (auto simp: kfree_heap_def deref_def kheap_rel_def kheap_const_defs kheap_ok_def)
qed

definition kheap_inv :: "'m kheap \<Rightarrow> bool" where
  "kheap_inv st \<longleftrightarrow> (\<exists>bs. kheap_rel st bs)"

definition kheap_budget :: "'m kheap \<Rightarrow> nat" where
  "kheap_budget st = 2 ^ 64 - unat (kheap_end st)"

definition kheap_alloc :: "(u64 \<Rightarrow> 'm \<Rightarrow> 'm) \<Rightarrow> nat \<Rightarrow> 'm kheap \<Rightarrow> (nat \<times> 'm kheap) option" where
  "kheap_alloc find_page n st =
     (case kmalloc_heap find_page (of_nat n) st of
        Some (Inr (p, st')) \<Rightarrow> Some (unat p, st') | _ \<Rightarrow> None)"

definition kheap_dealloc :: "nat \<Rightarrow> 'm kheap \<Rightarrow> 'm kheap option" where
  "kheap_dealloc p st = (case kfree_heap (of_nat p) st of Inr (Freed, st') \<Rightarrow> Some st' | _ \<Rightarrow> None)"

lemma kheap_alloc_law:
  assumes inv: "kheap_inv st" and n: "0 < n" "n + 8208 < kheap_budget st"
  shows "\<exists>p m st'. kheap_alloc find_page n st = Some (p, st') \<and> kheap_inv st' \<and> n \<le> m \<and>
           (p, m) \<notin> kheap_live st \<and> kheap_live st' = insert (p, m) (kheap_live st) \<and> p mod 16 = 0 \<and>
           kheap_budget st \<le> kheap_budget st' + n + 8208"
proof -
  let ?w = "of_nat n :: u64"
  have wn: "unat ?w = n" using n by (intro unat_of_nat_u64) (simp add: kheap_budget_def)
  then have w: "unat ?w = n" "?w \<noteq> 0" "unat ?w + unat (kheap_end st) + 8208 < 2 ^ 64"
    using n by (auto simp: kheap_budget_def)
  from inv obtain bs where bs: "kheap_rel st bs" by (auto simp: kheap_inv_def)
  obtain st' where st': "kmalloc_heap find_page ?w st =
      Some (Inr (fst (spec_alloc (round_size ?w) (kheap_end st) bs), st'))"
    "kheap_rel st' (snd (spec_alloc (round_size ?w) (kheap_end st) bs))"
    "unat (kheap_end st') \<le> unat (kheap_end st) + unat ?w + 8208"
    using kmalloc_heap_spec [OF bs w(2,3)] by blast
  note r = round_size_room [OF w(2,3)]
  obtain p bs' where p: "spec_alloc (round_size ?w) (kheap_end st) bs = (p, bs')" by force
  have ok: "kheap_ok st bs" "kheap_ok st' bs'" using bs st'(2) p by (auto simp: kheap_rel_def)
  from kheap_spec_live [OF ok r(1,2,3) p [symmetric]] obtain m where
    m: "unat (round_size ?w) \<le> m" "(unat p, m) \<notin> live_of bs"
      "live_of bs' = insert (unat p, m) (live_of bs)" "unat p mod 16 = 0"
    by (elim exE conjE) (rule that)
  have "kheap_inv st'" using st'(2) by (auto simp: kheap_inv_def)
  moreover have "kheap_alloc find_page n st = Some (unat p, st')" using st'(1) p by (simp add: kheap_alloc_def)
  moreover have "kheap_budget st \<le> kheap_budget st' + n + 8208" using st'(3) w(1) by (simp add: kheap_budget_def)
  moreover have "n \<le> m" using m(1) r(4) w(1) by simp
  ultimately show ?thesis using m(2-4) unfolding kheap_live_of [OF ok(1)]
    by (intro exI [of _ "unat p"] exI [of _ m] exI [of _ st']) (simp add: kheap_live_of [OF ok(2)])
qed

lemma kheap_dealloc_law:
  assumes inv: "kheap_inv st" and p: "(p, m) \<in> kheap_live st"
  shows "\<exists>st'. kheap_dealloc p st = Some st' \<and> kheap_inv st' \<and> kheap_live st' = kheap_live st - {(p, m)} \<and>
           kheap_budget st' = kheap_budget st"
proof -
  from inv obtain bs where bs: "kheap_rel st bs" by (auto simp: kheap_inv_def)
  then have ok: "kheap_ok st bs" by (simp add: kheap_rel_def)
  with p obtain b where b: "b \<in> set bs" "\<not> bfree b" "p = unat (baddr b) + 32" "m = unat (bsize b)"
    by (auto simp: kheap_live_of live_of_def)
  then obtain xs ys where sp: "bs = xs @ b # ys" by (meson split_list)
  obtain st' where st': "kfree_heap (baddr b + 32) st = Inr (Freed, st')"
    "kheap_rel st' (xs @ b\<lparr>bfree := True\<rparr> # ys)" "kheap_end st' = kheap_end st"
    using kfree_heap_spec [OF bs [unfolded sp] b(2)] by blast
  have "layout bs (unat (kheap_start st)) (unat (kheap_end st))" using ok by (simp add: kheap_ok_def)
  then have "(p, m) \<notin> live_of xs \<union> live_of ys"
    using layout_distinct sp b(2,3) by (force simp: live_of_def word_unat_eq_iff [symmetric])
  then have "live_of (xs @ b\<lparr>bfree := True\<rparr> # ys) = live_of bs - {(p, m)}" using sp b by auto
  moreover have "kheap_ok st' (xs @ b\<lparr>bfree := True\<rparr> # ys)" using st'(2) by (simp add: kheap_rel_def)
  moreover have "of_nat p = baddr b + 32" using b(3) by simp
  ultimately show ?thesis using st' ok
    by (auto simp: kheap_dealloc_def kheap_live_of kheap_inv_def kheap_budget_def)
qed

lemma kheap_inv_apart:
  assumes "kheap_inv st" "x \<in> kheap_live st" "y \<in> kheap_live st" "x \<noteq> y" shows "apart x y"
proof -
  from assms(1) obtain bs where ok: "kheap_ok st bs" by (auto simp: kheap_inv_def kheap_rel_def)
  then have "layout bs (unat (kheap_start st)) (unat (kheap_end st))" by (simp add: kheap_ok_def)
  then show ?thesis using assms(2-4) unfolding kheap_live_of [OF ok] by (rule layout_apart)
qed

lemma kheap_inv_size: "kheap_inv st \<Longrightarrow> (p, m) \<in> kheap_live st \<Longrightarrow> 0 < m"
  by (fastforce simp: kheap_inv_def kheap_rel_def kheap_live_of live_of_def dest: kheap_ok_nowrap(5))

interpretation kh: heap_allocator kheap_inv kheap_live kheap_budget 8208 "kheap_alloc find_page" kheap_dealloc
  for find_page :: "u64 \<Rightarrow> 'm \<Rightarrow> 'm"
proof unfold_locales
  fix st :: "'m kheap" and n
  assume "kheap_inv st" "0 < n" "n + 8208 < kheap_budget st"
  then show "\<exists>p m st'. kheap_alloc find_page n st = Some (p, st') \<and> kheap_inv st' \<and> n \<le> m \<and>
      (p, m) \<notin> kheap_live st \<and> kheap_live st' = insert (p, m) (kheap_live st) \<and> p mod 16 = 0 \<and>
      kheap_budget st \<le> kheap_budget st' + n + 8208"
    by (rule kheap_alloc_law)
qed (rule kheap_inv_apart kheap_inv_size kheap_dealloc_law; assumption)+

section \<open>Properties\<close>

text \<open>The state after start-up: the first four pages, then one segment for the rest of the initial
  size. The abstract heap has these two blocks, both free.\<close>

definition kheap_boot :: "'m \<Rightarrow> 'm kheap" where
  "kheap_boot m = \<lparr>kheap_start = 0, kheap_end = 0, kheap_last_segment = 0, segs = Map.empty,
     kheap_locked = False, vm = m\<rparr>"

definition init_blocks :: "blk list" where
  "init_blocks =
     [\<lparr>baddr = KERNEL_HEAP_START_ADDR, bsize = 16352, bfree = True\<rparr>,
      \<lparr>baddr = KERNEL_HEAP_START_ADDR + 16384, bsize = 643040, bfree = True\<rparr>]"

lemmas init_simps = init_kernel_heap_def kheap_boot_def kheap_add_segment_def kheap_const_defs
  KERNEL_HEAP_START_ADDR_def KHEAP_INIT_SIZE_def KHEAP_INIT_PAGES_def deref_def Let_def

lemma init_kernel_heap_rel:
  "\<exists>st. init_kernel_heap find_page_before_kheap find_page (kheap_boot m) =
     Inr (KERNEL_HEAP_START_ADDR + 16384, st) \<and> kheap_rel st init_blocks \<and>
     kheap_end st = KERNEL_HEAP_START_ADDR + 161 * 4096"
  by (auto simp: init_simps init_blocks_def kheap_rel_def kheap_ok_def)

definition kheap_up :: "unit kheap" where
  "kheap_up = snd (projr (init_kernel_heap (\<lambda>_ m. m) (\<lambda>_ m. m) (kheap_boot ())))"

lemma kheap_up_rel: "kheap_rel kheap_up init_blocks" "kheap_end kheap_up = KERNEL_HEAP_START_ADDR + 161 * 4096"
  using init_kernel_heap_rel [of "\<lambda>_ m. m" "\<lambda>_ m. m" "()"] by (auto simp: kheap_up_def)

lemma kheap_up_inv: "kheap_inv kheap_up" "kheap_budget kheap_up = 105553115607040"
  using kheap_up_rel by (auto simp: kheap_inv_def kheap_budget_def KERNEL_HEAP_START_ADDR_def)



text \<open>C7. An allocation never hands out memory that is in use. Within the budget, \<^verbatim>\<open>kmalloc_heap\<close> returns a
  16-byte aligned pointer to a payload at least as long as the request; the live blocks are the old
  ones and this one, and it overlaps none of them.\<close>

theorem kmalloc_heap_live:
  assumes "kheap_inv st" "0 < n" "n + 8208 < kheap_budget st"
  shows "\<exists>p m st'. kmalloc_heap find_page (of_nat n) st = Some (Inr (p, st')) \<and> kheap_inv st' \<and> n \<le> m \<and>
           kheap_live st' = insert (unat p, m) (kheap_live st) \<and> unat p mod 16 = 0 \<and>
           (\<forall>x\<in>kheap_live st. apart x (unat p, m))"
proof -
  obtain p m st' where a: "kheap_alloc find_page n st = Some (p, st')" "kheap_inv st'" "n \<le> m"
    "(p, m) \<notin> kheap_live st" "kheap_live st' = insert (p, m) (kheap_live st)" "p mod 16 = 0"
    using kh.alloc_law [OF assms, of find_page] by auto
  from a(1) obtain q where "kmalloc_heap find_page (of_nat n) st = Some (Inr (q, st'))" "p = unat q"
    by (auto simp: kheap_alloc_def split: option.splits sum.splits)
  moreover have "\<forall>x\<in>kheap_live st. apart x (p, m)"
    using a(4,5) kh.live_apart [OF a(2)] by (metis insertI1 insertI2)
  ultimately show ?thesis using a by (intro exI [of _ q] exI [of _ m] exI [of _ st']) simp
qed

theorem kmalloc_heap_live_witness:
  "\<exists>p m st'. kmalloc_heap (\<lambda>_ m. m) (of_nat 100) kheap_up = Some (Inr (p, st')) \<and> kheap_inv st' \<and> 100 \<le> m \<and>
     kheap_live st' = insert (unat p, m) (kheap_live kheap_up) \<and> unat p mod 16 = 0 \<and>
     (\<forall>x\<in>kheap_live kheap_up. apart x (unat p, m))"
  by (rule kmalloc_heap_live [OF kheap_up_inv(1)]) (simp_all add: kheap_up_inv(2))



text \<open>C9. \<^verbatim>\<open>kfree_heap\<close> on every branch: \<^verbatim>\<open>NULL\<close> is ignored, a live block becomes free in place with every
  other header unchanged, and a second free of the same block is detected and changes nothing.\<close>

theorem kfree_heap_branches:
  assumes "kheap_rel st (xs @ b # ys)" "\<not> bfree b"
  shows "kfree_heap 0 st = Inr (FreeNull, st) \<and>
         (\<exists>st'. kfree_heap (baddr b + 32) st = Inr (Freed, st') \<and>
                kheap_rel st' (xs @ b\<lparr>bfree := True\<rparr> # ys) \<and>
                (\<forall>a. a \<noteq> baddr b \<longrightarrow> segs st' a = segs st a) \<and>
                kfree_heap (baddr b + 32) st' = Inr (DoubleFree, st'))"
proof -
  obtain st' where st': "kfree_heap (baddr b + 32) st = Inr (Freed, st')"
    "kheap_rel st' (xs @ b\<lparr>bfree := True\<rparr> # ys)"
    using kfree_heap_spec [OF assms] by blast
  then have "\<forall>a. a \<noteq> baddr b \<longrightarrow> segs st' a = segs st a"
    "kfree_heap (baddr b + 32) st' = Inr (DoubleFree, st')"
    by (auto simp: kfree_heap_def deref_def kheap_const_defs Let_def bindR_def kheap_rel_def
        split: if_splits option.splits)
  with st' show ?thesis by (simp add: kfree_heap_def)
qed

definition used_blk :: blk where "used_blk = \<lparr>baddr = 65536, bsize = 4064, bfree = False\<rparr>"

definition kheap_one :: "unit kheap" where
  "kheap_one = \<lparr>kheap_start = 65536, kheap_end = 69632, kheap_last_segment = 65536,
     segs = [65536 \<mapsto> \<lparr>seg_size = 4064, seg_next = 0, seg_prev = 0, seg_free = False\<rparr>],
     kheap_locked = False, vm = ()\<rparr>"

theorem kfree_heap_branches_witness:
  "kfree_heap 0 kheap_one = Inr (FreeNull, kheap_one) \<and>
   (\<exists>st'. kfree_heap (baddr used_blk + 32) kheap_one = Inr (Freed, st') \<and>
          kheap_rel st' ([] @ used_blk\<lparr>bfree := True\<rparr> # []) \<and>
          (\<forall>a. a \<noteq> baddr used_blk \<longrightarrow> segs st' a = segs kheap_one a) \<and>
          kfree_heap (baddr used_blk + 32) st' = Inr (DoubleFree, st'))"
  by (rule kfree_heap_branches) (simp_all add: used_blk_def kheap_one_def kheap_rel_def kheap_ok_def)


text \<open>C11. The rounding of a request is not checked for overflow: a request within 15 bytes of the end of
  the 64-bit range is served exactly like a request of one byte.\<close>

theorem kmalloc_heap_size_wraps:
  assumes "2 ^ 64 - 16 < unat sz"
  shows "kmalloc_heap find_page sz st = kmalloc_heap find_page 1 st"
proof -
  define r where "r = unat sz - 18446744073709551600"
  have "sz = of_nat (unat sz)" by simp
  also have eq: "unat sz = 18446744073709551600 + r" using assms by (simp add: r_def)
  finally have sz: "sz = of_nat (18446744073709551600 + r)" .
  have "18446744073709551600 < unat sz" using assms by simp
  then have "0 < r" "r < 16" using unat_u64_bound [of sz] unfolding r_def by linarith+
  then have "unat sz mod 16 = r" using mod_mult_self4 [of 16 1152921504606846975 r] eq by simp
  then have "sz mod 16 = of_nat r" by (simp add: word_unat_eq_iff unat_mod unat_of_nat)
  moreover have "of_nat r \<noteq> (0::u64)" using \<open>0 < r\<close> \<open>r < 16\<close> by (simp add: word_unat_eq_iff unat_of_nat)
  ultimately have "round_size sz = 16" by (simp add: round_size_def kheap_const_defs sz)
  moreover have "sz \<noteq> 0" using assms by auto
  moreover have "round_size 1 = 16" by (simp add: round_size_def kheap_const_defs)
  ultimately show ?thesis by (simp add: kmalloc_heap_def)
qed

theorem kmalloc_heap_size_wraps_witness:
  "kmalloc_heap (\<lambda>_ m. m) 0xFFFFFFFFFFFFFFFF kheap_up = kmalloc_heap (\<lambda>_ m. m) 1 kheap_up"
  by (rule kmalloc_heap_size_wraps) simp

end
