(* ===== verification/PhysMem.thy ===== *)
theory PhysMem
  imports Prelude
begin

text \<open>
  The physical frame allocator of \<^verbatim>\<open>src/memory/mm_phys.c\<close> and the frame table of
  \<^verbatim>\<open>src/memory/detect.h\<close>. The table is an array of 12-byte records at the address
  \<^verbatim>\<open>phys_mem_frame_map\<close>; it is a store from record addresses to records, with the bit-field widths of
  the C structure. Free frames form a doubly linked list through the 36-bit indices \<^verbatim>\<open>next_free\<close> and
  \<^verbatim>\<open>prev_free\<close>, where \<open>0\<close> means no frame.

  \<open>free_list\<close> relates this table to the list of the indices of the free frames. The theorems say that
  taking a frame pops this list, what happens when it is empty, and how the reference counts move.
\<close>

section \<open>The frame table\<close>

record phys_mem_free_frame =
  prev_free :: "36 word"
  next_free :: "36 word"
  fr_flags :: "24 word"

definition FRAME_FLAG_USABLE :: "24 word" where "FRAME_FLAG_USABLE = 0x800000"

text \<open>\<^verbatim>\<open>sizeof(phys_mem_free_frame_t)\<close>: 36 + 36 + 24 bits, packed.\<close>

definition SIZEOF_FRAME :: u64 where "SIZEOF_FRAME = 12"

record phys_mem =
  frame_map :: u64
  map_next_free :: u64
  map_size :: u64
  frames :: "u64 \<Rightarrow> phys_mem_free_frame option"
  pm_locked :: bool

definition encode_struct_frame_ptr :: "u64 \<Rightarrow> u64 \<Rightarrow> u64" where
  "encode_struct_frame_ptr fm ptr = (ptr - fm) div SIZEOF_FRAME"

definition decode_struct_frame_ptr :: "u64 \<Rightarrow> u64 \<Rightarrow> u64" where
  "decode_struct_frame_ptr fm idx = idx * SIZEOF_FRAME + fm"

definition frame_addr_to_phys_addr :: "u64 \<Rightarrow> u64 \<Rightarrow> u64" where
  "frame_addr_to_phys_addr fm frame_addr = push_bit 12 (encode_struct_frame_ptr fm frame_addr)"

definition phys_addr_to_frame_addr :: "u64 \<Rightarrow> u64 \<Rightarrow> u64" where
  "phys_addr_to_frame_addr fm phys = decode_struct_frame_ptr fm (drop_bit 12 phys)"

definition frame_at :: "phys_mem \<Rightarrow> u64 \<Rightarrow> phys_mem_free_frame kres" where
  "frame_at st a = (case frames st a of None \<Rightarrow> Inl BadAccess | Some f \<Rightarrow> Inr f)"

definition set_frame :: "u64 \<Rightarrow> phys_mem_free_frame \<Rightarrow> phys_mem \<Rightarrow> phys_mem" where
  "set_frame a f st = st\<lparr>frames := (frames st)(a \<mapsto> f)\<rparr>"

section \<open>Reference counts\<close>

definition refcnt :: "phys_mem_free_frame \<Rightarrow> u32" where
  "refcnt f = ucast (fr_flags f AND NOT FRAME_FLAG_USABLE)"

definition phys_mem_ref_frame :: "u64 \<Rightarrow> phys_mem \<Rightarrow> (u32 \<times> phys_mem) kres" where
  "phys_mem_ref_frame a st = bindR (frame_at st a) (\<lambda>f.
     let r = refcnt f + 1 in
     if drop_bit 23 r \<noteq> 0 then Inl Halt
     else Inr (r, set_frame a (f\<lparr>fr_flags := (fr_flags f AND FRAME_FLAG_USABLE) OR ucast r\<rparr>) st))"

definition phys_mem_unref_frame :: "u64 \<Rightarrow> phys_mem \<Rightarrow> (u32 \<times> phys_mem) kres" where
  "phys_mem_unref_frame a st = bindR (frame_at st a) (\<lambda>f.
     if refcnt f = 0 then Inr (0, st)
     else Inr (ucast (fr_flags f - 1), set_frame a (f\<lparr>fr_flags := fr_flags f - 1\<rparr>) st))"

section \<open>Taking a free frame\<close>

text \<open>The bound of the first check is \<^verbatim>\<open>phys_mem_frame_map + phys_mem_frame_map_size\<close>, pointer arithmetic on
  records with a size in bytes. The early return on an empty list leaves the mutex locked.\<close>

definition find_next_free_frame :: "phys_mem \<Rightarrow> (u64 \<times> phys_mem) kres" where
  "find_next_free_frame st0 =
     (if pm_locked st0 then Inl Deadlock
      else
        let st = st0\<lparr>pm_locked := True\<rparr>; frame = map_next_free st in
        if frame = 0 \<or> frame_map st + map_size st * SIZEOF_FRAME \<le> frame then Inr (0, st)
        else bindR (frame_at st frame) (\<lambda>f.
          if fr_flags f AND FRAME_FLAG_USABLE = 0 then Inl Halt
          else if fr_flags f AND NOT FRAME_FLAG_USABLE \<noteq> 0 then Inl Halt
          else bindR (phys_mem_ref_frame frame st) (\<lambda>(_, st1).
            let nxt = (if next_free f = 0 then 0
                       else decode_struct_frame_ptr (frame_map st1) (ucast (next_free f)));
                st2 = st1\<lparr>map_next_free := nxt\<rparr>
            in bindR (if nxt = 0 then Inr st2
                      else bindR (frame_at st2 nxt) (\<lambda>g. Inr (set_frame nxt (g\<lparr>prev_free := 0\<rparr>) st2)))
                 (\<lambda>st3. bindR (frame_at st3 frame) (\<lambda>f3.
                   if prev_free f3 \<noteq> 0 then Inl Halt
                   else Inr (frame_addr_to_phys_addr (frame_map st3) frame,
                          (set_frame frame (f3\<lparr>next_free := 0, prev_free := 0\<rparr>) st3)
                            \<lparr>pm_locked := False\<rparr>))))))"

section \<open>The free list\<close>

text \<open>A frame table of \<open>n\<close> records that lies in the address space, as do the scaled bound of the check above
  and the indices in their 36-bit fields.\<close>

definition table_ok :: "nat \<Rightarrow> phys_mem \<Rightarrow> bool" where
  "table_ok n st \<longleftrightarrow>
     0 < frame_map st \<and> unat (frame_map st) + 144 * n < 2 ^ 64 \<and> n \<le> 2 ^ 36 \<and>
     map_size st = of_nat (12 * n) \<and>
     dom (frames st) = (\<lambda>i. decode_struct_frame_ptr (frame_map st) (of_nat i)) ` {..<n}"

abbreviation frm :: "phys_mem \<Rightarrow> nat \<Rightarrow> phys_mem_free_frame option" where
  "frm st i \<equiv> frames st (decode_struct_frame_ptr (frame_map st) (of_nat i))"

fun head_idx :: "nat list \<Rightarrow> 36 word" where
  "head_idx [] = 0"
| "head_idx (i # is) = of_nat i"

fun free_chain :: "(nat \<Rightarrow> phys_mem_free_frame option) \<Rightarrow> 36 word \<Rightarrow> nat list \<Rightarrow> bool" where
  "free_chain h p [] = True"
| "free_chain h p (i # is) \<longleftrightarrow>
     h i = Some \<lparr>prev_free = p, next_free = head_idx is, fr_flags = FRAME_FLAG_USABLE\<rparr> \<and>
     free_chain h (of_nat i) is"

definition free_list :: "nat \<Rightarrow> phys_mem \<Rightarrow> nat list \<Rightarrow> bool" where
  "free_list n st is \<longleftrightarrow>
     table_ok n st \<and> \<not> pm_locked st \<and> distinct is \<and> set is \<subseteq> {..<n} \<and> 0 \<notin> set (tl is) \<and>
     free_chain (frm st) 0 is \<and>
     map_next_free st = (case is of [] \<Rightarrow> 0 | i # _ \<Rightarrow> decode_struct_frame_ptr (frame_map st) (of_nat i))"

lemma unat_decode:
  assumes "table_ok n st" "i < n"
  shows "unat (decode_struct_frame_ptr (frame_map st) (of_nat i)) = 12 * i + unat (frame_map st)"
proof -
  have b: "unat (frame_map st) + 144 * n < 2 ^ 64" using assms by (simp add: table_ok_def)
  with assms(2) have "unat (of_nat i :: u64) = i" by (simp add: unat_of_nat)
  with b assms(2) show ?thesis
    by (simp add: decode_struct_frame_ptr_def SIZEOF_FRAME_def unat_word_ariths)
qed

lemma decode_inj:
  assumes "table_ok n st" "i < n" "j < n"
  shows "decode_struct_frame_ptr (frame_map st) (of_nat i) = decode_struct_frame_ptr (frame_map st) (of_nat j)
           \<longleftrightarrow> i = j"
  by (simp add: word_unat_eq_iff unat_decode [OF assms(1,2)] unat_decode [OF assms(1,3)])

lemma decode_nonzero:
  assumes "table_ok n st" "i < n"
  shows "decode_struct_frame_ptr (frame_map st) (of_nat i) \<noteq> 0"
proof -
  have "0 < unat (frame_map st)" using assms by (simp add: table_ok_def word_less_nat_alt)
  then show ?thesis using unat_decode [OF assms] by (metis add_is_0 less_numeral_extra(3) unat_0)
qed

lemma encode_decode:
  assumes "table_ok n st" "i < n"
  shows "encode_struct_frame_ptr (frame_map st) (decode_struct_frame_ptr (frame_map st) (of_nat i)) = of_nat i"
proof -
  have b: "unat (frame_map st) + 144 * n < 2 ^ 64" using assms by (simp add: table_ok_def)
  then have "unat (of_nat i * 12 :: u64) = 12 * i" "unat (of_nat i :: u64) = i"
    using assms(2) by (simp_all add: unat_of_nat unat_word_ariths)
  then have "unat (of_nat i * 12 div 12 :: u64) = unat (of_nat i :: u64)" by (simp add: unat_div)
  then have "of_nat i * 12 div 12 = (of_nat i :: u64)" by (simp only: word_unat_eq_iff)
  then show ?thesis by (simp add: encode_struct_frame_ptr_def decode_struct_frame_ptr_def SIZEOF_FRAME_def)
qed

lemma idx36:
  assumes "table_ok n st" "i < n"
  shows "ucast (of_nat i :: 36 word) = (of_nat i :: u64)" "(of_nat i :: 36 word) = 0 \<longleftrightarrow> i = 0"
proof -
  have "i < 2 ^ 36" using assms by (simp add: table_ok_def)
  then have u: "unat (of_nat i :: 36 word) = i" "unat (of_nat i :: u64) = i" by (simp_all add: unat_of_nat)
  then show "ucast (of_nat i :: 36 word) = (of_nat i :: u64)"
    using \<open>i < 2 ^ 36\<close> by (simp add: word_unat_eq_iff unsigned_ucast_eq take_bit_nat_eq_self)
  show "(of_nat i :: 36 word) = 0 \<longleftrightarrow> i = 0" using u(1) by (auto simp: unat_eq_zero [symmetric] simp del: unat_eq_zero)
qed

lemma below_bound:
  assumes "table_ok n st" "i < n"
  shows "\<not> frame_map st + map_size st * SIZEOF_FRAME \<le> decode_struct_frame_ptr (frame_map st) (of_nat i)"
proof -
  have b: "unat (frame_map st) + 144 * n < 2 ^ 64" "map_size st = of_nat (12 * n)"
    using assms by (simp_all add: table_ok_def)
  have "unat (of_nat n :: u64) = n" using b by (intro unat_of_nat_u64) simp
  with b have "unat (frame_map st + map_size st * SIZEOF_FRAME) = unat (frame_map st) + 144 * n"
    by (simp add: SIZEOF_FRAME_def unat_word_ariths)
  then show ?thesis using unat_decode [OF assms] assms(2) by (simp add: word_le_nat_alt)
qed


section \<open>Taking from the list\<close>

lemma usable_bits:
  "FRAME_FLAG_USABLE \<noteq> 0" "FRAME_FLAG_USABLE AND NOT FRAME_FLAG_USABLE = 0"
  "refcnt \<lparr>prev_free = p, next_free = q, fr_flags = FRAME_FLAG_USABLE\<rparr> = 0"
  by (simp_all add: FRAME_FLAG_USABLE_def refcnt_def)

definition taken_frame :: phys_mem_free_frame where
  "taken_frame = \<lparr>prev_free = 0, next_free = 0, fr_flags = FRAME_FLAG_USABLE OR 1\<rparr>"

lemma refcnt_taken: "refcnt taken_frame = 1"
  by (simp add: refcnt_def taken_frame_def FRAME_FLAG_USABLE_def)

lemma free_chain_cong: "(\<And>k. k \<in> set is \<Longrightarrow> h k = h' k) \<Longrightarrow> free_chain h p is = free_chain h' p is"
  by (induction "is" arbitrary: p) auto

definition after_take :: "phys_mem \<Rightarrow> nat \<Rightarrow> nat list \<Rightarrow> phys_mem" where
  "after_take st i is =
     (let d = (\<lambda>k. decode_struct_frame_ptr (frame_map st) (of_nat k)) in
      st\<lparr>map_next_free := (case is of [] \<Rightarrow> 0 | j # _ \<Rightarrow> d j),
         frames := (case is of [] \<Rightarrow> frames st
            | j # js \<Rightarrow> (frames st)(d j \<mapsto> \<lparr>prev_free = 0, next_free = head_idx js, fr_flags = FRAME_FLAG_USABLE\<rparr>))
           (d i \<mapsto> taken_frame)\<rparr>)"

lemma find_next_free_frame_eq:
  assumes fl: "free_list n st (i # is)"
  shows "find_next_free_frame st = Inr (push_bit 12 (of_nat i), after_take st i is)"
proof -
  let ?d = "\<lambda>k. decode_struct_frame_ptr (frame_map st) (of_nat k)"
  from fl have t: "table_ok n st" and i: "i < n" and unl: "\<not> pm_locked st"
    and hd: "map_next_free st = ?d i"
    and hi: "frames st (?d i) = Some \<lparr>prev_free = 0, next_free = head_idx is, fr_flags = FRAME_FLAG_USABLE\<rparr>"
    and ch: "free_chain (frm st) (of_nat i) is"
    by (auto simp: free_list_def)
  have fl1: "FRAME_FLAG_USABLE OR ucast (1 :: u32) = FRAME_FLAG_USABLE OR 1"
    by (simp add: FRAME_FLAG_USABLE_def)
  note base = find_next_free_frame_def phys_mem_ref_frame_def frame_at_def set_frame_def Let_def hd hi unl
    decode_nonzero [OF t i] below_bound [OF t i] usable_bits frame_addr_to_phys_addr_def
    encode_decode [OF t i] after_take_def taken_frame_def fl1
  show ?thesis
  proof (cases "is")
    case Nil
    then show ?thesis by (simp add: base)
  next
    case (Cons j js)
    then have j: "j < n" "j \<noteq> 0" "i \<noteq> j" using fl by (auto simp: free_list_def)
    have "?d j \<noteq> ?d i" using decode_inj [OF t j(1) i] j(3) by simp
    with ch show ?thesis
      by (simp add: base Cons idx36 [OF t j(1)] j decode_nonzero [OF t j(1)] fun_upd_twist)
  qed
qed

lemma free_list_after_take:
  assumes fl: "free_list n st (i # is)"
  shows "free_list n (after_take st i is) is"
proof -
  let ?d = "\<lambda>k. decode_struct_frame_ptr (frame_map st) (of_nat k)" and ?st = "after_take st i is"
  from fl have t: "table_ok n st" and i: "i < n" "i \<notin> set is" "set is \<subseteq> {..<n}"
    and ch: "free_chain (frm st) (of_nat i) is"
    by (auto simp: free_list_def)
  have fm: "frame_map ?st = frame_map st" by (simp add: after_take_def Let_def)
  have inj: "k < n \<Longrightarrow> l < n \<Longrightarrow> ?d k = ?d l \<longleftrightarrow> k = l" for k l by (rule decode_inj [OF t])
  have "dom (frames ?st) = dom (frames st)"
    using t i by (cases "is") (auto simp: after_take_def Let_def table_ok_def)
  then have t': "table_ok n ?st" using t by (simp add: table_ok_def after_take_def Let_def)
  have "free_chain (frm ?st) 0 is"
  proof (cases "is")
    case (Cons j js)
    then have j: "j < n" "j \<noteq> i" using i by auto
    have "frm ?st j = Some \<lparr>prev_free = 0, next_free = head_idx js, fr_flags = FRAME_FLAG_USABLE\<rparr>"
      using inj [OF j(1) i(1)] j(2) Cons by (simp add: after_take_def Let_def)
    moreover have "free_chain (frm st) (of_nat j) js" using ch Cons by simp
    moreover have "frm st k = frm ?st k" if "k \<in> set js" for k
    proof -
      have "k < n" "k \<noteq> i" "k \<noteq> j" using that fl Cons by (auto simp: free_list_def)
      then show ?thesis using inj i j Cons by (simp add: after_take_def Let_def)
    qed
    ultimately show ?thesis using Cons free_chain_cong [of js "frm st" "frm ?st"] by simp
  qed simp
  then show ?thesis
    using fl t' unfolding free_list_def fm by (cases "is") (auto simp: after_take_def Let_def)
qed

lemma after_take_frames:
  assumes fl: "free_list n st (i # is)"
  shows "frame_map (after_take st i is) = frame_map st" "frm (after_take st i is) i = Some taken_frame"
    "j < n \<Longrightarrow> j \<notin> set (i # is) \<Longrightarrow> frm (after_take st i is) j = frm st j"
proof -
  from fl have t: "table_ok n st" and i: "i < n" "set is \<subseteq> {..<n}" by (auto simp: free_list_def)
  show "frame_map (after_take st i is) = frame_map st" "frm (after_take st i is) i = Some taken_frame"
    by (auto simp: after_take_def Let_def split: list.splits)
  show "frm (after_take st i is) j = frm st j" if "j < n" "j \<notin> set (i # is)"
    using that i decode_inj [OF t, of j] by (cases "is") (auto simp: after_take_def Let_def)
qed

lemma find_next_free_frame_empty:
  assumes "free_list n st []"
  shows "find_next_free_frame st = Inr (0, st\<lparr>pm_locked := True\<rparr>)"
  using assms by (simp add: find_next_free_frame_def free_list_def Let_def)

section \<open>Counting references\<close>

lemma not_usable: "NOT FRAME_FLAG_USABLE = mask 23"
  by (simp add: FRAME_FLAG_USABLE_def mask_eq_exp_minus_1)

lemma unat_refcnt: "unat (refcnt f) = unat (fr_flags f AND mask 23)"
  by (simp add: refcnt_def not_usable unsigned_ucast_eq take_bit_nat_eq_self_iff
      order_less_trans [OF unsigned_less])

text \<open>Below the limit, counting one reference more adds one to the whole flag field.\<close>

lemma ref_flags:
  assumes "unat (refcnt f) + 1 < 2 ^ 23"
  shows "(fr_flags f AND FRAME_FLAG_USABLE) OR ucast (refcnt f + 1) = fr_flags f + 1"
    "(fr_flags f + 1) AND NOT FRAME_FLAG_USABLE = (fr_flags f AND NOT FRAME_FLAG_USABLE) + 1"
proof -
  let ?x = "fr_flags f" and ?u = "fr_flags f AND FRAME_FLAG_USABLE" and ?r = "fr_flags f AND mask 23"
  let ?s = "ucast (refcnt f + 1) :: 24 word"
  have "unat (refcnt f + 1) = unat ?r + 1"
    using assms by (simp add: unat_word_ariths unat_refcnt [symmetric])
  moreover have r: "unat ?r + 1 < 2 ^ 23" using assms unat_refcnt [of f] by simp
  ultimately have s: "unat ?s = unat ?r + 1"
    by (simp add: unsigned_ucast_eq take_bit_nat_eq_self_iff)
  have "unat (?r + 1) = unat ?r + 1" using r by (simp add: unat_word_ariths)
  with s have sr: "?s = ?r + 1" by (simp only: word_unat_eq_iff)
  have "take_bit 23 (unat ?s) = unat ?s" using s r by (simp add: take_bit_nat_eq_self_iff)
  then have sm: "?s AND mask 23 = ?s"
    by (simp add: take_bit_eq_mask [symmetric] word_unat_eq_iff unsigned_take_bit_eq)
  have um: "?u AND mask 23 = 0" by (simp add: not_usable [symmetric] and.assoc)
  have "?u AND ?s = (?u AND mask 23) AND ?s" by (subst sm [symmetric]) (simp only: ac_simps)
  then have us: "?u AND ?s = 0" by (simp only: um and.left_idem) simp
  have "?u AND ?r = (?u AND mask 23) AND ?x" by (simp only: ac_simps)
  then have "?u AND ?r = 0" by (simp only: um) simp
  moreover have "?u OR ?r = ?x" by (simp add: not_usable [symmetric] bit.conj_disj_distrib [symmetric])
  ultimately have x: "?u + ?r = ?x" by (simp add: disjunctive_add_eq_or)
  show a: "?u OR ?s = ?x + 1" using us sr x by (simp add: disjunctive_add_eq_or [symmetric] add.assoc)
  show "(?x + 1) AND NOT FRAME_FLAG_USABLE = (?x AND NOT FRAME_FLAG_USABLE) + 1"
    unfolding a [symmetric] not_usable bit.conj_disj_distrib2 using um sm sr by simp
qed

lemma drop_bit_refcnt: "drop_bit 23 (refcnt f + 1) \<noteq> 0 \<longleftrightarrow> 2 ^ 23 \<le> unat (refcnt f) + 1"
proof -
  have "unat (refcnt f) < 2 ^ 24" using unsigned_less [of "fr_flags f AND mask 23"] by (simp add: unat_refcnt)
  then have u: "unat (refcnt f + 1) = unat (refcnt f) + 1" by (simp add: unat_word_ariths)
  have "unat (drop_bit 23 (refcnt f + 1)) = (unat (refcnt f) + 1) div 2 ^ 23"
    by (simp add: drop_bit_eq_div unat_div u)
  then show ?thesis by (auto simp: unat_eq_zero [symmetric] div_eq_0_iff simp del: unat_eq_zero)
qed

section \<open>The allocator as its clients see it\<close>

text \<open>Clients of the allocator (page tables, process and thread pages) rely on a source of frames with a
  finite supply: each request takes the first frame of the supply, and the supply has no repetition.\<close>

locale frame_source =
  fixes pool :: "'s \<Rightarrow> nat list \<Rightarrow> bool"
    and draw :: "'s \<Rightarrow> (u64 \<times> 's) kres"
  assumes draw_law: "pool s (i # is) \<Longrightarrow> \<exists>s'. draw s = Inr (push_bit 12 (of_nat i), s') \<and> pool s' is"
    and pool_law: "pool s is \<Longrightarrow> distinct is \<and> (\<forall>i\<in>set is. i < 2 ^ 36)"
begin

primrec draw_n :: "nat \<Rightarrow> 's \<Rightarrow> (u64 list \<times> 's) kres" where
  "draw_n 0 s = Inr ([], s)"
| "draw_n (Suc k) s = bindR (draw s) (\<lambda>(a, s1). bindR (draw_n k s1) (\<lambda>(as, s2). Inr (a # as, s2)))"

lemma draw_n_law:
  "pool s is \<Longrightarrow> k \<le> length is \<Longrightarrow>
   \<exists>s'. draw_n k s = Inr (map (\<lambda>i. push_bit 12 (of_nat i)) (take k is), s') \<and> pool s' (drop k is)"
proof (induction k arbitrary: s "is")
  case (Suc k)
  then obtain i js where ij: "is = i # js" by (cases "is") auto
  with Suc.prems ij obtain s1 where "draw s = Inr (push_bit 12 (of_nat i), s1)" "pool s1 js"
    using draw_law by blast
  with Suc.IH [of s1 js] Suc.prems(2) ij show ?case by auto
qed simp

lemma frame_addr_inj:
  assumes "i < 2 ^ 36" "j < 2 ^ 36" "push_bit 12 (of_nat i :: u64) = push_bit 12 (of_nat j)"
  shows "i = j"
proof -
  have "unat (push_bit 12 (of_nat k) :: u64) = k * 4096" if "k < 2 ^ 36" for k
    using that by (simp add: push_bit_eq_mult unat_word_ariths unat_of_nat)
  then show ?thesis using assms by (metis mult_right_cancel zero_neq_numeral)
qed

lemma draw_n_distinct:
  assumes "pool s is" "k \<le> length is"
  shows "\<exists>as s'. draw_n k s = Inr (as, s') \<and> length as = k \<and> distinct as \<and> (\<forall>a\<in>set as. a AND 4095 = 0)"
proof -
  let ?as = "map (\<lambda>i. push_bit 12 (of_nat i :: u64)) (take k is)"
  obtain s' where s': "draw_n k s = Inr (?as, s')" using draw_n_law [OF assms] by blast
  have d: "distinct (take k is)" "\<forall>i\<in>set (take k is). i < 2 ^ 36"
    using pool_law [OF assms(1)] by (auto dest: in_set_takeD)
  have "inj_on (\<lambda>i. push_bit 12 (of_nat i :: u64)) (set (take k is))"
    using d(2) frame_addr_inj by (intro inj_onI) blast
  then have "distinct ?as" using d(1) by (simp add: distinct_map)
  moreover have "\<forall>a\<in>set ?as. a AND 4095 = 0"
    by (auto simp: and_4095 take_bit_push_bit simp flip: take_bit_eq_mod [where n = 12, simplified])
  ultimately show ?thesis using s' assms(2) by auto
qed

end

interpretation pf: frame_source "free_list n" find_next_free_frame for n
proof unfold_locales
  fix st i "is" assume "free_list n st (i # is)"
  then show "\<exists>s'. find_next_free_frame st = Inr (push_bit 12 (of_nat i), s') \<and> free_list n s' is"
    using find_next_free_frame_eq free_list_after_take by blast
next
  fix st "is" assume "free_list n st is"
  then show "distinct is \<and> (\<forall>i\<in>set is. i < 2 ^ 36)" by (auto simp: free_list_def table_ok_def)
qed

section \<open>Properties\<close>

text \<open>A table of three frames at address 4096, with frames 1 and 2 free.\<close>

definition small_map :: phys_mem where
  "small_map = \<lparr>frame_map = 4096, map_next_free = 4108, map_size = 36,
     frames = [4096 \<mapsto> taken_frame,
               4108 \<mapsto> \<lparr>prev_free = 0, next_free = 2, fr_flags = FRAME_FLAG_USABLE\<rparr>,
               4120 \<mapsto> \<lparr>prev_free = 1, next_free = 0, fr_flags = FRAME_FLAG_USABLE\<rparr>],
     pm_locked = False\<rparr>"

lemma small_map_free: "free_list 3 small_map [1, 2]"
proof -
  have "{..<3} = {0, 1, 2 :: nat}" by auto
  then show ?thesis
    by (auto simp: free_list_def table_ok_def small_map_def decode_struct_frame_ptr_def SIZEOF_FRAME_def)
qed

text \<open>C12. Taking a frame pops the free list: with the free frames \<open>i # is\<close> linked in the table, the
  allocator returns the physical address of frame \<open>i\<close>, leaves \<open>is\<close> linked and the mutex free, gives the
  frame a reference count of one and touches no frame outside the list.\<close>

theorem find_next_free_frame_pops:
  assumes "free_list n st (i # is)"
  shows "\<exists>st'. find_next_free_frame st = Inr (push_bit 12 (of_nat i), st') \<and> free_list n st' is \<and>
           (\<exists>f. frm st' i = Some f \<and> refcnt f = 1) \<and>
           (\<forall>j. j < n \<and> j \<notin> set (i # is) \<longrightarrow> frm st' j = frm st j)"
  using find_next_free_frame_eq [OF assms] free_list_after_take [OF assms] after_take_frames [OF assms]
    refcnt_taken by auto

theorem find_next_free_frame_pops_witness:
  "\<exists>st'. find_next_free_frame small_map = Inr (push_bit 12 (of_nat 1), st') \<and> free_list 3 st' [2] \<and>
     (\<exists>f. frm st' 1 = Some f \<and> refcnt f = 1) \<and>
     (\<forall>j. j < 3 \<and> j \<notin> set [1, 2] \<longrightarrow> frm st' j = frm small_map j)"
  by (rule find_next_free_frame_pops [OF small_map_free])



text \<open>C14. When no frame is free the allocator returns 0 without releasing its mutex, so that the next
  request, from any thread, never returns.\<close>

theorem find_next_free_frame_exhausted:
  assumes "free_list n st []"
  shows "\<exists>st'. find_next_free_frame st = Inr (0, st') \<and> find_next_free_frame st' = Inl Deadlock"
  using find_next_free_frame_empty [OF assms] by (simp add: find_next_free_frame_def)

theorem find_next_free_frame_exhausted_witness:
  "\<exists>st'. find_next_free_frame (small_map\<lparr>map_next_free := 0\<rparr>) = Inr (0, st') \<and>
     find_next_free_frame st' = Inl Deadlock"
proof (rule find_next_free_frame_exhausted [of 3])
  show "free_list 3 (small_map\<lparr>map_next_free := 0\<rparr>) []"
    using small_map_free by (simp add: free_list_def table_ok_def)
qed

text \<open>C15. Reference counting. Below the 23-bit limit, taking a reference adds one to the count and
  dropping it again restores the state; at the limit the kernel panics; dropping a reference of a frame
  that has none changes nothing. The value returned by dropping a reference is the whole flag field, with
  the usable bit, not the count.\<close>

theorem phys_mem_ref_unref:
  assumes "frames st a = Some f"
  shows "if 2 ^ 23 \<le> unat (refcnt f) + 1 then phys_mem_ref_frame a st = Inl Halt
         else \<exists>st' g. phys_mem_ref_frame a st = Inr (refcnt f + 1, st') \<and> frames st' a = Some g \<and>
                refcnt g = refcnt f + 1 \<and> phys_mem_unref_frame a st' = Inr (ucast (fr_flags f), st) \<and>
                (refcnt f = 0 \<longrightarrow> phys_mem_unref_frame a st = Inr (0, st))"
proof (cases "2 ^ 23 \<le> unat (refcnt f) + 1")
  case True
  with assms drop_bit_refcnt [of f] show ?thesis by (simp add: phys_mem_ref_frame_def frame_at_def Let_def)
next
  case False
  then have lt: "unat (refcnt f) + 1 < 2 ^ 23" by simp
  let ?g = "f\<lparr>fr_flags := fr_flags f + 1\<rparr>"
  have "unat (refcnt ?g) = unat ((fr_flags f AND mask 23) + 1)"
    using ref_flags(2) [OF lt] by (simp add: unat_refcnt not_usable)
  also have "\<dots> = unat (refcnt f + 1)" using lt by (simp add: unat_refcnt unat_word_ariths)
  finally have g1: "refcnt ?g = refcnt f + 1" by (simp only: word_unat_eq_iff)
  have "unat (refcnt f + 1) \<noteq> 0" using lt by (simp add: unat_word_ariths)
  then have g: "refcnt ?g = refcnt f + 1" "refcnt ?g \<noteq> 0" using g1 by auto
  have r: "phys_mem_ref_frame a st = Inr (refcnt f + 1, set_frame a ?g st)"
    using assms drop_bit_refcnt [of f] False ref_flags(1) [OF lt]
    by (simp add: phys_mem_ref_frame_def frame_at_def Let_def)
  have "phys_mem_unref_frame a (set_frame a ?g st) = Inr (ucast (fr_flags f), st)"
    using assms g by (simp add: phys_mem_unref_frame_def frame_at_def set_frame_def fun_upd_idem)
  with r g assms False show ?thesis by (simp add: set_frame_def phys_mem_unref_frame_def frame_at_def)
qed

theorem phys_mem_ref_unref_witness:
  "if 2 ^ 23 \<le> unat (refcnt taken_frame) + 1 then phys_mem_ref_frame 4096 small_map = Inl Halt
   else \<exists>st' g. phys_mem_ref_frame 4096 small_map = Inr (refcnt taken_frame + 1, st') \<and> frames st' 4096 = Some g \<and>
          refcnt g = refcnt taken_frame + 1 \<and>
          phys_mem_unref_frame 4096 st' = Inr (ucast (fr_flags taken_frame), small_map) \<and>
          (refcnt taken_frame = 0 \<longrightarrow> phys_mem_unref_frame 4096 small_map = Inr (0, small_map))"
  by (rule phys_mem_ref_unref) (simp add: small_map_def)

end
