(* ===== verification/Paging.thy ===== *)
theory Paging
  imports PhysMem "HOL-Library.Sublist"
begin

text \<open>
  Four-level page tables: \<^verbatim>\<open>src/memory/mm_page.c\<close>, \<^verbatim>\<open>src/memory/mm_virt.c\<close> and
  \<^verbatim>\<open>alloc_page_frame\<close> of \<^verbatim>\<open>src/memory/mm_phys.c\<close>. Table memory is a function from the kernel-virtual
  address of an 8-byte entry to its value; physical memory is seen through the fixed offset \<open>hhdm\<close>
  (\<^verbatim>\<open>HHDM_OFFSET\<close>). A table pointer of \<^verbatim>\<open>NULL\<close> cannot be dereferenced. The allocation function pointer
  \<^verbatim>\<open>alloc_func\<close> is a function on the paging state. Flushing the TLB has no effect on the tables and is
  left out.

  The block that finds or creates the next table is written three times in \<^verbatim>\<open>find_page_using_alloc\<close> and
  three times in \<^verbatim>\<open>map_virtual_memory_using_alloc\<close>; it is the definition \<open>next_table\<close>. The theorems say
  that mapping a page makes the walk of \<^verbatim>\<open>get_physaddr\<close> return the mapped address, and that it changes the
  translation of no other page.
\<close>

section \<open>The code\<close>

record paging =
  pmem :: "u64 \<Rightarrow> u64"
  pphys :: phys_mem

definition PAGE_FLAG_PRESENT :: u64 where "PAGE_FLAG_PRESENT = 0x1"
definition PAGE_FLAG_WRITE :: u64 where "PAGE_FLAG_WRITE = 0x2"
definition PAGE_FLAG_USER :: u64 where "PAGE_FLAG_USER = 0x4"
definition PAGE_FLAG_NX :: u64 where "PAGE_FLAG_NX = 0x8000000000000000"
definition PHYSADDR_MASK :: u64 where "PHYSADDR_MASK = 0x000FFFFFFFFFF000"
definition KERNEL_START_ADDR :: u64 where "KERNEL_START_ADDR = 0xFFFF800000001000"
definition ALLOCATE_VM_EX :: u8 where "ALLOCATE_VM_EX = 0x1"
definition ALLOCATE_VM_RO :: u8 where "ALLOCATE_VM_RO = 0x2"
definition ALLOCATE_VM_USER :: u8 where "ALLOCATE_VM_USER = 0x4"

lemmas page_flag_defs = PAGE_FLAG_PRESENT_def PAGE_FLAG_WRITE_def PAGE_FLAG_USER_def PHYSADDR_MASK_def

definition phys_to_virt :: "u64 \<Rightarrow> u64 \<Rightarrow> u64" where "phys_to_virt hhdm phys = phys + hhdm"
definition virt_to_phys :: "u64 \<Rightarrow> u64 \<Rightarrow> u64" where "virt_to_phys hhdm virt = virt - hhdm"

definition is_userspace :: "u64 \<Rightarrow> bool" where
  "is_userspace virt = (\<not> KERNEL_START_ADDR \<le> virt)"

definition addr_split :: "u64 \<Rightarrow> u32 \<times> u32 \<times> u32 \<times> u32" where
  "addr_split virt =
     (ucast (drop_bit 39 virt AND 0x1FF), ucast (drop_bit 30 virt AND 0x1FF),
      ucast (drop_bit 21 virt AND 0x1FF), ucast (drop_bit 12 virt AND 0x1FF))"

definition entry_addr :: "u64 \<Rightarrow> u32 \<Rightarrow> u64" where
  "entry_addr table i = table + 8 * ucast i"

definition rd :: "u64 \<Rightarrow> u32 \<Rightarrow> paging \<Rightarrow> u64 kres" where
  "rd table i st = (if table = 0 then Inl BadAccess else Inr (pmem st (entry_addr table i)))"

definition wr :: "u64 \<Rightarrow> u64 \<Rightarrow> paging \<Rightarrow> paging" where
  "wr a v st = st\<lparr>pmem := (pmem st)(a := v)\<rparr>"

text \<open>\<^verbatim>\<open>memset(pt, 0, PAGE_LEN)\<close> on the entries.\<close>

definition zero_page :: "u64 \<Rightarrow> (u64 \<Rightarrow> u64) \<Rightarrow> u64 \<Rightarrow> u64" where
  "zero_page pt m = (\<lambda>a. if a - pt < PAGE_LEN then 0 else m a)"

definition alloc_paging_node :: "u64 \<Rightarrow> paging \<Rightarrow> (u64 \<times> paging) kres" where
  "alloc_paging_node hhdm st = bindR (find_next_free_frame (pphys st)) (\<lambda>(pt, ph).
     if pt = 0 then Inr (0, st\<lparr>pphys := ph\<rparr>)
     else let v = phys_to_virt hhdm pt in Inr (v, st\<lparr>pmem := zero_page v (pmem st), pphys := ph\<rparr>))"

text \<open>One level of the walk: \<open>None\<close> is the early \<^verbatim>\<open>return NULL\<close> when nothing may be created.\<close>

definition next_table ::
    "u64 \<Rightarrow> bool \<Rightarrow> (paging \<Rightarrow> (u64 \<times> paging) kres) \<Rightarrow> bool \<Rightarrow> u64 \<Rightarrow> u64 \<Rightarrow> u32 \<Rightarrow> paging \<Rightarrow>
     (u64 option \<times> paging) kres" where
  "next_table hhdm autocreate alloc_func user flags table i st =
     bindR (rd table i st) (\<lambda>e.
       if e AND PAGE_FLAG_PRESENT = 0 then
         if \<not> autocreate then Inr (None, st)
         else bindR (alloc_func st) (\<lambda>(t, st1).
           Inr (Some t, wr (entry_addr table i) (virt_to_phys hhdm t OR flags) st1))
       else
         let e1 = (if user then e OR PAGE_FLAG_USER else e);
             st1 = (if user then wr (entry_addr table i) e1 st else st)
         in Inr (Some (phys_to_virt hhdm (e1 AND PHYSADDR_MASK)), st1))"

text \<open>The assignments to the bit-fields \<^verbatim>\<open>present\<close>, \<^verbatim>\<open>rw\<close>, \<^verbatim>\<open>user\<close> and the 40-bit field \<^verbatim>\<open>frame\<close> of an entry.\<close>

definition set_bit_field :: "u64 \<Rightarrow> bool \<Rightarrow> u64 \<Rightarrow> u64" where
  "set_bit_field m b e = (if b then e OR m else e AND NOT m)"

definition set_frame_field :: "u64 \<Rightarrow> u64 \<Rightarrow> u64" where
  "set_frame_field fr e = (e AND NOT PHYSADDR_MASK) OR (push_bit 12 fr AND PHYSADDR_MASK)"

definition alloc_page_frame :: "u64 \<Rightarrow> bool \<Rightarrow> bool \<Rightarrow> paging \<Rightarrow> paging kres" where
  "alloc_page_frame pg user writeable st =
     (let e = set_bit_field PAGE_FLAG_USER user (set_bit_field PAGE_FLAG_WRITE writeable
                (set_bit_field PAGE_FLAG_PRESENT True (pmem st pg)));
          st1 = wr pg e st
      in bindR (find_next_free_frame (pphys st1)) (\<lambda>(phys, ph).
           Inr ((wr pg (set_frame_field (drop_bit 12 phys) e) st1)\<lparr>pphys := ph\<rparr>)))"

text \<open>\<^verbatim>\<open>PAGE_FLAG_PRESENT | PAGE_FLAG_WRITE | (user && PAGE_FLAG_USER)\<close>; the last operand is a truth value.\<close>

definition table_flags :: "bool \<Rightarrow> u64" where
  "table_flags user = PAGE_FLAG_PRESENT OR PAGE_FLAG_WRITE OR (if user then 1 else 0)"

definition find_page_using_alloc ::
    "u64 \<Rightarrow> u64 \<Rightarrow> bool \<Rightarrow> (paging \<Rightarrow> (u64 \<times> paging) kres) \<Rightarrow> bool \<Rightarrow> u64 \<Rightarrow> paging \<Rightarrow>
     (u64 \<times> paging) kres" where
  "find_page_using_alloc hhdm virt autocreate alloc_func user pml4 st =
     (if pml4 = 0 then Inr (0, st)
      else case addr_split virt of (i_pml4, i_pdpt, i_pd, i_pt) \<Rightarrow>
        let level = next_table hhdm autocreate alloc_func user (table_flags user)
        in bindR (level pml4 i_pml4 st) (\<lambda>(r1, st1). case r1 of None \<Rightarrow> Inr (0, st1) | Some pdpt \<Rightarrow>
           bindR (level pdpt i_pdpt st1) (\<lambda>(r2, st2). case r2 of None \<Rightarrow> Inr (0, st2) | Some pd \<Rightarrow>
           bindR (level pd i_pd st2) (\<lambda>(r3, st3). case r3 of None \<Rightarrow> Inr (0, st3) | Some pt \<Rightarrow>
           bindR (rd pt i_pt st3) (\<lambda>e.
             let pg = entry_addr pt i_pt in
             if e AND PAGE_FLAG_PRESENT = 0 then
               if \<not> autocreate then Inr (0, st3)
               else bindR (alloc_page_frame pg user True st3) (\<lambda>st4.
                 if drop_bit 12 (pmem st4 pg) = 0 then Inr (0, st4) else Inr (pg, st4))
             else Inr (pg, st3))))))"

definition find_page :: "u64 \<Rightarrow> u64 \<Rightarrow> bool \<Rightarrow> u64 \<Rightarrow> paging \<Rightarrow> (u64 \<times> paging) kres" where
  "find_page hhdm virt autocreate pml4 st =
     find_page_using_alloc hhdm virt autocreate (alloc_paging_node hhdm) (is_userspace virt) pml4 st"

text \<open>The body of the mapping loop for one page.\<close>

definition map_one ::
    "u64 \<Rightarrow> u64 \<Rightarrow> u64 \<Rightarrow> u64 \<Rightarrow> (paging \<Rightarrow> (u64 \<times> paging) kres) \<Rightarrow> u64 \<Rightarrow> paging \<Rightarrow> paging kres" where
  "map_one hhdm phys_current virt_current flags alloc_func pml4 st =
     (case addr_split virt_current of (i_pml4, i_pdpt, i_pd, i_pt) \<Rightarrow>
        let level = next_table hhdm True alloc_func (flags AND PAGE_FLAG_USER \<noteq> 0) flags
        in bindR (level pml4 i_pml4 st) (\<lambda>(r1, st1).
           bindR (level (the r1) i_pdpt st1) (\<lambda>(r2, st2).
           bindR (level (the r2) i_pd st2) (\<lambda>(r3, st3).
           bindR (rd (the r3) i_pt st3) (\<lambda>_.
             Inr (wr (entry_addr (the r3) i_pt) ((phys_current AND PHYSADDR_MASK) OR flags) st3))))))"

text \<open>The loop \<^verbatim>\<open>for (size_t i = 0; i < len; i += PAGE_LEN)\<close>; \<open>i\<close> wraps when \<open>len\<close> is within a page of the end
  of the 64-bit range, and then the loop does not end.\<close>

partial_function (option) map_loop ::
    "u64 \<Rightarrow> u64 \<Rightarrow> u64 \<Rightarrow> u64 \<Rightarrow> u64 \<Rightarrow> (paging \<Rightarrow> (u64 \<times> paging) kres) \<Rightarrow> u64 \<Rightarrow> u64 \<Rightarrow> paging \<Rightarrow>
     paging kres option" where
  "map_loop hhdm phys_start virt_start len flags alloc_func pml4 i st =
     (if i < len then
        (case map_one hhdm (phys_start + i) (virt_start + i) flags alloc_func pml4 st of
           Inl e \<Rightarrow> Some (Inl e)
         | Inr st1 \<Rightarrow> map_loop hhdm phys_start virt_start len flags alloc_func pml4 (i + PAGE_LEN) st1)
      else Some (Inr st))"

definition map_virtual_memory_using_alloc ::
    "u64 \<Rightarrow> u64 \<Rightarrow> u64 \<Rightarrow> u64 \<Rightarrow> u64 \<Rightarrow> (paging \<Rightarrow> (u64 \<times> paging) kres) \<Rightarrow> u64 \<Rightarrow> paging \<Rightarrow>
     paging kres option" where
  "map_virtual_memory_using_alloc hhdm phys_start virt_start len flags alloc_func pml4 st =
     map_loop hhdm phys_start virt_start len flags alloc_func pml4 0 st"

definition map_virtual_memory :: "u64 \<Rightarrow> u64 \<Rightarrow> u64 \<Rightarrow> u64 \<Rightarrow> u64 \<Rightarrow> paging \<Rightarrow> paging kres option" where
  "map_virtual_memory hhdm phys_start len flags pml4 st =
     map_virtual_memory_using_alloc hhdm phys_start (phys_to_virt hhdm phys_start) len flags
       (alloc_paging_node hhdm) pml4 st"

text \<open>The fields \<^verbatim>\<open>base_addr\<close> and \<^verbatim>\<open>frame\<close> are bits 12 to 51 of an entry, so \<^verbatim>\<open>base_addr << 12\<close> is the entry
  under \<^verbatim>\<open>PHYSADDR_MASK\<close>.\<close>

definition get_physaddr :: "u64 \<Rightarrow> u64 \<Rightarrow> u64 \<Rightarrow> paging \<Rightarrow> u64 kres" where
  "get_physaddr hhdm virt pml4 st =
     (case addr_split virt of (pml4_index, pdpt_index, pd_index, pt_index) \<Rightarrow>
        bindR (rd pml4 pml4_index st) (\<lambda>pml4_entry.
          if pml4_entry AND PAGE_FLAG_PRESENT = 0 then Inr 0
          else bindR (rd (phys_to_virt hhdm (pml4_entry AND PHYSADDR_MASK)) pdpt_index st) (\<lambda>pdpt_entry.
          if pdpt_entry AND PAGE_FLAG_PRESENT = 0 then Inr 0
          else bindR (rd (phys_to_virt hhdm (pdpt_entry AND PHYSADDR_MASK)) pd_index st) (\<lambda>pd_entry.
          if pd_entry AND PAGE_FLAG_PRESENT = 0 then Inr 0
          else bindR (rd (phys_to_virt hhdm (pd_entry AND PHYSADDR_MASK)) pt_index st) (\<lambda>page.
          if page AND PAGE_FLAG_PRESENT = 0 then Inr 0
          else Inr ((page AND PHYSADDR_MASK) + (virt AND 0xFFF)))))))"

definition get_physaddr32 :: "u64 \<Rightarrow> u64 \<Rightarrow> u64 \<Rightarrow> paging \<Rightarrow> u32 kres" where
  "get_physaddr32 hhdm virt pml4 st = bindR (get_physaddr hhdm virt pml4 st) (\<lambda>phys.
     if drop_bit 32 phys \<noteq> 0 then Inr 0 else Inr (ucast (phys AND 0xFFFFFFFF)))"

definition alloc_virtual_memory :: "u64 \<Rightarrow> u64 \<Rightarrow> u8 \<Rightarrow> u64 \<Rightarrow> paging \<Rightarrow> (u64 \<times> paging) kres" where
  "alloc_virtual_memory hhdm virt fl pml4 st =
     bindR (find_page_using_alloc hhdm virt True (alloc_paging_node hhdm) (fl AND ALLOCATE_VM_USER \<noteq> 0) pml4 st)
       (\<lambda>(page, st1).
         if page = 0 then Inr (1, st1)
         else
           let e1 = set_bit_field PAGE_FLAG_NX (fl AND ALLOCATE_VM_EX = 0) (pmem st1 page);
               e2 = set_bit_field PAGE_FLAG_WRITE (fl AND ALLOCATE_VM_RO = 0) e1
           in Inr (e2 AND PHYSADDR_MASK, wr page e2 st1))"

section \<open>Releasing a tree of tables\<close>

primrec foldR :: "('a \<Rightarrow> 's \<Rightarrow> 's kres) \<Rightarrow> 'a list \<Rightarrow> 's \<Rightarrow> 's kres" where
  "foldR f [] s = Inr s"
| "foldR f (x # xs) s = bindR (f x s) (foldR f xs)"

definition unref_phys :: "u64 \<Rightarrow> paging \<Rightarrow> paging kres" where
  "unref_phys phys st =
     bindR (phys_mem_unref_frame (phys_addr_to_frame_addr (frame_map (pphys st)) phys) (pphys st))
       (\<lambda>(_, ph). Inr (st\<lparr>pphys := ph\<rparr>))"

text \<open>The loop over the 512 entries of a table: \<open>body\<close> runs on the entries that are present.\<close>

definition for_entries :: "u64 \<Rightarrow> (u32 \<Rightarrow> u64 \<Rightarrow> paging \<Rightarrow> paging kres) \<Rightarrow> paging \<Rightarrow> paging kres" where
  "for_entries table body st =
     foldR (\<lambda>i s. bindR (rd table i s) (\<lambda>e. if e AND PAGE_FLAG_PRESENT = 0 then Inr s else body i e s))
       (map of_nat [0..<512]) st"

definition free_page_table :: "u64 \<Rightarrow> u64 \<Rightarrow> paging \<Rightarrow> paging kres" where
  "free_page_table hhdm pml4 st =
     (let PTE_ADDR = (\<lambda>x. x AND 0x000FFFFFFFFFF000) in
      bindR (for_entries pml4 (\<lambda>pml4_i pml4e s1.
        bindR (for_entries (phys_to_virt hhdm (PTE_ADDR pml4e)) (\<lambda>pdpt_i pdpte s2.
          bindR (for_entries (phys_to_virt hhdm (PTE_ADDR pdpte)) (\<lambda>pd_i pde s3.
            bindR (for_entries (phys_to_virt hhdm (PTE_ADDR pde)) (\<lambda>pt_i pte s4.
              bindR (unref_phys (PTE_ADDR pte) s4)
                (\<lambda>s5. Inr (wr (entry_addr (phys_to_virt hhdm (PTE_ADDR pde)) pt_i) 0 s5))) s3)
              (unref_phys (PTE_ADDR pde))) s2)
            (unref_phys (PTE_ADDR pdpte))) s1)
          (unref_phys (PTE_ADDR pml4e))) st)
        (unref_phys (virt_to_phys hhdm pml4)))"

section \<open>Table addresses\<close>

definition page_aligned :: "u64 \<Rightarrow> bool" where "page_aligned a \<longleftrightarrow> a AND 4095 = 0"

lemma page_aligned_unat: "page_aligned a \<longleftrightarrow> 4096 dvd unat a"
  by (simp add: page_aligned_def and_4095 unat_eq_zero [symmetric] unat_mod dvd_eq_mod_eq_0 del: unat_eq_zero)

lemma page_aligned_diff:
  assumes "page_aligned a" "page_aligned b" shows "page_aligned (a - b)"
proof -
  have *: "x = 4096 * drop_bit 12 x" if "page_aligned x" for x
    using bits_ident [of 12 x] that
    by (simp add: page_aligned_def and_4095 take_bit_eq_mod push_bit_eq_mult mult.commute)
  have "a - b = push_bit 12 (drop_bit 12 a - drop_bit 12 b)"
    using * [OF assms(1)] * [OF assms(2)] by (simp add: push_bit_eq_mult algebra_simps)
  then have "take_bit 12 (a - b) = 0" by (simp add: take_bit_push_bit)
  then show ?thesis by (simp add: page_aligned_def and_4095 take_bit_eq_mod)
qed

lemma unat_idx: "i < 512 \<Longrightarrow> unat (8 * ucast (i::u32) :: u64) = 8 * unat i"
  by (simp add: unat_word_ariths unsigned_ucast_eq take_bit_nat_eq_self word_less_nat_alt)

lemma entry_in_page:
  assumes "page_aligned t" "page_aligned u" "i < 512"
  shows "entry_addr t i - u < PAGE_LEN \<longleftrightarrow> t = u"
proof -
  let ?d = "t - u"
  have d: "4096 dvd unat ?d" using page_aligned_diff assms(1,2) by (simp add: page_aligned_unat)
  have i: "8 * unat i < 4096" using assms(3) by (simp add: word_less_nat_alt)
  obtain k where k: "unat ?d = 4096 * k" using d by auto
  have "4096 * k < 2 ^ 64" using k by (intro below_unat_u64 [of _ ?d]) simp
  then have "4096 * k + 8 * unat i < 2 ^ 64" using i by simp
  then have "unat (?d + 8 * ucast i) = 4096 * k + 8 * unat i"
    using k unat_idx [OF assms(3)] by (simp add: unat_word_ariths)
  moreover have e: "entry_addr t i - u = ?d + 8 * ucast i" by (simp add: entry_addr_def)
  ultimately have "entry_addr t i - u < PAGE_LEN \<longleftrightarrow> 4096 * k + 8 * unat i < 4096"
    unfolding e by (simp only: word_less_nat_alt PAGE_LEN_def) simp
  also have "\<dots> \<longleftrightarrow> unat ?d = 0" using k i by auto
  finally show ?thesis by (simp add: unat_eq_zero)
qed

lemma entry_addr_eq:
  assumes "page_aligned t" "page_aligned u" "i < 512" "j < 512"
  shows "entry_addr t i = entry_addr u j \<longleftrightarrow> t = u \<and> i = j"
proof
  assume eq: "entry_addr t i = entry_addr u j"
  have "entry_addr u j - u < PAGE_LEN" using entry_in_page [OF assms(2,2,4)] by simp
  then have "t = u" using entry_in_page [OF assms(1,2,3)] eq by simp
  moreover from this eq have "unat (8 * ucast i :: u64) = unat (8 * ucast j :: u64)" by (simp add: entry_addr_def)
  ultimately show "t = u \<and> i = j" using unat_idx assms(3,4) by (simp add: word_unat_eq_iff)
qed simp

section \<open>The walk\<close>

definition child :: "u64 \<Rightarrow> u64 \<Rightarrow> u64" where "child hhdm e = phys_to_virt hhdm (e AND PHYSADDR_MASK)"

abbreviation present :: "u64 \<Rightarrow> bool" where "present e \<equiv> e AND PAGE_FLAG_PRESENT \<noteq> 0"

text \<open>The table reached from \<open>t\<close> along a path of indices.\<close>

fun walk :: "u64 \<Rightarrow> (u64 \<Rightarrow> u64) \<Rightarrow> u64 \<Rightarrow> u32 list \<Rightarrow> u64 option" where
  "walk hhdm m t [] = Some t"
| "walk hhdm m t (i # is) =
     (if present (m (entry_addr t i)) then walk hhdm m (child hhdm (m (entry_addr t i))) is else None)"

lemma walk_snoc:
  "walk hhdm m t (p @ [i]) =
     (case walk hhdm m t p of None \<Rightarrow> None
      | Some u \<Rightarrow> if present (m (entry_addr u i)) then Some (child hhdm (m (entry_addr u i))) else None)"
  by (induction p arbitrary: t) auto

definition path_ok :: "u32 list \<Rightarrow> bool" where "path_ok p \<longleftrightarrow> length p \<le> 3 \<and> (\<forall>i\<in>set p. i < 512)"

lemma path_ok_snoc: "path_ok (p @ [i]) \<longleftrightarrow> path_ok p \<and> length p \<le> 2 \<and> i < 512"
  by (auto simp: path_ok_def)

text \<open>The tables of a tree are page aligned, not at \<^verbatim>\<open>NULL\<close>, outside the pages \<open>us\<close> still to be handed
  out, and each is reached by one path only.\<close>

definition tree_ok :: "u64 \<Rightarrow> (u64 \<Rightarrow> u64) \<Rightarrow> u64 \<Rightarrow> u64 list \<Rightarrow> bool" where
  "tree_ok hhdm m root us \<longleftrightarrow>
     (\<forall>p t. path_ok p \<and> walk hhdm m root p = Some t \<longrightarrow> page_aligned t \<and> t \<noteq> 0 \<and> t \<notin> set us) \<and>
     (\<forall>p q t. path_ok p \<and> path_ok q \<and> walk hhdm m root p = Some t \<and> walk hhdm m root q = Some t \<longrightarrow> p = q)"

text \<open>The entry for index \<open>j\<close> in the page table at the end of the path \<open>q\<close>, if it is present.\<close>

definition leaf :: "u64 \<Rightarrow> (u64 \<Rightarrow> u64) \<Rightarrow> u64 \<Rightarrow> u32 list \<Rightarrow> u32 \<Rightarrow> u64 option" where
  "leaf hhdm m root q j =
     (case walk hhdm m root q of None \<Rightarrow> None
      | Some t \<Rightarrow> if present (m (entry_addr t j)) then Some (m (entry_addr t j)) else None)"

lemma tree_okD:
  assumes "tree_ok hhdm m root us" "path_ok p" "walk hhdm m root p = Some t"
  shows "page_aligned t" "t \<noteq> 0" "t \<notin> set us"
    "\<And>q. path_ok q \<Longrightarrow> walk hhdm m root q = Some t \<Longrightarrow> q = p"
  using assms unfolding tree_ok_def by blast+

lemma tree_ok_tl: "tree_ok hhdm m root (u # us) \<Longrightarrow> tree_ok hhdm m root us"
  unfolding tree_ok_def by auto

text \<open>A change to one entry leaves every walk that does not use this entry as it was.\<close>

lemma walk_upd_keep:
  assumes ok: "tree_ok hhdm m root us" and p: "path_ok p" "walk hhdm m root p = Some t" "i < 512"
    and v: "length p = 3 \<or> (present v \<and> present (m (entry_addr t i)) \<and> child hhdm v = child hhdm (m (entry_addr t i)))"
    and q: "path_ok q"
  shows "walk hhdm (m(entry_addr t i := v)) root q = walk hhdm m root q"
  using q
proof (induction q rule: rev_induct)
  case (snoc j q)
  then have q: "path_ok q" "j < 512" "length q \<le> 2" by (simp_all add: path_ok_snoc)
  show ?case
  proof (cases "walk hhdm m root q")
    case None
    with snoc q show ?thesis by (simp add: walk_snoc)
  next
    case (Some u)
    have u: "page_aligned u" using tree_okD [OF ok q(1) Some] by simp
    have eq: "entry_addr u j = entry_addr t i \<longleftrightarrow> u = t \<and> j = i"
      using entry_addr_eq u tree_okD(1) [OF ok p(1,2)] q p(3) by blast
    have "q = p" if "u = t" using tree_okD(4) [OF ok p(1,2) q(1)] Some that by simp
    with v q have "u = t \<Longrightarrow> present v \<and> present (m (entry_addr t i)) \<and> child hhdm v = child hhdm (m (entry_addr t i))"
      by auto
    with snoc q Some eq show ?thesis by (auto simp: walk_snoc)
  qed
qed simp

lemma tree_ok_upd_keep:
  assumes "tree_ok hhdm m root us" "path_ok p" "walk hhdm m root p = Some t" "i < 512"
    "length p = 3 \<or> (present v \<and> present (m (entry_addr t i)) \<and> child hhdm v = child hhdm (m (entry_addr t i)))"
  shows "tree_ok hhdm (m(entry_addr t i := v)) root us"
  using assms(1) unfolding tree_ok_def by (simp add: walk_upd_keep [OF assms] cong: conj_cong)

lemma walk_None_append: "walk hhdm m t p = None \<Longrightarrow> walk hhdm m t (p @ r) = None"
  by (induction p arbitrary: t) (auto split: if_splits)

lemma entry_new:
  assumes "page_aligned t" "page_aligned u" "page_aligned w" "i < 512" "j < 512"
    "m' = (zero_page u m)(entry_addr t i := v)"
  shows "m' (entry_addr w j) = (if w = t \<and> j = i then v else if w = u then 0 else m (entry_addr w j))"
  using entry_in_page [OF assms(3,2,5)] entry_addr_eq [OF assms(3,1,5,4)] assms(6)
  by (auto simp: zero_page_def)

text \<open>A new, zeroed table \<open>u\<close> entered at index \<open>i\<close> of \<open>t\<close>.\<close>

lemma walk_new:
  assumes ok: "tree_ok hhdm m root (u # us)" "page_aligned u"
    and p: "path_ok p" "length p \<le> 2" "walk hhdm m root p = Some t" "i < 512"
    and v: "present v" "child hhdm v = u" and m': "m' = (zero_page u m)(entry_addr t i := v)"
    and q: "path_ok q"
  shows "walk hhdm m' root q =
           (if prefix (p @ [i]) q then if q = p @ [i] then Some u else None else walk hhdm m root q)"
  using q
proof (induction q rule: rev_induct)
  case Nil
  then show ?case by simp
next
  case (snoc j q)
  then have q: "path_ok q" "j < 512" by (simp_all add: path_ok_snoc)
  have t: "page_aligned t" "t \<noteq> u" using tree_okD [OF ok(1) p(1,3)] by auto
  have old: "m' (entry_addr w j) = (if w = t \<and> j = i then v else m (entry_addr w j))"
    if "page_aligned w" "w \<noteq> u" for w
    using entry_new [OF t(1) ok(2) that(1) p(4) q(2) m'] that(2) by simp
  have new: "m' (entry_addr u j) = 0"
    using entry_new [OF t(1) ok(2) ok(2) p(4) q(2) m'] t(2) by auto
  show ?case
  proof (cases "prefix (p @ [i]) q")
    case True
    then have "q @ [j] \<noteq> p @ [i]" by (auto dest: prefix_length_le)
    with True snoc.IH q new show ?thesis by (auto simp: walk_snoc)
  next
    case False
    then have IH: "walk hhdm m' root q = walk hhdm m root q" using snoc.IH q by simp
    show ?thesis
    proof (cases "walk hhdm m root q")
      case None
      then have "q \<noteq> p" using p(3) by auto
      with None IH False show ?thesis by (simp add: walk_snoc)
    next
      case (Some w)
      have w: "page_aligned w" "w \<noteq> u" using tree_okD [OF ok(1) q(1) Some] by auto
      have "w = t \<longleftrightarrow> q = p" using tree_okD(4) [OF ok(1) p(1,3) q(1)] Some p(3) by auto
      with Some IH False old [OF w] v show ?thesis by (auto simp: walk_snoc)
    qed
  qed
qed

lemma tree_ok_new:
  assumes ok: "tree_ok hhdm m root (u # us)" "page_aligned u" "u \<noteq> 0" "u \<notin> set us"
    and p: "path_ok p" "length p \<le> 2" "walk hhdm m root p = Some t" "i < 512"
    and v: "present v" "child hhdm v = u" "m' = (zero_page u m)(entry_addr t i := v)"
  shows "tree_ok hhdm m' root us"
proof -
  have cls: "q = p @ [i] \<and> w = u \<or>
      walk hhdm m root q = Some w \<and> page_aligned w \<and> w \<noteq> 0 \<and> w \<notin> set (u # us)"
    if "path_ok q" "walk hhdm m' root q = Some w" for q w
    using that walk_new [OF ok(1,2) p v that(1)] tree_okD(1-3) [OF ok(1) that(1), of w]
    by (cases "prefix (p @ [i]) q") (auto split: if_splits)
  have "page_aligned w \<and> w \<noteq> 0 \<and> w \<notin> set us" if "path_ok q" "walk hhdm m' root q = Some w" for q w
    using cls [OF that] ok(2-4) by auto
  moreover have "q = q'"
    if "path_ok q" "path_ok q'" "walk hhdm m' root q = Some w" "walk hhdm m' root q' = Some w" for q q' w
    using cls [OF that(1,3)] cls [OF that(2,4)] tree_okD(4) [OF ok(1) that(2) _ that(1)] by auto
  ultimately show ?thesis unfolding tree_ok_def by blast
qed

lemma leaf_new:
  assumes ok: "tree_ok hhdm m root (u # us)" "page_aligned u"
    and p: "path_ok p" "length p \<le> 2" "walk hhdm m root p = Some t" "i < 512"
    and v: "present v" "child hhdm v = u" and m': "m' = (zero_page u m)(entry_addr t i := v)"
    and absent: "\<not> present (m (entry_addr t i))" and q: "path_ok q" "length q = 3" "j < 512"
  shows "leaf hhdm m' root q j = leaf hhdm m root q j"
proof (cases "prefix (p @ [i]) q")
  case True
  then obtain r where r: "q = (p @ [i]) @ r" by (auto elim: prefixE)
  have "walk hhdm m root (p @ [i]) = None" using p(3) absent by (simp add: walk_snoc)
  then have "walk hhdm m root q = None" unfolding r by (rule walk_None_append)
  moreover have "m' (entry_addr u j) = 0"
    using entry_new [OF _ ok(2) ok(2) p(4) q(3) m'] tree_okD(1,3) [OF ok(1) p(1,3)] by auto
  ultimately show ?thesis using True walk_new [OF ok p v m' q(1)] by (simp add: leaf_def)
next
  case False
  then have w': "walk hhdm m' root q = walk hhdm m root q" using walk_new [OF ok p v m' q(1)] by simp
  show ?thesis
  proof (cases "walk hhdm m root q")
    case (Some w)
    have w: "page_aligned w" "w \<noteq> u" using tree_okD [OF ok(1) q(1) Some] by auto
    have "w \<noteq> t" using tree_okD(4) [OF ok(1) p(1,3) q(1)] Some p(2) q(2) by auto
    then have "m' (entry_addr w j) = m (entry_addr w j)"
      using entry_new [OF tree_okD(1) [OF ok(1) p(1,3)] ok(2) w(1) p(4) q(3) m'] w by simp
    then show ?thesis using w' Some by (simp add: leaf_def)
  qed (simp add: leaf_def w')
qed

lemma leaf_upd_keep:
  assumes ok: "tree_ok hhdm m root us" and p: "path_ok p" "walk hhdm m root p = Some t" "i < 512"
    and v: "length p = 3 \<or> (present v \<and> present (m (entry_addr t i)) \<and> child hhdm v = child hhdm (m (entry_addr t i)))"
    and q: "path_ok q" "length q = 3" "j < 512" "(q, j) \<noteq> (p, i)"
  shows "leaf hhdm (m(entry_addr t i := v)) root q j = leaf hhdm m root q j"
proof (cases "walk hhdm m root q")
  case (Some w)
  have "w = t \<Longrightarrow> q = p" using tree_okD(4) [OF ok p(1,2) q(1)] Some by simp
  then have "entry_addr w j \<noteq> entry_addr t i"
    using entry_addr_eq [OF tree_okD(1) [OF ok q(1) Some] tree_okD(1) [OF ok p(1,2)] q(3) p(3)] q(4) by auto
  then show ?thesis using walk_upd_keep [OF ok p v q(1)] Some by (simp add: leaf_def)
qed (simp add: leaf_def walk_upd_keep [OF ok p v q(1)])

section \<open>Translation\<close>

definition dir_path :: "u64 \<Rightarrow> u32 list" where
  "dir_path virt = (case addr_split virt of (a, b, c, d) \<Rightarrow> [a, b, c])"

definition pt_index :: "u64 \<Rightarrow> u32" where
  "pt_index virt = (case addr_split virt of (a, b, c, d) \<Rightarrow> d)"

lemma split_less: "ucast (x AND 0x1FF :: u64) < (512 :: u32)"
proof -
  have "x AND 0x1FF \<le> 0x1FF" by (rule word_and_le1)
  then have "unat (x AND 0x1FF) < 512" by (simp add: word_le_nat_alt)
  then show ?thesis by (simp add: word_less_nat_alt unsigned_ucast_eq take_bit_nat_eq_self)
qed

lemma dir_path_ok: "path_ok (dir_path virt)" "length (dir_path virt) = 3" "pt_index virt < 512"
  by (auto simp: dir_path_def pt_index_def addr_split_def path_ok_def split_less)

lemma addr_split_path:
  obtains a b c where "addr_split virt = (a, b, c, pt_index virt)" "dir_path virt = [a, b, c]"
    "a < 512" "b < 512" "c < 512"
proof -
  obtain a b c d where s: "addr_split virt = (a, b, c, d)" by (cases "addr_split virt") auto
  then have "dir_path virt = [a, b, c]" "d = pt_index virt" by (simp_all add: dir_path_def pt_index_def)
  with s dir_path_ok [of virt] that [of a b c] show ?thesis by (simp add: path_ok_def)
qed

lemma walk_take: "walk hhdm m t (p @ r) = Some u \<Longrightarrow> \<exists>w. walk hhdm m t p = Some w"
  using walk_None_append [of hhdm m t p r] by (cases "walk hhdm m t p") auto

lemma get_physaddr_leaf:
  assumes "tree_ok hhdm (pmem st) root us"
  shows "get_physaddr hhdm virt root st =
           Inr (case leaf hhdm (pmem st) root (dir_path virt) (pt_index virt) of
                  None \<Rightarrow> 0 | Some e \<Rightarrow> (e AND PHYSADDR_MASK) + (virt AND 0xFFF))"
proof -
  let ?m = "pmem st"
  obtain a b c where s: "addr_split virt = (a, b, c, pt_index virt)" "dir_path virt = [a, b, c]"
    "a < 512" "b < 512" "c < 512" by (rule addr_split_path)
  have nz: "w \<noteq> 0" if "path_ok q" "walk hhdm ?m root q = Some w" for q w
    using tree_okD(2) [OF assms that] .
  have po: "path_ok []" "path_ok [a]" "path_ok [a, b]" "path_ok [a, b, c]"
    using s(3-5) by (simp_all add: path_ok_def)
  let ?e1 = "?m (entry_addr root a)"
  let ?e2 = "?m (entry_addr (child hhdm ?e1) b)"
  let ?e3 = "?m (entry_addr (child hhdm ?e2) c)"
  have "root \<noteq> 0" using nz [OF po(1), of root] by simp
  moreover have "present ?e1 \<Longrightarrow> child hhdm ?e1 \<noteq> 0" using nz [OF po(2), of "child hhdm ?e1"] by simp
  moreover have "present ?e1 \<Longrightarrow> present ?e2 \<Longrightarrow> child hhdm ?e2 \<noteq> 0"
    using nz [OF po(3), of "child hhdm ?e2"] by simp
  moreover have "present ?e1 \<Longrightarrow> present ?e2 \<Longrightarrow> present ?e3 \<Longrightarrow> child hhdm ?e3 \<noteq> 0"
    using nz [OF po(4), of "child hhdm ?e3"] by simp
  ultimately show ?thesis
    by (simp add: get_physaddr_def s(1,2) leaf_def rd_def child_def [symmetric])
qed

text \<open>The index path of an address is its page number below bit 48; within \<open>2 ^ 36\<close> pages no two share it.\<close>

abbreviation vpath :: "u64 \<Rightarrow> u32 list \<times> u32" where "vpath va \<equiv> (dir_path va, pt_index va)"

lemma ucast_field_eq:
  assumes "ucast (a AND 0x1FF :: u64) = (ucast (b AND 0x1FF) :: u32)"
  shows "take_bit 9 a = take_bit 9 b"
proof -
  have *: "unat (ucast (x AND 0x1FF :: u64) :: u32) = unat (take_bit 9 x)" for x :: u64
  proof -
    have "x AND 0x1FF = take_bit 9 x" by (simp add: take_bit_eq_mask mask_eq_exp_minus_1)
    moreover have "unat (take_bit 9 x) < 2 ^ 9" unfolding unsigned_take_bit_eq by (rule take_bit_nat_less_exp)
    ultimately show ?thesis by (simp add: unsigned_ucast_eq take_bit_nat_eq_self)
  qed
  have "unat (take_bit 9 a) = unat (take_bit 9 b)" using assms * [of a] * [of b] by simp
  then show ?thesis by (simp only: word_unat_eq_iff)
qed

lemma vpath_eq:
  assumes "vpath x = vpath y" shows "take_bit 36 (drop_bit 12 x) = take_bit 36 (drop_bit 12 y)"
proof (rule bit_word_eqI)
  fix n
  have f: "take_bit 9 (drop_bit 39 x) = take_bit 9 (drop_bit 39 y)" "take_bit 9 (drop_bit 30 x) = take_bit 9 (drop_bit 30 y)"
    "take_bit 9 (drop_bit 21 x) = take_bit 9 (drop_bit 21 y)" "take_bit 9 (drop_bit 12 x) = take_bit 9 (drop_bit 12 y)"
    using assms by (auto simp: dir_path_def pt_index_def addr_split_def intro: ucast_field_eq)
  have g: "bit x (k + m) = bit y (k + m)"
    if "take_bit 9 (drop_bit k x) = take_bit 9 (drop_bit k y)" "m < 9" for k m
  proof -
    have "bit (take_bit 9 (drop_bit k x)) m = bit (take_bit 9 (drop_bit k y)) m" using that(1) by simp
    then show ?thesis using that(2) by (simp add: bit_take_bit_iff bit_drop_bit_eq)
  qed
  show "bit (take_bit 36 (drop_bit 12 x)) n = bit (take_bit 36 (drop_bit 12 y)) n"
  proof (cases "n < 36")
    case True
    then consider "n < 9" | "9 \<le> n" "n < 18" | "18 \<le> n" "n < 27" | "27 \<le> n" "n < 36" by linarith
    then have "bit x (12 + n) = bit y (12 + n)"
      using g [OF f(4), of n] g [OF f(3), of "n - 9"] g [OF f(2), of "n - 18"] g [OF f(1), of "n - 27"]
      by cases auto
    then show ?thesis by (simp add: bit_take_bit_iff bit_drop_bit_eq)
  qed (simp add: bit_take_bit_iff)
qed

lemma unat_page_number: "unat (take_bit 36 (drop_bit 12 (x::u64))) = unat x div 4096 mod 2 ^ 36"
  by (simp add: take_bit_eq_mod drop_bit_eq_div unat_mod unat_div)

lemma vpath_inj:
  assumes "vpath (va + of_nat (4096 * k)) = vpath (va + of_nat (4096 * l))" "k < 2 ^ 36" "l < 2 ^ 36"
  shows "k = l"
proof -
  have *: "unat (take_bit 36 (drop_bit 12 (va + of_nat (4096 * k)))) = (unat va div 4096 + k) mod 2 ^ 36"
    if "k < 2 ^ 36" for k
  proof -
    have "unat (of_nat (4096 * k) :: u64) = 4096 * k" using that by (intro unat_of_nat_u64) simp
    then have u: "unat (va + of_nat (4096 * k)) = (unat va + 4096 * k) mod 2 ^ 64" by (simp only: unat_word_ariths) simp
    have "unat (take_bit 36 (drop_bit 12 (va + of_nat (4096 * k)))) = (unat va + 4096 * k) mod 2 ^ 64 div 4096 mod 2 ^ 36"
      by (simp only: unat_page_number u)
    also have "\<dots> = (unat va + 4096 * k) div 4096 mod 2 ^ 52 mod 2 ^ 36"
      using mod_mult2_eq' [of "unat va + 4096 * k" 4096 "2 ^ 52"] by simp
    also have "\<dots> = (unat va div 4096 + k) mod 2 ^ 36" by (simp add: mod_mod_cancel add.commute)
    finally show ?thesis .
  qed
  have "(unat va div 4096 + k) mod 2 ^ 36 = (unat va div 4096 + l) mod 2 ^ 36"
    using * [OF assms(2)] * [OF assms(3)] vpath_eq [OF assms(1)] by simp
  then show ?thesis using assms(2,3) by (rule mod_add_inj)
qed

text \<open>Flags of a mapping: the present bit and nothing in the address field.\<close>

definition flags_ok :: "u64 \<Rightarrow> bool" where
  "flags_ok f \<longleftrightarrow> present f \<and> f AND PHYSADDR_MASK = 0"

text \<open>The number of pages of a range of \<open>len\<close> bytes.\<close>

definition page_count :: "u64 \<Rightarrow> nat" where "page_count len = (unat len + 4095) div 4096"

lemma entry_bits:
  assumes "flags_ok f" "a AND PHYSADDR_MASK = a"
  shows "present (a OR f)" "(a OR f) AND PHYSADDR_MASK = a"
proof -
  have "a AND PAGE_FLAG_PRESENT = a AND (PHYSADDR_MASK AND PAGE_FLAG_PRESENT)"
    by (metis assms(2) and.assoc)
  also have "\<dots> = 0" by (simp add: page_flag_defs)
  finally have "(a OR f) AND PAGE_FLAG_PRESENT = f AND PAGE_FLAG_PRESENT" by (simp add: bit.conj_disj_distrib2)
  then show "present (a OR f)" using assms(1) by (simp add: flags_ok_def)
  show "(a OR f) AND PHYSADDR_MASK = a" using assms by (simp add: flags_ok_def bit.conj_disj_distrib2)
qed

lemma user_bits: "present e \<Longrightarrow> present (e OR PAGE_FLAG_USER)" "child hhdm (e OR PAGE_FLAG_USER) = child hhdm e"
  by (auto simp: child_def page_flag_defs bit.conj_disj_distrib2)

section \<open>Lookup without creation\<close>

lemma next_table_lookup:
  assumes ok: "tree_ok hhdm (pmem st) root us"
    and p: "path_ok p" "length p \<le> 2" "walk hhdm (pmem st) root p = Some t" "i < 512"
  shows "\<exists>st'. next_table hhdm False f user fl t i st = Inr (walk hhdm (pmem st) root (p @ [i]), st') \<and>
           tree_ok hhdm (pmem st') root us \<and> pphys st' = pphys st \<and>
           (\<forall>q. path_ok q \<longrightarrow> walk hhdm (pmem st') root q = walk hhdm (pmem st) root q) \<and>
           (\<forall>q j. path_ok q \<and> length q = 3 \<and> j < 512 \<longrightarrow>
              leaf hhdm (pmem st') root q j = leaf hhdm (pmem st) root q j)"
proof -
  let ?a = "entry_addr t i"
  let ?e = "pmem st ?a"
  have t: "t \<noteq> 0" using tree_okD [OF ok p(1,3)] by simp
  show ?thesis
  proof (cases "present ?e")
    case False
    then have "next_table hhdm False f user fl t i st = Inr (walk hhdm (pmem st) root (p @ [i]), st)"
      using t p(3) by (simp add: next_table_def rd_def walk_snoc)
    then show ?thesis using ok by blast
  next
    case True
    let ?v = "if user then ?e OR PAGE_FLAG_USER else ?e"
    let ?st = "if user then wr ?a ?v st else st"
    have v: "present ?v \<and> present ?e \<and> child hhdm ?v = child hhdm ?e" using True user_bits by auto
    have m: "pmem ?st = (pmem st)(?a := ?v)" by (simp add: wr_def fun_upd_idem)
    have "next_table hhdm False f user fl t i st = Inr (walk hhdm (pmem st) root (p @ [i]), ?st)"
      using True t p(3) v by (auto simp: next_table_def rd_def child_def walk_snoc Let_def)
    moreover have "tree_ok hhdm (pmem ?st) root us"
      unfolding m by (rule tree_ok_upd_keep [OF ok p(1,3,4) disjI2 [OF v]])
    moreover have "walk hhdm (pmem ?st) root q = walk hhdm (pmem st) root q" if "path_ok q" for q
      unfolding m by (rule walk_upd_keep [OF ok p(1,3,4) disjI2 [OF v] that])
    moreover have "leaf hhdm (pmem ?st) root q j = leaf hhdm (pmem st) root q j"
      if "path_ok q" "length q = 3" "j < 512" for q j
      unfolding m using p(2) that by (intro leaf_upd_keep [OF ok p(1,3,4) disjI2 [OF v]]) auto
    moreover have "pphys ?st = pphys st" by (simp add: wr_def)
    ultimately show ?thesis by blast
  qed
qed

lemma walk_stop: "walk hhdm m root p = None \<Longrightarrow> leaf hhdm m root (p @ r) j = None"
  by (simp add: leaf_def walk_None_append)

lemma find_page_lookup:
  assumes ok: "tree_ok hhdm (pmem st) root us"
  shows "\<exists>pg st'. find_page_using_alloc hhdm va False f user root st = Inr (pg, st') \<and>
           tree_ok hhdm (pmem st') root us \<and> pphys st' = pphys st \<and>
           (\<forall>q j. path_ok q \<and> length q = 3 \<and> j < 512 \<longrightarrow>
              leaf hhdm (pmem st') root q j = leaf hhdm (pmem st) root q j) \<and>
           (case leaf hhdm (pmem st) root (dir_path va) (pt_index va) of
              None \<Rightarrow> pg = 0 | Some e \<Rightarrow> pg \<noteq> 0 \<and> pmem st' pg = e)"
proof -
  obtain a b c where s: "addr_split va = (a, b, c, pt_index va)" "dir_path va = [a, b, c]"
    "a < 512" "b < 512" "c < 512" by (rule addr_split_path)
  have po: "path_ok []" "path_ok [a]" "path_ok [a, b]" "path_ok [a, b, c]"
    using s(3-5) by (simp_all add: path_ok_def)
  have root: "root \<noteq> 0" using tree_okD(2) [OF ok po(1)] by simp
  let ?w = "\<lambda>st q. walk hhdm (pmem st) root q"
  let ?same = "\<lambda>st'. tree_ok hhdm (pmem st') root us \<and> pphys st' = pphys st \<and>
     (\<forall>q. path_ok q \<longrightarrow> ?w st' q = ?w st q) \<and>
     (\<forall>q j. path_ok q \<and> length q = 3 \<and> j < 512 \<longrightarrow> leaf hhdm (pmem st') root q j = leaf hhdm (pmem st) root q j)"
  let ?level = "next_table hhdm False f user (table_flags user)"
  obtain st1 where 1: "?level root a st = Inr (?w st [a], st1)" "?same st1"
    using next_table_lookup [OF ok po(1), of root a f user "table_flags user"] s(3) by (auto simp del: walk.simps(2))
  show ?thesis
  proof (cases "?w st [a]")
    case None
    then show ?thesis
      using 1 root walk_stop [of hhdm "pmem st" root "[a]" "[b, c]"] s(2)
      by (auto simp: find_page_using_alloc_def s(1) Let_def simp del: walk.simps(2))
  next
    case t1: (Some t1)
    obtain st2 where 2: "?level t1 b st1 = Inr (?w st [a, b], st2)" "?same st2"
      using next_table_lookup [of hhdm st1 root us "[a]" t1 b f user "table_flags user"] 1(2) t1 po s(4) by (auto simp del: walk.simps(2))
    show ?thesis
    proof (cases "?w st [a, b]")
      case None
      then show ?thesis
        using 1 2 t1 root walk_stop [of hhdm "pmem st" root "[a, b]" "[c]"] s(2)
        by (auto simp: find_page_using_alloc_def s(1) Let_def simp del: walk.simps(2))
    next
      case t2: (Some t2)
      obtain st3 where 3: "?level t2 c st2 = Inr (?w st [a, b, c], st3)" "?same st3"
        using next_table_lookup [of hhdm st2 root us "[a, b]" t2 c f user "table_flags user"] 2(2) t2 po s(5) by (auto simp del: walk.simps(2))
      show ?thesis
      proof (cases "?w st [a, b, c]")
        case None
        then show ?thesis
          using 1 2 3 t1 t2 root by (auto simp: find_page_using_alloc_def s(1,2) Let_def leaf_def simp del: walk.simps(2))
      next
        case t3: (Some t3)
        let ?i = "pt_index va"
        have w3: "?w st3 [a, b, c] = Some t3" using 3(2) t3 po(4) by (simp del: walk.simps(2))
        have nz: "t3 \<noteq> 0" "page_aligned t3" using tree_okD [OF _ po(4) w3] 3(2) by auto
        have "entry_addr t3 ?i = entry_addr 0 0 \<Longrightarrow> t3 = 0"
          using entry_addr_eq [OF nz(2), of 0 ?i 0] dir_path_ok(3) [of va] by (simp add: page_aligned_def)
        then have pg: "entry_addr t3 ?i \<noteq> 0" using nz by (auto simp: entry_addr_def)
        have "leaf hhdm (pmem st) root [a, b, c] ?i = leaf hhdm (pmem st3) root [a, b, c] ?i"
          using 3(2) po(4) dir_path_ok(3) [of va] by (simp del: walk.simps(2))
        then have lf: "leaf hhdm (pmem st) root (dir_path va) ?i =
            (if present (pmem st3 (entry_addr t3 ?i)) then Some (pmem st3 (entry_addr t3 ?i)) else None)"
          using w3 s(2) by (simp add: leaf_def del: walk.simps(2))
        have "find_page_using_alloc hhdm va False f user root st =
            Inr (if present (pmem st3 (entry_addr t3 ?i)) then entry_addr t3 ?i else 0, st3)"
          using 1(1) 2(1) 3(1) t1 t2 t3 root nz(1) by (simp add: find_page_using_alloc_def s(1) rd_def Let_def del: walk.simps(2))
        then show ?thesis using 3(2) lf pg by (auto simp del: walk.simps(2))
      qed
    qed
  qed
qed

section \<open>Table memory as a supply of pages\<close>

text \<open>What the walk asks of \<^verbatim>\<open>alloc_func\<close>: each call hands out the next page of a finite supply, zeroed, and
  changes no other entry; the pages are distinct, aligned, not \<^verbatim>\<open>NULL\<close>, and their physical address fits
  the address field of an entry.\<close>

locale table_alloc =
  fixes hhdm :: u64
    and pages :: "paging \<Rightarrow> u64 list \<Rightarrow> bool"
    and alloc_func :: "paging \<Rightarrow> (u64 \<times> paging) kres"
  assumes alloc_law: "pages st (u # us) \<Longrightarrow>
      \<exists>st'. alloc_func st = Inr (u, st') \<and> pages st' us \<and> pmem st' = zero_page u (pmem st)"
    and pages_law: "pages st us \<Longrightarrow> distinct us \<and>
      (\<forall>u\<in>set us. page_aligned u \<and> u \<noteq> 0 \<and> (u - hhdm) AND PHYSADDR_MASK = u - hhdm)"
    and pages_mem: "pages st us \<Longrightarrow> pages (st\<lparr>pmem := m\<rparr>) us"
begin

definition tables :: "u64 \<Rightarrow> u64 list \<Rightarrow> paging \<Rightarrow> bool" where
  "tables root us st \<longleftrightarrow> pages st us \<and> tree_ok hhdm (pmem st) root us"

text \<open>One level of the walk, creating what is missing: the tree stays well formed, at most one page is used
  and no translation changes.\<close>

lemma next_table_law:
  assumes tb: "tables root us st" and p: "path_ok p" "length p \<le> 2" "walk hhdm (pmem st) root p = Some t"
    "i < 512" and f: "flags_ok flags" and us: "us \<noteq> []"
  shows "\<exists>t' st' us'. next_table hhdm True alloc_func user flags t i st = Inr (Some t', st') \<and>
           tables root us' st' \<and> (us' = us \<or> us' = tl us) \<and> walk hhdm (pmem st') root (p @ [i]) = Some t' \<and>
           (\<forall>q j. path_ok q \<and> length q = 3 \<and> j < 512 \<longrightarrow> leaf hhdm (pmem st') root q j = leaf hhdm (pmem st) root q j)"
proof -
  from tb have pg: "pages st us" and ok: "tree_ok hhdm (pmem st) root us" by (auto simp: tables_def)
  let ?e = "pmem st (entry_addr t i)" and ?a = "entry_addr t i"
  have t: "page_aligned t" "t \<noteq> 0" using tree_okD [OF ok p(1,3)] by auto
  show ?thesis
  proof (cases "present ?e")
    case False
    obtain u vs where us: "us = u # vs" using us by (cases us) auto
    obtain st1 where st1: "alloc_func st = Inr (u, st1)" "pages st1 vs" "pmem st1 = zero_page u (pmem st)"
      using alloc_law pg us by blast
    have u: "page_aligned u" "u \<noteq> 0" "u \<notin> set vs" "(u - hhdm) AND PHYSADDR_MASK = u - hhdm"
      using pages_law [OF pg] us by auto
    let ?v = "virt_to_phys hhdm u OR flags" and ?st = "wr ?a (virt_to_phys hhdm u OR flags) st1"
    have v: "present ?v" "child hhdm ?v = u"
      using entry_bits [OF f u(4)] by (simp_all add: virt_to_phys_def child_def phys_to_virt_def)
    have m: "pmem ?st = (zero_page u (pmem st))(?a := ?v)" by (simp add: wr_def st1)
    note new = walk_new [OF ok [unfolded us] u(1) p v m]
    have "tables root vs ?st"
      using tree_ok_new [OF ok [unfolded us] u(1-3) p v m] pages_mem [OF st1(2)]
      by (simp add: tables_def wr_def)
    moreover have "walk hhdm (pmem ?st) root (p @ [i]) = Some u" using new p by (simp add: path_ok_snoc)
    moreover have "leaf hhdm (pmem ?st) root q j = leaf hhdm (pmem st) root q j"
      if "path_ok q" "length q = 3" "j < 512" for q j
      using leaf_new [OF ok [unfolded us] u(1) p v m _ that] False by simp
    moreover have "next_table hhdm True alloc_func user flags t i st = Inr (Some u, ?st)"
      using False st1(1) t(2) by (simp add: next_table_def rd_def)
    ultimately show ?thesis using us by auto
  next
    case True
    let ?v = "if user then ?e OR PAGE_FLAG_USER else ?e"
    have v: "present ?v \<and> present ?e \<and> child hhdm ?v = child hhdm ?e" using True user_bits by auto
    let ?st = "if user then wr ?a ?v st else st"
    have m: "pmem ?st = (pmem st)(?a := ?v)" by (simp add: wr_def fun_upd_idem)
    have keep: "walk hhdm (pmem ?st) root q = walk hhdm (pmem st) root q" if "path_ok q" for q
      unfolding m by (rule walk_upd_keep [OF ok p(1,3,4) disjI2 [OF v] that])
    have "tables root us ?st"
      using tree_ok_upd_keep [OF ok p(1,3,4) disjI2 [OF v]] pages_mem [OF pg] pg tb
      by (auto simp: tables_def wr_def)
    moreover have "walk hhdm (pmem ?st) root (p @ [i]) = Some (child hhdm ?v)"
      using keep [of "p @ [i]"] p True v by (simp add: path_ok_snoc walk_snoc)
    moreover have "leaf hhdm (pmem ?st) root q j = leaf hhdm (pmem st) root q j"
      if "path_ok q" "length q = 3" "j < 512" for q j
      unfolding m using p(2) that by (intro leaf_upd_keep [OF ok p(1,3,4) disjI2 [OF v]]) auto
    moreover have "next_table hhdm True alloc_func user flags t i st = Inr (Some (child hhdm ?v), ?st)"
      using True t(2) by (auto simp: next_table_def rd_def child_def Let_def)
    ultimately show ?thesis by blast
  qed
qed

text \<open>The three levels down to the page table of an address.\<close>

lemma levels_law:
  assumes tb: "tables root us st" and us: "3 \<le> length us" and f: "flags_ok flags"
    and s: "addr_split va = (a, b, c, pt_index va)" "dir_path va = [a, b, c]"
  shows "\<exists>t1 st1 t2 st2 t3 st3 us3.
           next_table hhdm True alloc_func user flags root a st = Inr (Some t1, st1) \<and>
           next_table hhdm True alloc_func user flags t1 b st1 = Inr (Some t2, st2) \<and>
           next_table hhdm True alloc_func user flags t2 c st2 = Inr (Some t3, st3) \<and>
           tables root us3 st3 \<and> (\<exists>k\<le>3. us3 = drop k us) \<and> walk hhdm (pmem st3) root (dir_path va) = Some t3 \<and>
           (\<forall>q j. path_ok q \<and> length q = 3 \<and> j < 512 \<longrightarrow>
              leaf hhdm (pmem st3) root q j = leaf hhdm (pmem st) root q j)"
proof -
  let ?level = "next_table hhdm True alloc_func user flags"
  let ?same = "\<lambda>st st'. \<forall>q j. path_ok q \<and> length q = 3 \<and> j < 512 \<longrightarrow>
      leaf hhdm (pmem st') root q j = leaf hhdm (pmem st) root q j"
  have ix: "a < 512" "b < 512" "c < 512" using dir_path_ok(1) [of va] s(2) by (auto simp: path_ok_def)
  have po: "path_ok []" "path_ok [a]" "path_ok [a, b]" using ix by (simp_all add: path_ok_def)
  have "us \<noteq> []" using us by auto
  then obtain t1 st1 us1 where 1: "?level root a st = Inr (Some t1, st1)" "tables root us1 st1"
    "us1 = us \<or> us1 = tl us" "walk hhdm (pmem st1) root [a] = Some t1" "?same st st1"
    using next_table_law [OF tb po(1), of root a flags user] ix f by auto
  have l1: "2 \<le> length us1" using us 1(3) by auto
  then have "us1 \<noteq> []" by auto
  then obtain t2 st2 us2 where 2: "?level t1 b st1 = Inr (Some t2, st2)" "tables root us2 st2"
    "us2 = us1 \<or> us2 = tl us1" "walk hhdm (pmem st2) root [a, b] = Some t2" "?same st1 st2"
    using next_table_law [OF 1(2) po(2), of t1 b flags user] 1(4) ix f by auto
  have "1 \<le> length us2" using l1 2(3) by auto
  then have "us2 \<noteq> []" by auto
  then obtain t3 st3 us3 where 3: "?level t2 c st2 = Inr (Some t3, st3)" "tables root us3 st3"
    "us3 = us2 \<or> us3 = tl us2" "walk hhdm (pmem st3) root [a, b, c] = Some t3" "?same st2 st3"
    using next_table_law [OF 2(2) po(3), of t2 c flags user] 2(4) ix f by auto
  have d: "\<exists>k\<le>Suc n. ys = drop k us" if "\<exists>k\<le>n. xs = drop k us" "ys = xs \<or> ys = tl xs" for n xs ys
    using that by (auto simp: tl_drop drop_Suc [symmetric] simp flip: drop_Suc intro: le_SucI)
  have "\<exists>k\<le>0. us = drop k us" by simp
  from d [OF d [OF d [OF this 1(3)] 2(3)] 3(3)] have "\<exists>k\<le>3. us3 = drop k us" by (simp add: numeral_3_eq_3)
  moreover have "?same st st3" using 1(5) 2(5) 3(5) by simp
  ultimately show ?thesis using 1(1) 2(1) 3(1,2,4) s(2) by auto
qed

text \<open>Writing the entry of a page in its page table.\<close>

lemma set_leaf_law:
  assumes tb: "tables root us st" and w: "walk hhdm (pmem st) root (dir_path va) = Some t" and v: "present v"
  defines "st' \<equiv> wr (entry_addr t (pt_index va)) v st"
  shows "tables root us st'" "leaf hhdm (pmem st') root (dir_path va) (pt_index va) = Some v"
    "path_ok q \<Longrightarrow> length q = 3 \<Longrightarrow> j < 512 \<Longrightarrow> (q, j) \<noteq> vpath va \<Longrightarrow>
       leaf hhdm (pmem st') root q j = leaf hhdm (pmem st) root q j"
    "t \<noteq> 0" "entry_addr t (pt_index va) \<noteq> 0"
proof -
  let ?p = "dir_path va" and ?i = "pt_index va"
  have ok: "tree_ok hhdm (pmem st) root us" using tb by (simp add: tables_def)
  note p = dir_path_ok [of va]
  have m: "pmem st' = (pmem st)(entry_addr t ?i := v)" by (simp add: st'_def wr_def)
  note k = walk_upd_keep [OF ok p(1) w p(3) disjI1 [OF p(2)]]
  show "tables root us st'"
    using tb pages_mem tree_ok_upd_keep [OF ok p(1) w p(3) disjI1 [OF p(2)], of v]
    by (simp add: tables_def st'_def wr_def)
  show "leaf hhdm (pmem st') root ?p ?i = Some v" using k [OF p(1), of v] w v by (simp add: leaf_def m)
  show "leaf hhdm (pmem st') root q j = leaf hhdm (pmem st) root q j"
    if "path_ok q" "length q = 3" "j < 512" "(q, j) \<noteq> vpath va"
    unfolding m by (rule leaf_upd_keep [OF ok p(1) w p(3) disjI1 [OF p(2)] that])
  show t0: "t \<noteq> 0" using tree_okD [OF ok p(1) w] by simp
  have "entry_addr t ?i = entry_addr 0 0 \<Longrightarrow> t = 0"
    using entry_addr_eq [of t 0 ?i 0] tree_okD(1) [OF ok p(1) w] p(3) by (simp add: page_aligned_def)
  then show "entry_addr t ?i \<noteq> 0" using t0 by (auto simp: entry_addr_def)
qed

lemma map_one_law:
  assumes tb: "tables root us st" and us: "3 \<le> length us" and f: "flags_ok flags"
  shows "\<exists>st' us'. map_one hhdm pa va flags alloc_func root st = Inr st' \<and> tables root us' st' \<and>
           (\<exists>k\<le>3. us' = drop k us) \<and>
           leaf hhdm (pmem st') root (dir_path va) (pt_index va) = Some ((pa AND PHYSADDR_MASK) OR flags) \<and>
           (\<forall>q j. path_ok q \<and> length q = 3 \<and> j < 512 \<and> (q, j) \<noteq> vpath va \<longrightarrow>
              leaf hhdm (pmem st') root q j = leaf hhdm (pmem st) root q j)"
proof -
  obtain a b c where s: "addr_split va = (a, b, c, pt_index va)" "dir_path va = [a, b, c]"
    by (rule addr_split_path)
  let ?level = "next_table hhdm True alloc_func (flags AND PAGE_FLAG_USER \<noteq> 0) flags"
  obtain t1 st1 t2 st2 t3 st3 us3 where l: "?level root a st = Inr (Some t1, st1)"
    "?level t1 b st1 = Inr (Some t2, st2)" "?level t2 c st2 = Inr (Some t3, st3)"
    and 3: "tables root us3 st3" "\<exists>k\<le>3. us3 = drop k us" "walk hhdm (pmem st3) root (dir_path va) = Some t3"
    and same: "\<forall>q j. path_ok q \<and> length q = 3 \<and> j < 512 \<longrightarrow>
      leaf hhdm (pmem st3) root q j = leaf hhdm (pmem st) root q j"
    using levels_law [OF tb us f s, of "flags AND PAGE_FLAG_USER \<noteq> 0"] by blast
  let ?v = "(pa AND PHYSADDR_MASK) OR flags"
  have "present ?v" using entry_bits(1) [OF f, of "pa AND PHYSADDR_MASK"] by (simp add: and.assoc)
  note w = set_leaf_law [OF 3(1,3) this]
  have "map_one hhdm pa va flags alloc_func root st = Inr (wr (entry_addr t3 (pt_index va)) ?v st3)"
    using l w(4) by (simp add: map_one_def s(1) rd_def)
  then show ?thesis using w(1-3) 3(2) same by (intro exI [of _ "wr (entry_addr t3 (pt_index va)) ?v st3"] exI [of _ us3]) simp
qed

text \<open>Mapping a range: page \<open>l\<close> of the range translates to page \<open>l\<close> of the physical range, and every page
  outside the range keeps its translation.\<close>

lemma loop_guard:
  assumes "k < 2 ^ 51" shows "of_nat (4096 * k) < len \<longleftrightarrow> k < page_count len"
proof -
  have "unat (of_nat (4096 * k) :: u64) = 4096 * k" using assms by (intro unat_of_nat_u64) simp
  then have "of_nat (4096 * k) < len \<longleftrightarrow> 4096 * k < unat len" by (simp only: word_less_nat_alt)
  also have "\<dots> \<longleftrightarrow> k < page_count len" unfolding page_count_def by linarith
  finally show ?thesis .
qed

lemma map_loop_law:
  assumes f: "flags_ok flags" and N: "page_count len \<le> 2 ^ 36"
  shows "tables root us st \<Longrightarrow> 3 * n \<le> length us \<Longrightarrow> k + n = page_count len \<Longrightarrow>
    \<exists>st' us'. map_loop hhdm ps vs len flags alloc_func root (of_nat (4096 * k)) st = Some (Inr st') \<and>
      tables root us' st' \<and>
      (\<forall>l. k \<le> l \<and> l < page_count len \<longrightarrow>
         leaf hhdm (pmem st') root (dir_path (vs + of_nat (4096 * l))) (pt_index (vs + of_nat (4096 * l))) =
         Some (((ps + of_nat (4096 * l)) AND PHYSADDR_MASK) OR flags)) \<and>
      (\<forall>q j. path_ok q \<and> length q = 3 \<and> j < 512 \<and>
         (\<forall>l. k \<le> l \<and> l < page_count len \<longrightarrow> (q, j) \<noteq> vpath (vs + of_nat (4096 * l))) \<longrightarrow>
         leaf hhdm (pmem st') root q j = leaf hhdm (pmem st) root q j)"
proof (induction n arbitrary: k st us)
  case 0
  then have "\<not> of_nat (4096 * k) < len" using loop_guard [of k len] N by simp
  then have "map_loop hhdm ps vs len flags alloc_func root (of_nat (4096 * k)) st = Some (Inr st)"
    by (simp add: map_loop.simps)
  with 0 show ?case by auto
next
  case (Suc n)
  let ?N = "page_count len" and ?va = "\<lambda>l. vs + of_nat (4096 * l)" and ?pa = "\<lambda>l. ps + of_nat (4096 * l)"
  have k: "k < ?N" using Suc.prems(3) by simp
  have g: "of_nat (4096 * k) < len" using loop_guard [of k len] k N by simp
  obtain st1 us1 where 1: "map_one hhdm (?pa k) (?va k) flags alloc_func root st = Inr st1"
    "tables root us1 st1" "\<exists>k\<le>3. us1 = drop k us"
    "leaf hhdm (pmem st1) root (dir_path (?va k)) (pt_index (?va k)) = Some ((?pa k AND PHYSADDR_MASK) OR flags)"
    "\<forall>q j. path_ok q \<and> length q = 3 \<and> j < 512 \<and> (q, j) \<noteq> vpath (?va k) \<longrightarrow>
       leaf hhdm (pmem st1) root q j = leaf hhdm (pmem st) root q j"
    using map_one_law [OF Suc.prems(1) _ f, of "?pa k" "?va k"] Suc.prems(2) by fastforce
  have nxt: "of_nat (4096 * k) + PAGE_LEN = (of_nat (4096 * Suc k) :: u64)" by (simp add: PAGE_LEN_def)
  have "3 * n \<le> length us1" "Suc k + n = ?N" using 1(3) Suc.prems by auto
  from Suc.IH [OF 1(2) this] obtain st2 us2 where
    2: "map_loop hhdm ps vs len flags alloc_func root (of_nat (4096 * Suc k)) st1 = Some (Inr st2)"
      "tables root us2 st2"
      "\<forall>l. Suc k \<le> l \<and> l < ?N \<longrightarrow> leaf hhdm (pmem st2) root (dir_path (?va l)) (pt_index (?va l)) =
         Some ((?pa l AND PHYSADDR_MASK) OR flags)"
      "\<forall>q j. path_ok q \<and> length q = 3 \<and> j < 512 \<and> (\<forall>l. Suc k \<le> l \<and> l < ?N \<longrightarrow> (q, j) \<noteq> vpath (?va l)) \<longrightarrow>
         leaf hhdm (pmem st2) root q j = leaf hhdm (pmem st1) root q j"
    by (elim exE conjE) (rule that)
  have "map_loop hhdm ps vs len flags alloc_func root (of_nat (4096 * k)) st = Some (Inr st2)"
    using g 1(1) 2(1) by (subst map_loop.simps) (simp only: nxt if_True sum.case)
  moreover have "leaf hhdm (pmem st2) root (dir_path (?va k)) (pt_index (?va k)) = Some ((?pa k AND PHYSADDR_MASK) OR flags)"
  proof -
    have "vpath (?va k) \<noteq> vpath (?va l)" if "Suc k \<le> l \<and> l < ?N" for l
      using vpath_inj [of vs k l] that k N by auto
    then show ?thesis using 2(4) 1(4) dir_path_ok [of "?va k"] by simp
  qed
  then have "\<forall>l. k \<le> l \<and> l < ?N \<longrightarrow> leaf hhdm (pmem st2) root (dir_path (?va l)) (pt_index (?va l)) =
         Some ((?pa l AND PHYSADDR_MASK) OR flags)"
    using 2(3) by (metis Suc_leI le_neq_implies_less)
  moreover have "\<forall>q j. path_ok q \<and> length q = 3 \<and> j < 512 \<and> (\<forall>l. k \<le> l \<and> l < ?N \<longrightarrow> (q, j) \<noteq> vpath (?va l)) \<longrightarrow>
         leaf hhdm (pmem st2) root q j = leaf hhdm (pmem st) root q j"
    using 2(4) 1(5) k by simp
  ultimately show ?case using 2(2) by blast
qed

end

text \<open>\<^verbatim>\<open>find_page_using_alloc\<close> takes the frame of a new page directly from the frame allocator, from the same
  supply.\<close>

locale page_alloc = table_alloc +
  assumes frame_law: "pages st (u # us) \<Longrightarrow>
      \<exists>ph. find_next_free_frame (pphys st) = Inr (u - hhdm, ph) \<and> pages (st\<lparr>pphys := ph\<rparr>) us"
    and frame_nonzero: "pages st us \<Longrightarrow> u \<in> set us \<Longrightarrow> u \<noteq> hhdm"
begin

lemma mask_low: "drop_bit 12 v = 0 \<Longrightarrow> v AND PHYSADDR_MASK = 0"
proof -
  assume "drop_bit 12 v = 0"
  then have "v = v AND mask 12" using bits_ident [of 12 v] by (simp add: take_bit_eq_mask)
  then have "v AND PHYSADDR_MASK = v AND (mask 12 AND PHYSADDR_MASK)" by (metis and.assoc)
  also have "\<dots> = 0" by (simp add: PHYSADDR_MASK_def mask_eq_exp_minus_1)
  finally show ?thesis .
qed

lemma new_entry:
  fixes a e :: u64 and u w :: bool
  assumes "a AND PHYSADDR_MASK = a" "a \<noteq> 0" "a AND 4095 = 0"
  defines "e1 \<equiv> set_bit_field PAGE_FLAG_USER u (set_bit_field PAGE_FLAG_WRITE w (set_bit_field PAGE_FLAG_PRESENT True e))"
  shows "present (set_frame_field (drop_bit 12 a) e1)" "set_frame_field (drop_bit 12 a) e1 AND PHYSADDR_MASK = a"
    "drop_bit 12 (set_frame_field (drop_bit 12 a) e1) \<noteq> 0"
proof -
  let ?e = e1 and ?v = "set_frame_field (drop_bit 12 a) e1"
  have "push_bit 12 (drop_bit 12 a) = a"
    using bits_ident [of 12 a] assms(3) by (simp add: and_4095 take_bit_eq_mod)
  then have v: "?v = (?e AND NOT PHYSADDR_MASK) OR a" by (simp add: set_frame_field_def assms(1))
  have np: "NOT PHYSADDR_MASK AND PAGE_FLAG_PRESENT = PAGE_FLAG_PRESENT" by (simp add: page_flag_defs)
  have "present ?e" by (simp add: e1_def set_bit_field_def page_flag_defs bit.conj_disj_distrib2 and.assoc)
  have "a AND PAGE_FLAG_PRESENT = a AND (PHYSADDR_MASK AND PAGE_FLAG_PRESENT)" by (metis assms(1) and.assoc)
  also have "\<dots> = 0" by (simp add: page_flag_defs)
  finally have "?v AND PAGE_FLAG_PRESENT = ?e AND PAGE_FLAG_PRESENT"
    unfolding v by (simp add: bit.conj_disj_distrib2 and.assoc np)
  then show "present ?v" using \<open>present ?e\<close> by simp
  show m: "?v AND PHYSADDR_MASK = a" unfolding v using assms(1) by (simp add: bit.conj_disj_distrib2 and.assoc)
  show "drop_bit 12 ?v \<noteq> 0" using mask_low [of ?v] m assms(2) by auto
qed

lemma find_page_law:
  assumes tb: "tables root us st" and us: "4 \<le> length us"
  shows "\<exists>pg st' us' e. find_page_using_alloc hhdm va True alloc_func user root st = Inr (pg, st') \<and> pg \<noteq> 0 \<and>
           tables root us' st' \<and> (\<exists>k\<le>4. us' = drop k us) \<and> pmem st' pg = e \<and>
           leaf hhdm (pmem st') root (dir_path va) (pt_index va) = Some e \<and>
           (case leaf hhdm (pmem st) root (dir_path va) (pt_index va) of
              Some e0 \<Rightarrow> e = e0 | None \<Rightarrow> \<exists>u\<in>set us. u \<notin> set us' \<and> e AND PHYSADDR_MASK = u - hhdm) \<and>
           (\<forall>q j. path_ok q \<and> length q = 3 \<and> j < 512 \<and> (q, j) \<noteq> vpath va \<longrightarrow>
              leaf hhdm (pmem st') root q j = leaf hhdm (pmem st) root q j)"
proof -
  obtain a b c where s: "addr_split va = (a, b, c, pt_index va)" "dir_path va = [a, b, c]"
    by (rule addr_split_path)
  let ?fl = "table_flags user" and ?i = "pt_index va"
  let ?level = "next_table hhdm True alloc_func user ?fl"
  have f: "flags_ok ?fl" by (simp add: flags_ok_def table_flags_def page_flag_defs)
  have us3: "3 \<le> length us" using us by simp
  obtain t1 st1 t2 st2 t3 st3 us3 where l: "?level root a st = Inr (Some t1, st1)"
    "?level t1 b st1 = Inr (Some t2, st2)" "?level t2 c st2 = Inr (Some t3, st3)"
    and 3: "tables root us3 st3" "\<exists>k\<le>3. us3 = drop k us" "walk hhdm (pmem st3) root (dir_path va) = Some t3"
    and same: "\<forall>q j. path_ok q \<and> length q = 3 \<and> j < 512 \<longrightarrow>
      leaf hhdm (pmem st3) root q j = leaf hhdm (pmem st) root q j"
    using levels_law [OF tb us3 f s, of user] by blast
  let ?e = "pmem st3 (entry_addr t3 ?i)" and ?pg = "entry_addr t3 ?i"
  have lf: "leaf hhdm (pmem st) root (dir_path va) ?i = (if present ?e then Some ?e else None)"
  proof -
    have "leaf hhdm (pmem st) root (dir_path va) ?i = leaf hhdm (pmem st3) root (dir_path va) ?i"
      using same dir_path_ok [of va] by simp
    then show ?thesis using 3(3) by (simp add: leaf_def)
  qed
  have root: "root \<noteq> 0"
    using tb tree_okD(2) [of hhdm "pmem st" root us "[]" root] by (simp add: tables_def path_ok_def)
  have nz: "t3 \<noteq> 0" "?pg \<noteq> 0" using set_leaf_law(4,5) [OF 3(1,3), of PAGE_FLAG_PRESENT] by (simp_all add: page_flag_defs)
  have run: "find_page_using_alloc hhdm va True alloc_func user root st =
      (if present ?e then Inr (?pg, st3)
       else bindR (alloc_page_frame ?pg user True st3) (\<lambda>st4.
              if drop_bit 12 (pmem st4 ?pg) = 0 then Inr (0, st4) else Inr (?pg, st4)))"
    using l nz(1) root by (simp add: find_page_using_alloc_def s(1) rd_def Let_def)
  show ?thesis
  proof (cases "present ?e")
    case True
    obtain k where "k \<le> 3" "us3 = drop k us" using 3(2) by auto
    then have "\<exists>k\<le>4. us3 = drop k us" by (intro exI [of _ k]) simp
    moreover have "leaf hhdm (pmem st3) root (dir_path va) ?i = Some ?e" using True 3(3) by (simp add: leaf_def)
    ultimately show ?thesis using True run nz(2) 3(1) same lf by auto
  next
    case False
    obtain u vs where uv: "us3 = u # vs" using 3(2) us by (cases us3) auto
    have pg3: "pages st3 (u # vs)" using 3(1) uv by (simp add: tables_def)
    obtain ph where ph: "find_next_free_frame (pphys st3) = Inr (u - hhdm, ph)" "pages (st3\<lparr>pphys := ph\<rparr>) vs"
      using frame_law [OF pg3] by blast
    have u: "page_aligned u" "u \<noteq> hhdm" "(u - hhdm) AND PHYSADDR_MASK = u - hhdm" "u \<notin> set vs"
      using pages_law [OF pg3] frame_nonzero [OF pg3] by auto
    let ?e1 = "set_bit_field PAGE_FLAG_USER user (set_bit_field PAGE_FLAG_WRITE True (set_bit_field PAGE_FLAG_PRESENT True ?e))"
    let ?v = "set_frame_field (drop_bit 12 (u - hhdm)) ?e1"
    have "(u - hhdm) AND 4095 = (u - hhdm) AND (PHYSADDR_MASK AND 4095)" by (metis u(3) and.assoc)
    then have "(u - hhdm) AND 4095 = 0" by (simp add: PHYSADDR_MASK_def)
    then have v: "present ?v" "?v AND PHYSADDR_MASK = u - hhdm" "drop_bit 12 ?v \<noteq> 0"
      using new_entry [OF u(3)] u(2) by auto
    let ?st = "(wr ?pg ?v st3)\<lparr>pphys := ph\<rparr>"
    have "alloc_page_frame ?pg user True st3 = Inr ?st"
      using ph(1) by (simp add: alloc_page_frame_def wr_def Let_def)
    then have eq: "find_page_using_alloc hhdm va True alloc_func user root st = Inr (?pg, ?st)"
      using run False v(3) by (simp add: wr_def)
    note w = set_leaf_law [OF 3(1,3) v(1)]
    have ok4: "tree_ok hhdm (pmem ?st) root us3" using w(1) by (simp add: tables_def)
    have "pages ?st vs" using pages_mem [OF ph(2), of "pmem (wr ?pg ?v st3)"] by (cases st3) (simp add: wr_def)
    then have tb4: "tables root vs ?st" using tree_ok_tl [OF ok4 [unfolded uv]] by (simp add: tables_def)
    obtain k where k: "k \<le> 3" "u # vs = drop k us" using 3(2) uv by auto
    then have "vs = drop (Suc k) us" by (metis drop_Suc list.sel(3) tl_drop)
    then have d: "\<exists>k\<le>4. vs = drop k us" using k(1) by (intro exI [of _ "Suc k"]) simp
    have "u \<in> set us" using 3(2) uv by (metis in_set_dropD list.set_intros(1))
    then show ?thesis
      using eq nz(2) tb4 d w(2,3) v(2) u(4) same lf False
      by (intro exI [of _ ?pg] exI [of _ ?st] exI [of _ vs] exI [of _ ?v]) (auto simp: wr_def)
  qed
qed

end

section \<open>Tables from the frame allocator\<close>

text \<open>The pages behind the free frames of the frame allocator, where the fixed mapping of physical memory
  does not wrap and frame 0, whose address the code takes for a failure, is not free.\<close>

definition frame_page :: "u64 \<Rightarrow> nat \<Rightarrow> u64" where "frame_page hhdm i = push_bit 12 (of_nat i) + hhdm"

definition node_pages :: "u64 \<Rightarrow> nat \<Rightarrow> paging \<Rightarrow> u64 list \<Rightarrow> bool" where
  "node_pages hhdm n st us \<longleftrightarrow>
     page_aligned hhdm \<and> unat hhdm + 4096 * n \<le> 2 ^ 64 \<and>
     (\<exists>is. free_list n (pphys st) is \<and> 0 \<notin> set is \<and> us = map (frame_page hhdm) is)"

lemma unat_frame: "i < 2 ^ 36 \<Longrightarrow> unat (push_bit 12 (of_nat i) :: u64) = 4096 * i"
  by (simp add: push_bit_eq_mult unat_word_ariths unat_of_nat)

lemma unat_frame_page:
  "i < 2 ^ 36 \<Longrightarrow> i < n \<Longrightarrow> unat hhdm + 4096 * n \<le> 2 ^ 64 \<Longrightarrow> unat (frame_page hhdm i) = 4096 * i + unat hhdm"
  by (simp add: frame_page_def unat_word_ariths unat_frame)

lemma frame_mask:
  assumes "i < 2 ^ 36" shows "push_bit 12 (of_nat i :: u64) AND PHYSADDR_MASK = push_bit 12 (of_nat i)"
proof -
  have m: "PHYSADDR_MASK = push_bit 12 (mask 40)"
    by (simp add: PHYSADDR_MASK_def mask_eq_exp_minus_1 push_bit_eq_mult)
  have "unat (take_bit 40 (of_nat i :: u64)) = unat (of_nat i :: u64)"
    using assms by (simp add: unsigned_take_bit_eq unat_of_nat take_bit_nat_eq_self)
  then have "take_bit 40 (of_nat i :: u64) = of_nat i" by (simp only: word_unat_eq_iff)
  then show ?thesis by (simp add: m push_bit_and [symmetric] take_bit_eq_mask)
qed

lemma node_pages_law:
  assumes "node_pages hhdm n st us"
  shows "distinct us \<and> (\<forall>u\<in>set us. page_aligned u \<and> u \<noteq> 0 \<and> u \<noteq> hhdm \<and> (u - hhdm) AND PHYSADDR_MASK = u - hhdm)"
proof -
  obtain "is" where h: "page_aligned hhdm" "unat hhdm + 4096 * n \<le> 2 ^ 64" "free_list n (pphys st) is"
    "0 \<notin> set is" "us = map (frame_page hhdm) is"
    using assms by (auto simp: node_pages_def)
  have d: "distinct is" "\<forall>i\<in>set is. i < 2 ^ 36" using pf.pool_law [OF h(3)] by auto
  have "\<forall>i\<in>set is. i < n" using h(3) by (auto simp: free_list_def)
  then have u: "unat (frame_page hhdm i) = 4096 * i + unat hhdm" if "i \<in> set is" for i
    using unat_frame_page d(2) that h(2) by blast
  have "inj_on (frame_page hhdm) (set is)"
  proof (rule inj_onI)
    fix i j assume "i \<in> set is" "j \<in> set is" "frame_page hhdm i = frame_page hhdm j"
    then have "4096 * i + unat hhdm = 4096 * j + unat hhdm" using u by metis
    then show "i = j" by simp
  qed
  then have "distinct us" using d(1) h(5) by (simp add: distinct_map)
  moreover have "page_aligned (frame_page hhdm i) \<and> frame_page hhdm i \<noteq> 0 \<and> frame_page hhdm i \<noteq> hhdm \<and>
      (frame_page hhdm i - hhdm) AND PHYSADDR_MASK = frame_page hhdm i - hhdm" if i: "i \<in> set is" for i
  proof -
    have "i \<noteq> 0" using i h(4) by metis
    moreover have "4096 dvd unat hhdm" using h(1) by (simp add: page_aligned_unat)
    moreover have "frame_page hhdm i - hhdm = push_bit 12 (of_nat i)" by (simp add: frame_page_def)
    moreover have "unat (frame_page hhdm i) \<noteq> unat hhdm" "unat (frame_page hhdm i) \<noteq> 0"
      using u [OF i] \<open>i \<noteq> 0\<close> by simp_all
    ultimately show ?thesis using u [OF i] frame_mask [of i] d(2) i by (auto simp: page_aligned_unat)
  qed
  ultimately show ?thesis using h(5) by auto
qed

lemma node_draw:
  assumes "node_pages hhdm n st (u # us)"
  shows "\<exists>ph. find_next_free_frame (pphys st) = Inr (u - hhdm, ph) \<and> u - hhdm \<noteq> 0 \<and>
           node_pages hhdm n (st\<lparr>pphys := ph\<rparr>) us"
proof -
  obtain i "is" where h: "page_aligned hhdm" "unat hhdm + 4096 * n \<le> 2 ^ 64" "free_list n (pphys st) (i # is)"
    "0 \<notin> set (i # is)" "us = map (frame_page hhdm) is" "u = frame_page hhdm i"
    using assms by (auto simp: node_pages_def)
  obtain ph where "find_next_free_frame (pphys st) = Inr (push_bit 12 (of_nat i), ph)" "free_list n ph is"
    using pf.draw_law [OF h(3)] by blast
  moreover have "u - hhdm = push_bit 12 (of_nat i)" using h(6) by (simp add: frame_page_def)
  moreover have "u - hhdm \<noteq> 0" using node_pages_law [OF assms] by auto
  ultimately show ?thesis using h by (auto simp: node_pages_def)
qed

interpretation nodes: page_alloc hhdm "node_pages hhdm n" "alloc_paging_node hhdm" for hhdm n
proof unfold_locales
  fix st u us assume a: "node_pages hhdm n st (u # us)"
  obtain ph where ph: "find_next_free_frame (pphys st) = Inr (u - hhdm, ph)" "u - hhdm \<noteq> 0"
    "node_pages hhdm n (st\<lparr>pphys := ph\<rparr>) us"
    using node_draw [OF a] by blast
  then show "\<exists>st'. alloc_paging_node hhdm st = Inr (u, st') \<and> node_pages hhdm n st' us \<and>
      pmem st' = zero_page u (pmem st)"
    by (simp add: alloc_paging_node_def phys_to_virt_def node_pages_def)
  show "\<exists>ph. find_next_free_frame (pphys st) = Inr (u - hhdm, ph) \<and> node_pages hhdm n (st\<lparr>pphys := ph\<rparr>) us"
    using ph by blast
next
  fix st us assume "node_pages hhdm n st us"
  then show "distinct us \<and> (\<forall>u\<in>set us. page_aligned u \<and> u \<noteq> 0 \<and> (u - hhdm) AND PHYSADDR_MASK = u - hhdm)"
    using node_pages_law by blast
next
  fix st us u assume "node_pages hhdm n st us" "u \<in> set us"
  then show "u \<noteq> hhdm" using node_pages_law by blast
next
  fix st us and m :: "u64 \<Rightarrow> u64" assume "node_pages hhdm n st us"
  then show "node_pages hhdm n (st\<lparr>pmem := m\<rparr>) us" by (simp add: node_pages_def)
qed

section \<open>Properties\<close>

text \<open>A well-formed address space: the tree of tables at \<open>root\<close> is free of sharing, and the free frames of
  the frame allocator give the pages \<open>us\<close>, none of which is a table.\<close>

definition space_ok :: "u64 \<Rightarrow> nat \<Rightarrow> u64 \<Rightarrow> u64 list \<Rightarrow> paging \<Rightarrow> bool" where
  "space_ok hhdm n root us st \<longleftrightarrow> node_pages hhdm n st us \<and> tree_ok hhdm (pmem st) root us"

lemma space_tables: "space_ok hhdm n root us st = nodes.tables hhdm n root us st"
  by (simp add: space_ok_def nodes.tables_def)

lemma same_translation:
  assumes "space_ok hhdm n root us st" "space_ok hhdm n root us' st'"
    "leaf hhdm (pmem st') root (dir_path va) (pt_index va) = leaf hhdm (pmem st) root (dir_path va) (pt_index va)"
  shows "get_physaddr hhdm va root st' = get_physaddr hhdm va root st"
proof -
  have "tree_ok hhdm (pmem st) root us" "tree_ok hhdm (pmem st') root us'" using assms(1,2) by (simp_all add: space_ok_def)
  then show ?thesis using assms(3) by (simp only: get_physaddr_leaf)
qed

text \<open>An empty address space in a machine of nine frames: the root table is frame 0, the others are free.\<close>

definition small_hhdm :: u64 where "small_hhdm = 0xFFFF800000000000"

definition small_phys :: phys_mem where
  "small_phys = \<lparr>frame_map = 4096, map_next_free = 4108, map_size = 108,
     frames = [4096 \<mapsto> taken_frame,
               4108 \<mapsto> \<lparr>prev_free = 0, next_free = 2, fr_flags = FRAME_FLAG_USABLE\<rparr>,
               4120 \<mapsto> \<lparr>prev_free = 1, next_free = 3, fr_flags = FRAME_FLAG_USABLE\<rparr>,
               4132 \<mapsto> \<lparr>prev_free = 2, next_free = 4, fr_flags = FRAME_FLAG_USABLE\<rparr>,
               4144 \<mapsto> \<lparr>prev_free = 3, next_free = 5, fr_flags = FRAME_FLAG_USABLE\<rparr>,
               4156 \<mapsto> \<lparr>prev_free = 4, next_free = 6, fr_flags = FRAME_FLAG_USABLE\<rparr>,
               4168 \<mapsto> \<lparr>prev_free = 5, next_free = 7, fr_flags = FRAME_FLAG_USABLE\<rparr>,
               4180 \<mapsto> \<lparr>prev_free = 6, next_free = 8, fr_flags = FRAME_FLAG_USABLE\<rparr>,
               4192 \<mapsto> \<lparr>prev_free = 7, next_free = 0, fr_flags = FRAME_FLAG_USABLE\<rparr>],
     pm_locked = False\<rparr>"

definition small_space :: paging where "small_space = \<lparr>pmem = (\<lambda>_. 0), pphys = small_phys\<rparr>"

definition small_pages :: "u64 list" where "small_pages = map (frame_page small_hhdm) [1, 2, 3, 4, 5, 6, 7, 8]"

lemma small_phys_free: "free_list 9 small_phys [1, 2, 3, 4, 5, 6, 7, 8]"
proof -
  have "{..<9} = {0, 1, 2, 3, 4, 5, 6, 7, 8 :: nat}" by auto
  then show ?thesis
    by (auto simp: free_list_def table_ok_def small_phys_def decode_struct_frame_ptr_def SIZEOF_FRAME_def)
qed

lemma small_space_ok: "space_ok small_hhdm 9 small_hhdm small_pages small_space"
proof -
  have w: "walk small_hhdm (\<lambda>_. 0) small_hhdm p = Some t \<Longrightarrow> p = [] \<and> t = small_hhdm" for p t
    by (cases p) auto
  have "node_pages small_hhdm 9 small_space small_pages"
    using small_phys_free
    by (auto simp: node_pages_def small_space_def small_pages_def small_hhdm_def page_aligned_def
        intro!: exI [of _ "[1, 2, 3, 4, 5, 6, 7, 8]"])
  moreover have "page_aligned small_hhdm" "small_hhdm \<noteq> 0" "small_hhdm \<notin> set small_pages"
    by (simp_all add: small_hhdm_def page_aligned_def small_pages_def frame_page_def push_bit_eq_mult)
  then have "tree_ok small_hhdm (\<lambda>_. 0) small_hhdm small_pages"
    unfolding tree_ok_def by (auto dest!: w)
  ultimately show ?thesis by (simp add: space_ok_def small_space_def)
qed





text \<open>A table created for a user page is entered without the user bit: the flags for new tables are the
  same for user and kernel pages, since the user flag enters them as a truth value. The processor then
  denies user access until a later walk through an existing entry sets the bit.\<close>

lemma new_table_not_user:
  assumes "node_pages hhdm n st (u # us)" "table \<noteq> 0" "\<not> present (pmem st (entry_addr table i))"
  shows "\<exists>st'. next_table hhdm True (alloc_paging_node hhdm) True (table_flags True) table i st = Inr (Some u, st') \<and>
           pmem st' (entry_addr table i) AND PAGE_FLAG_USER = 0"
proof -
  obtain st1 where st1: "alloc_paging_node hhdm st = Inr (u, st1)"
    using nodes.alloc_law [OF assms(1)] by blast
  have m: "(u - hhdm) AND PHYSADDR_MASK = u - hhdm" using node_pages_law [OF assms(1)] by simp
  have "(u - hhdm) AND PAGE_FLAG_USER = (u - hhdm) AND (PHYSADDR_MASK AND PAGE_FLAG_USER)" by (metis m and.assoc)
  also have "\<dots> = 0" by (simp add: page_flag_defs)
  finally have "((u - hhdm) OR table_flags True) AND PAGE_FLAG_USER = 0"
    by (simp add: bit.conj_disj_distrib2 table_flags_def page_flag_defs)
  then show ?thesis using st1 assms(2,3) by (simp add: next_table_def rd_def wr_def virt_to_phys_def)
qed

end
