(* ===== verification/Paths.thy ===== *)
theory Paths
  imports Prelude
begin

text \<open>
  Strings, permissions and path names: \<^verbatim>\<open>src/lib/string.c\<close>, \<^verbatim>\<open>src/lib/mode.c\<close> and the path helpers of
  \<^verbatim>\<open>src/syscall/syscall_helpers.c\<close>. A C string is seen as the list of characters from its address on;
  reading past the end of the list is a bad access. Inside the path helpers a string is the list of its
  characters before the terminator, and an index into it is the suffix that starts there. Buffers of
  \<^verbatim>\<open>PATH_MAX\<close> bytes are lists with an explicit check of every write.

  The main theorem states that \<^verbatim>\<open>collapse_path\<close> computes the canonical form of an absolute path: empty
  components and \<^verbatim>\<open>.\<close> disappear and \<^verbatim>\<open>..\<close> removes the component before it.
\<close>

section \<open>String routines\<close>

definition NUL :: char where "NUL = CHR 0x00"

fun strncmp :: "string \<Rightarrow> string \<Rightarrow> nat \<Rightarrow> int kres" where
  "strncmp s1 s2 0 = Inr 0"
| "strncmp (a # s1) (b # s2) (Suc n) =
     (if a \<noteq> NUL \<and> a = b then strncmp s1 s2 n
      else Inr (int (of_char a) - int (of_char b)))"
| "strncmp s1 s2 (Suc n) = Inl BadAccess"

fun strlen :: "string \<Rightarrow> nat kres" where
  "strlen [] = Inl BadAccess"
| "strlen (c # cs) = (if c = NUL then Inr 0 else bindR (strlen cs) (\<lambda>n. Inr (Suc n)))"

text \<open>\<^verbatim>\<open>memcpy\<close> into the buffer \<open>dest\<close> at an offset, and the store of one byte.\<close>

definition buf_write :: "nat \<Rightarrow> string \<Rightarrow> string \<Rightarrow> string kres" where
  "buf_write off xs dest =
     (if off + length xs \<le> length dest then Inr (take off dest @ xs @ drop (off + length xs) dest)
      else Inl BadAccess)"

definition strncpy :: "string \<Rightarrow> string \<Rightarrow> nat \<Rightarrow> string kres" where
  "strncpy dest src n =
     (if n = 0 then Inr dest
      else bindR (strlen src) (\<lambda>len.
        if n \<le> len then buf_write 0 (take n src) dest
        else bindR (buf_write 0 (take len src) dest) (\<lambda>d. buf_write len (replicate (n - len) NUL) d)))"

text \<open>\<^verbatim>\<open>strtok\<close> on one buffer; pointers into it are indices, \<open>olds\<close> is the static variable. \<open>delim\<close> is the list of
  delimiters before the terminator, or \<open>None\<close> for \<^verbatim>\<open>NULL\<close>.\<close>

definition strtok ::
    "string \<Rightarrow> nat option \<Rightarrow> nat option \<Rightarrow> string option \<Rightarrow> (nat option \<times> string \<times> nat option) kres" where
  "strtok buf olds str delim =
     (case (case str of None \<Rightarrow> olds | Some p \<Rightarrow> Some p) of
        None \<Rightarrow> Inr (None, buf, olds)
      | Some p \<Rightarrow>
          if delim = None then Inr (None, buf, olds)
          else
          let isd = (\<lambda>c. c \<noteq> NUL \<and> c \<in> set (the delim));
              p1 = p + length (takeWhile isd (drop p buf))
          in if length buf \<le> p1 then Inl BadAccess
             else if buf ! p1 = NUL then Inr (None, buf, None)
             else
               let p2 = p1 + length (takeWhile (\<lambda>c. c \<noteq> NUL \<and> \<not> isd c) (drop p1 buf))
               in if length buf \<le> p2 then Inl BadAccess
                  else if buf ! p2 = NUL then Inr (Some p1, buf, None)
                  else Inr (Some p1, buf[p2 := NUL], Some (p2 + 1)))"

section \<open>Permissions\<close>

type_synonym mode_t = u16

definition S_IRUSR :: mode_t where "S_IRUSR = 0x100"
definition S_IWUSR :: mode_t where "S_IWUSR = 0x80"
definition S_IXUSR :: mode_t where "S_IXUSR = 0x40"
definition S_IXGRP :: mode_t where "S_IXGRP = 0x8"
definition S_IROTH :: mode_t where "S_IROTH = 0x4"
definition S_IWOTH :: mode_t where "S_IWOTH = 0x2"
definition S_IXOTH :: mode_t where "S_IXOTH = 0x1"
definition ACCESS_READ :: mode_t where "ACCESS_READ = 4"
definition ACCESS_WRITE :: mode_t where "ACCESS_WRITE = 2"
definition ACCESS_EXECUTE :: mode_t where "ACCESS_EXECUTE = 1"

lemmas mode_defs = S_IRUSR_def S_IWUSR_def S_IXUSR_def S_IXGRP_def S_IROTH_def S_IWOTH_def S_IXOTH_def
  ACCESS_READ_def ACCESS_WRITE_def ACCESS_EXECUTE_def

definition add_if :: "bool \<Rightarrow> mode_t \<Rightarrow> mode_t \<Rightarrow> mode_t" where
  "add_if b bits access = (if b then access OR bits else access)"

definition access_check :: "mode_t \<Rightarrow> u32 \<Rightarrow> u32 \<Rightarrow> u32 \<Rightarrow> mode_t" where
  "access_check original_mode file_uid file_gid process_uid =
     (if process_uid = 0 then
        add_if (original_mode AND (S_IXUSR OR S_IXGRP OR S_IXOTH) \<noteq> 0) ACCESS_EXECUTE
          (0 OR (ACCESS_READ OR ACCESS_WRITE))
      else if process_uid = file_uid then
        add_if (original_mode AND S_IXUSR \<noteq> 0) ACCESS_EXECUTE
          (add_if (original_mode AND S_IWUSR \<noteq> 0) ACCESS_WRITE
            (add_if (original_mode AND S_IRUSR \<noteq> 0) ACCESS_READ 0))
      else
        add_if (original_mode AND S_IXOTH \<noteq> 0) ACCESS_EXECUTE
          (add_if (original_mode AND S_IWOTH \<noteq> 0) ACCESS_WRITE
            (add_if (original_mode AND S_IROTH \<noteq> 0) ACCESS_READ 0)))"

section \<open>Path helpers\<close>

definition PATH_MAX :: nat where "PATH_MAX = 4096"

abbreviation slash :: char where "slash \<equiv> CHR ''/''"
abbreviation dot :: char where "dot \<equiv> CHR ''.''"

text \<open>The result is \<open>Inl\<close> of a negative errno or \<open>Inr\<close> of the string left in \<^verbatim>\<open>out\<close>. The copy of an absolute
  path is cut at the size of the buffer.\<close>

definition handle_relative_path :: "string \<Rightarrow> string \<Rightarrow> int + string" where
  "handle_relative_path rel cwd =
     (if rel \<noteq> [] \<and> hd rel = slash then Inr (take (PATH_MAX - 1) rel)
      else if cwd = [] then
        if PATH_MAX < length rel + 2 then Inl (- ENAMETOOLONG) else Inr (slash # rel)
      else if PATH_MAX < length cwd + length rel + 2 then Inl (- ENAMETOOLONG)
      else Inr (cwd @ [slash] @ rel))"

text \<open>\<open>push\<close> appends to \<^verbatim>\<open>temp\<close>, which holds \<^verbatim>\<open>out_idx\<close> characters.\<close>

definition push :: "string \<Rightarrow> string \<Rightarrow> string kres" where
  "push out xs = (if length out + length xs \<le> PATH_MAX then Inr (out @ xs) else Inl BadAccess)"

text \<open>\<^verbatim>\<open>while (out_idx > 0 && temp[out_idx - 1] != '/') out_idx--;\<close>\<close>

definition drop_to_slash :: "string \<Rightarrow> string" where
  "drop_to_slash out = rev (dropWhile (\<lambda>c. c \<noteq> slash) (rev out))"

function collapse_loop :: "string \<Rightarrow> string \<Rightarrow> string kres" where
  "collapse_loop rest out =
     (case rest of
        [] \<Rightarrow> Inr out
      | c # cs \<Rightarrow>
          if c = slash then
            bindR (if out = [] \<or> last out \<noteq> slash then push out [slash] else Inr out)
              (collapse_loop (dropWhile (\<lambda>x. x = slash) cs))
          else if c = dot \<and> (cs = [] \<or> hd cs = slash) then collapse_loop cs out
          else if c = dot \<and> cs \<noteq> [] \<and> hd cs = dot \<and> (tl cs = [] \<or> hd (tl cs) = slash) then
            collapse_loop (tl cs)
              (if 1 < length out then drop_to_slash (butlast out) else out)
          else
            bindR (push out (takeWhile (\<lambda>x. x \<noteq> slash) (c # cs)))
              (collapse_loop (dropWhile (\<lambda>x. x \<noteq> slash) cs)))"
  by pat_completeness auto
termination
  by (relation "measure (\<lambda>(rest, out). length rest)")
    (auto simp: le_imp_less_Suc length_dropWhile_le)

declare collapse_loop.simps [simp del]

text \<open>The trailing slash is removed unless it is the root.\<close>

definition strip_slash :: "string \<Rightarrow> string" where
  "strip_slash out = (if 1 < length out \<and> last out = slash then butlast out else out)"

definition collapse_path :: "bool \<Rightarrow> string \<Rightarrow> (int + string) kres" where
  "collapse_path kmalloc_ok path_in =
     (if \<not> kmalloc_ok then Inr (Inl (- ENOMEM))
      else bindR (collapse_loop path_in []) (\<lambda>out.
        let out1 = strip_slash out in
        if PATH_MAX \<le> length out1 then Inl BadAccess
        else Inr (Inr (take (PATH_MAX - 1) out1))))"

section \<open>Canonical paths\<close>

text \<open>The components of a path, empty ones included, and what each does to the components before it.\<close>

fun split_path :: "string \<Rightarrow> string list" where
  "split_path [] = [[]]"
| "split_path (c # cs) =
     (if c = slash then [] # split_path cs else (c # hd (split_path cs)) # tl (split_path cs))"

definition step_comp :: "string list \<Rightarrow> string \<Rightarrow> string list" where
  "step_comp st w = (if w = [] \<or> w = [dot] then st else if w = [dot, dot] then butlast st else st @ [w])"

definition canon :: "string \<Rightarrow> string list" where
  "canon p = foldl step_comp [] (split_path p)"

definition render :: "string list \<Rightarrow> string" where
  "render cs = (if cs = [] then [slash] else concat (map (\<lambda>c. slash # c) cs))"

lemma split_path_nonempty [simp]: "split_path p \<noteq> []"
  by (induction p) auto

lemma split_takeWhile:
  "split_path p =
     takeWhile (\<lambda>x. x \<noteq> slash) p #
     (case dropWhile (\<lambda>x. x \<noteq> slash) p of [] \<Rightarrow> [] | _ # r \<Rightarrow> split_path r)"
  by (induction p) auto

lemma foldl_skip_slashes:
  "foldl step_comp st (split_path (dropWhile (\<lambda>x. x = slash) p)) = foldl step_comp st (split_path p)"
  by (induction p) (auto simp: step_comp_def)

lemma foldl_after_comp:
  assumes "r = [] \<or> hd r = slash"
  shows "foldl step_comp st (case r of [] \<Rightarrow> [] | _ # r' \<Rightarrow> split_path r') = foldl step_comp st (split_path r)"
  using assms by (cases r) (auto simp: step_comp_def)

text \<open>\<open>open_form st\<close> is what the loop has written when it has read the components \<open>st\<close> and a slash.\<close>

definition open_form :: "string list \<Rightarrow> string" where
  "open_form st = slash # concat (map (\<lambda>c. c @ [slash]) st)"

lemma open_form_snoc [simp]: "open_form (st @ [w]) = open_form st @ w @ [slash]"
  by (simp add: open_form_def)

lemma open_form_last [simp]: "open_form st \<noteq> []" "last (open_form st) = slash"
  by (induction st rule: rev_induct) (auto simp: open_form_def)

lemma concat_shift: "slash # concat (map (\<lambda>c. c @ [slash]) st) = concat (map (\<lambda>c. slash # c) st) @ [slash]"
  by (induction st) auto

lemma open_form_shift: "open_form st = concat (map (\<lambda>c. slash # c) st) @ [slash]"
  by (simp only: open_form_def concat_shift)

lemma strip_open: "strip_slash (open_form st) = render st"
proof (cases st rule: rev_cases)
  case Nil
  then show ?thesis by (simp add: strip_slash_def open_form_def render_def)
next
  case (snoc xs x)
  then have "1 < length (open_form st)" by (simp add: open_form_def)
  then show ?thesis
    using snoc by (simp add: strip_slash_def render_def open_form_shift butlast_append)
qed

lemma strip_comp: "w \<noteq> [] \<Longrightarrow> slash \<notin> set w \<Longrightarrow> strip_slash (open_form st @ w) = render (st @ [w])"
proof -
  assume w: "w \<noteq> []" "slash \<notin> set w"
  then have "last (open_form st @ w) \<noteq> slash" using last_in_set by fastforce
  then have "strip_slash (open_form st @ w) = open_form st @ w" by (simp add: strip_slash_def)
  also have "\<dots> = render (st @ [w])" by (simp add: open_form_def concat_shift render_def)
  finally show ?thesis .
qed

lemma while_word:
  assumes "slash \<notin> set w"
  shows "takeWhile (\<lambda>x. x \<noteq> slash) (w @ r) = w @ takeWhile (\<lambda>x. x \<noteq> slash) r"
    "dropWhile (\<lambda>x. x \<noteq> slash) (w @ r) = dropWhile (\<lambda>x. x \<noteq> slash) r"
  using assms by (induction w) auto

lemma drop_to_slash_open:
  assumes "slash \<notin> set w" shows "drop_to_slash (open_form st @ w) = open_form st"
proof -
  have "slash \<notin> set (rev w)" using assms by simp
  then show ?thesis by (simp add: drop_to_slash_def open_form_shift while_word)
qed

definition comp_ok :: "string \<Rightarrow> bool" where "comp_ok w \<longleftrightarrow> w \<noteq> [] \<and> slash \<notin> set w"

lemma back_up:
  assumes "\<forall>w\<in>set st. comp_ok w"
  shows "(if 1 < length (open_form st) then drop_to_slash (butlast (open_form st)) else open_form st) =
           open_form (butlast st)"
proof (cases st rule: rev_cases)
  case Nil
  then show ?thesis by (simp add: open_form_def)
next
  case (snoc xs x)
  then have "slash \<notin> set x" using assms by (simp add: comp_ok_def)
  moreover have "1 < length (open_form st)" using snoc by (simp add: open_form_def)
  ultimately show ?thesis
    using snoc drop_to_slash_open [of x xs] by (simp add: butlast_append)
qed

text \<open>One component of the input.\<close>

lemma collapse_word:
  assumes w: "w \<noteq> []" "slash \<notin> set w" and r: "r = [] \<or> hd r = slash"
  shows "collapse_loop (w @ r) out =
           (if w = [dot] then collapse_loop r out
            else if w = [dot, dot] then collapse_loop r (if 1 < length out then drop_to_slash (butlast out) else out)
            else bindR (push out w) (collapse_loop r))"
proof -
  obtain c v where c: "w = c # v" using w(1) by (cases w) auto
  have "takeWhile (\<lambda>x. x \<noteq> slash) r = []" "dropWhile (\<lambda>x. x \<noteq> slash) r = r" using r by (cases r; simp)+
  then have tw: "takeWhile (\<lambda>x. x \<noteq> slash) (v @ r) = v" "dropWhile (\<lambda>x. x \<noteq> slash) (v @ r) = r"
    using w(2) c by (simp_all add: while_word)
  have d1: "(v @ r = [] \<or> hd (v @ r) = slash) \<longleftrightarrow> v = []" using w(2) c r by (cases v) auto
  have d2: "(v @ r \<noteq> [] \<and> hd (v @ r) = dot \<and> (tl (v @ r) = [] \<or> hd (tl (v @ r)) = slash)) \<longleftrightarrow> v = [dot]"
    if "v \<noteq> []"
    using w(2) c r that by (cases v; cases "tl v") auto
  have cn: "c \<noteq> slash" using w(2) c by auto
  consider "c \<noteq> dot" | "c = dot" "v = []" | "c = dot" "v \<noteq> []" by blast
  then show ?thesis
  proof cases
    case 1
    then show ?thesis unfolding c by (subst collapse_loop.simps) (simp add: cn tw)
  next
    case 2
    then show ?thesis unfolding c using r by (subst collapse_loop.simps) simp
  next
    case 3
    then have "\<not> (v @ r = [] \<or> hd (v @ r) = slash)" using d1 by simp
    moreover have "v = [dot] \<Longrightarrow> tl (v @ r) = r" by simp
    ultimately show ?thesis
      unfolding c using 3 d2 tw by (subst collapse_loop.simps) (simp del: append_is_Nil_conv hd_append add: conj_assoc)
  qed
qed

lemma step_comp_ok: "\<forall>w\<in>set st. comp_ok w \<Longrightarrow> slash \<notin> set w \<Longrightarrow> \<forall>v\<in>set (step_comp st w). comp_ok v"
  by (auto simp: step_comp_def comp_ok_def dest: in_set_butlastD)

lemma length_open_butlast: "length (open_form (butlast st)) \<le> length (open_form st)"
  by (cases st rule: rev_cases) auto

lemma collapse_open:
  assumes "\<forall>w\<in>set st. comp_ok w" "length (open_form st) + length rest \<le> PATH_MAX"
  shows "\<exists>out. collapse_loop rest (open_form st) = Inr out \<and> length out \<le> length (open_form st) + length rest \<and>
           strip_slash out = render (foldl step_comp st (split_path rest))"
  using assms
proof (induction "length rest" arbitrary: rest st rule: less_induct)
  case less
  obtain w r where wr: "rest = w @ r" "slash \<notin> set w" and r: "r = [] \<or> hd r = slash"
    and fold: "foldl step_comp st (split_path rest) = foldl step_comp (step_comp st w) (split_path r)"
  proof
    let ?w = "takeWhile (\<lambda>x. x \<noteq> slash) rest" and ?r = "dropWhile (\<lambda>x. x \<noteq> slash) rest"
    show "?r = [] \<or> hd ?r = slash" using hd_dropWhile [of "\<lambda>x. x \<noteq> slash" rest] by auto
    then show "foldl step_comp st (split_path rest) = foldl step_comp (step_comp st ?w) (split_path ?r)"
      using foldl_after_comp [of ?r "step_comp st ?w"] split_takeWhile [of rest] by simp
  qed (auto dest: set_takeWhileD)
  show ?case
  proof (cases "w = []")
    case True
    show ?thesis
    proof (cases rest)
      case Nil
      then show ?thesis by (simp add: collapse_loop.simps strip_open step_comp_def)
    next
      case (Cons c cs)
      with True wr(1) r have c: "c = slash" by auto
      let ?d = "dropWhile (\<lambda>x. x = slash) cs"
      have len: "length ?d \<le> length cs" by (rule length_dropWhile_le)
      have "collapse_loop rest (open_form st) = collapse_loop ?d (open_form st)"
        using Cons c by (subst collapse_loop.simps) simp
      moreover have "foldl step_comp st (split_path rest) = foldl step_comp st (split_path ?d)"
        using Cons c by (simp add: foldl_skip_slashes step_comp_def)
      ultimately show ?thesis using less.hyps [of ?d st] less.prems Cons len by force
    qed
  next
    case False
    have len: "length rest = length w + length r" using wr(1) by simp
    with False have short: "length r < length rest" by simp
    note word = collapse_word [OF False wr(2) r, of "open_form st", folded wr(1)]
    show ?thesis
    proof (cases "w = [dot] \<or> w = [dot, dot]")
      case True
      then have "collapse_loop rest (open_form st) = collapse_loop r (open_form (step_comp st w))"
        using word back_up [OF less.prems(1)] by (auto simp: step_comp_def)
      moreover have "length (open_form (step_comp st w)) \<le> length (open_form st)"
        using True length_open_butlast by (auto simp: step_comp_def)
      ultimately show ?thesis
        using less.hyps [OF short step_comp_ok [OF less.prems(1) wr(2)]] less.prems(2) len fold by force
    next
      case name: False
      then have st': "step_comp st w = st @ [w]" using False by (simp add: step_comp_def)
      have p: "push (open_form st) w = Inr (open_form st @ w)" using less.prems(2) len by (simp add: push_def)
      show ?thesis
      proof (cases r)
        case Nil
        then have "collapse_loop rest (open_form st) = Inr (open_form st @ w)"
          using word name p by (simp add: collapse_loop.simps [of "[]"])
        then show ?thesis using Nil fold st' strip_comp [OF False wr(2)] len by (simp add: step_comp_def)
      next
        case (Cons x v)
        then have x: "x = slash" using r by simp
        let ?d = "dropWhile (\<lambda>x. x = slash) v"
        have dl: "length ?d \<le> length v" by (rule length_dropWhile_le)
        have "last w \<noteq> slash" using False wr(2) last_in_set by metis
        then have "last (open_form st @ w) \<noteq> slash" using False by simp
        then have "collapse_loop r (open_form st @ w) = bindR (push (open_form st @ w) [slash]) (collapse_loop ?d)"
          using Cons x by (subst collapse_loop.simps) simp
        also have "\<dots> = collapse_loop ?d (open_form (st @ [w]))"
          using less.prems(2) len Cons by (simp add: push_def)
        finally have eq: "collapse_loop rest (open_form st) = collapse_loop ?d (open_form (st @ [w]))"
          using word name p by simp
        have "foldl step_comp st (split_path rest) = foldl step_comp (st @ [w]) (split_path ?d)"
          using fold st' Cons x by (simp add: foldl_skip_slashes step_comp_def)
        then show ?thesis
          using eq less.hyps [of ?d "st @ [w]"] step_comp_ok [OF less.prems(1) wr(2)] st' less.prems(2) len Cons dl
          by force
      qed
    qed
  qed
qed

lemma collapse_path_eq:
  assumes "length (slash # q) < PATH_MAX"
  shows "collapse_path True (slash # q) = Inr (Inr (render (canon (slash # q))))"
    "length (render (canon (slash # q))) < PATH_MAX"
proof -
  let ?d = "dropWhile (\<lambda>x. x = slash) q"
  have d: "length ?d \<le> length q" by (rule length_dropWhile_le)
  have "collapse_loop (slash # q) [] = collapse_loop ?d (open_form [])"
    by (subst collapse_loop.simps) (simp add: push_def open_form_def PATH_MAX_def)
  moreover obtain out where out: "collapse_loop ?d (open_form []) = Inr out"
    "length out \<le> length (open_form []) + length ?d" "strip_slash out = render (foldl step_comp [] (split_path ?d))"
    using collapse_open [of "[]" ?d] assms d by (auto simp: open_form_def)
  moreover have "foldl step_comp [] (split_path ?d) = canon (slash # q)"
    by (simp add: canon_def foldl_skip_slashes step_comp_def)
  moreover have "length (strip_slash out) < PATH_MAX" using out(2) d assms by (auto simp: strip_slash_def open_form_def)
  ultimately show "collapse_path True (slash # q) = Inr (Inr (render (canon (slash # q))))"
    "length (render (canon (slash # q))) < PATH_MAX"
    by (simp_all add: collapse_path_def)
qed

lemma split_path_append: "split_path (a @ slash # b) = split_path a @ split_path b"
  by (induction a) (auto simp: hd_append)

lemma split_path_no_slash: "w \<in> set (split_path p) \<Longrightarrow> slash \<notin> set w"
proof (induction p arbitrary: w)
  case (Cons c p)
  then show ?case by (cases "split_path p") (auto split: if_splits)
qed auto

definition is_name :: "string \<Rightarrow> bool" where
  "is_name w \<longleftrightarrow> w \<noteq> [] \<and> slash \<notin> set w \<and> w \<noteq> [dot] \<and> w \<noteq> [dot, dot]"

lemma step_comp_names:
  "\<forall>w\<in>set st. is_name w \<Longrightarrow> slash \<notin> set w \<Longrightarrow> \<forall>v\<in>set (step_comp st w). is_name v"
  by (auto simp: step_comp_def is_name_def dest: in_set_butlastD)

lemma foldl_names:
  "\<forall>w\<in>set st. is_name w \<Longrightarrow> \<forall>w\<in>set ws. slash \<notin> set w \<Longrightarrow> \<forall>v\<in>set (foldl step_comp st ws). is_name v"
proof (induction ws arbitrary: st)
  case (Cons w ws)
  then show ?case using Cons.IH [OF step_comp_names [OF Cons.prems(1), of w]] by simp
qed simp

lemma canon_names: "\<forall>w\<in>set (canon p). is_name w"
proof -
  have "\<forall>w\<in>set (split_path p). slash \<notin> set w" using split_path_no_slash by blast
  then show ?thesis unfolding canon_def by (intro foldl_names) simp_all
qed

lemma split_render:
  assumes "\<forall>w\<in>set cs. slash \<notin> set w"
  shows "split_path (concat (map (\<lambda>c. slash # c) cs)) = [] # cs"
  using assms
proof (induction cs)
  case (Cons c cs)
  have w: "split_path (w @ r) = (w @ hd (split_path r)) # tl (split_path r)" if "slash \<notin> set w" for w r
    using that by (induction w) auto
  from Cons show ?case by (simp add: w)
qed simp

lemma foldl_append_names: "\<forall>w\<in>set ws. is_name w \<Longrightarrow> foldl step_comp st ws = st @ ws"
  by (induction ws arbitrary: st) (auto simp: step_comp_def is_name_def)

lemma canon_render:
  assumes "\<forall>w\<in>set cs. is_name w" shows "canon (render cs) = cs"
proof (cases "cs = []")
  case True
  then show ?thesis by (simp add: canon_def render_def step_comp_def)
next
  case False
  then have "split_path (render cs) = [] # cs"
    using assms by (simp add: render_def split_render is_name_def)
  then show ?thesis using foldl_append_names [OF assms] by (simp add: canon_def step_comp_def)
qed

section \<open>Properties\<close>

text \<open>C18. Collapsing a path. An absolute path that fits the buffer collapses to the canonical path of its
  components: empty components and dots are dropped, two dots remove the component before them, and at the
  root they have no effect. No write leaves the buffer.\<close>

theorem collapse_path_canonical:
  assumes "length (slash # q) < PATH_MAX"
  shows "collapse_path True (slash # q) = Inr (Inr (render (canon (slash # q))))"
  by (rule collapse_path_eq(1) [OF assms])

theorem collapse_path_canonical_witness:
  "collapse_path True ''/usr//lib/./../bin/'' = Inr (Inr (render (canon ''/usr//lib/./../bin/''))) \<and>
   render (canon ''/usr//lib/./../bin/'') = ''/usr/bin''"
proof
  show "collapse_path True ''/usr//lib/./../bin/'' = Inr (Inr (render (canon ''/usr//lib/./../bin/'')))"
    by (rule collapse_path_canonical) (simp add: PATH_MAX_def)
  show "render (canon ''/usr//lib/./../bin/'') = ''/usr/bin''" by code_simp
qed

text \<open>Collapsing is idempotent: the result is again an absolute path that fits the buffer and collapses
  to itself.\<close>

lemma collapse_path_idempotent:
  assumes "length (slash # q) < PATH_MAX" "collapse_path True (slash # q) = Inr (Inr p)"
  shows "collapse_path True p = Inr (Inr p)"
proof -
  have p: "p = render (canon (slash # q))" using assms collapse_path_eq(1) by simp
  then obtain r where r: "p = slash # r" by (cases "canon (slash # q)") (auto simp: render_def)
  have "length p < PATH_MAX" using collapse_path_eq(2) [OF assms(1)] p by simp
  then show ?thesis using collapse_path_eq(1) [of r] r p canon_render [OF canon_names, of "slash # q"] by simp
qed

text \<open>Changing the working directory. A relative path is resolved against the working directory: when the
  two fit the buffer, joining and collapsing applies the components of the relative path to those of the
  working directory; when they do not fit the call is refused.\<close>

lemma relative_path_resolution:
  assumes "cwd = slash # c" "rel = [] \<or> hd rel \<noteq> slash"
  shows "if PATH_MAX < length cwd + length rel + 2 then handle_relative_path rel cwd = Inl (- ENAMETOOLONG)
         else \<exists>p. handle_relative_path rel cwd = Inr p \<and>
           collapse_path True p = Inr (Inr (render (foldl step_comp (canon cwd) (split_path rel))))"
proof (cases "PATH_MAX < length cwd + length rel + 2")
  case True
  with assms show ?thesis by (auto simp: handle_relative_path_def)
next
  case False
  let ?p = "slash # c @ slash # rel"
  have "canon ?p = foldl step_comp (canon cwd) (split_path rel)"
    using split_path_append [of cwd rel] assms(1) by (simp add: canon_def)
  moreover have "collapse_path True ?p = Inr (Inr (render (canon ?p)))"
    using False assms(1) by (intro collapse_path_eq(1)) simp
  moreover have "handle_relative_path rel cwd = Inr ?p"
    using False assms by (auto simp: handle_relative_path_def)
  ultimately show ?thesis using False by simp
qed

lemma char_codes: "(of_char a :: nat) = of_char b \<longleftrightarrow> a = b" "(of_char NUL :: nat) = 0"
  by (simp_all add: NUL_def)

lemma char_pos: "a \<noteq> NUL \<Longrightarrow> 0 < (of_char a :: nat)" "NUL \<noteq> a \<Longrightarrow> 0 < (of_char a :: nat)"
  using char_codes(1) [of a NUL] char_codes(2) by auto

text \<open>Comparing names. On terminated strings \<^verbatim>\<open>strncmp\<close> stays inside both strings and returns zero exactly
  when they agree on the first \<open>n\<close> characters.\<close>

lemma strncmp_agrees:
  assumes "NUL \<notin> set a" "NUL \<notin> set b"
  shows "\<exists>r. strncmp (a @ NUL # xs) (b @ NUL # ys) n = Inr r \<and> (r = 0 \<longleftrightarrow> take n a = take n b)"
  using assms
proof (induction a arbitrary: b n)
  case Nil
  then show ?case using char_codes(1) [of NUL] by (cases n; cases b) (auto simp: char_codes(2) char_pos)
next
  case (Cons c a)
  then show ?case using char_codes(1) [of c] by (cases n; cases b) (auto simp: char_codes(2) char_pos)
qed

text \<open>Permissions. Read and write access follow the owner bits for the owner and the bits for others for
  everyone else, and are always granted to root; execution for root needs one execute bit anywhere. The group
  bits grant nothing to other users.\<close>

lemma access_check_bits:
  "(access_check m uid gid p AND ACCESS_READ \<noteq> 0 \<longleftrightarrow>
      p = 0 \<or> (if p = uid then m AND S_IRUSR \<noteq> 0 else m AND S_IROTH \<noteq> 0)) \<and>
   (access_check m uid gid p AND ACCESS_WRITE \<noteq> 0 \<longleftrightarrow>
      p = 0 \<or> (if p = uid then m AND S_IWUSR \<noteq> 0 else m AND S_IWOTH \<noteq> 0)) \<and>
   (access_check m uid gid p AND ACCESS_EXECUTE \<noteq> 0 \<longleftrightarrow>
      (if p = 0 then m AND (S_IXUSR OR S_IXGRP OR S_IXOTH) \<noteq> 0
       else if p = uid then m AND S_IXUSR \<noteq> 0 else m AND S_IXOTH \<noteq> 0))"
  by (auto simp: access_check_def add_if_def ACCESS_READ_def ACCESS_WRITE_def ACCESS_EXECUTE_def)

end
