(* ===== verification/UserMem.thy ===== *)
theory UserMem
  imports Paging
begin

text \<open>
  Access to user memory: the copy routines of \<^verbatim>\<open>src/syscall/syscall_helpers.c\<close> and the memory system calls
  of \<^verbatim>\<open>src/syscall/mem/memmap.c\<close>. The state holds the page tables and the frame allocator (\<open>paging\<close>) and
  the contents of data frames, byte by byte at their kernel-virtual address; frames of page tables are kept
  apart from data frames. Kernel buffers are byte lists, and an access outside one is a bad access. The copy
  loops run on 64-bit offsets and are option-valued; the theorems state that they return.
\<close>

section \<open>Copying\<close>

record umem =
  um_paging :: paging
  um_bytes :: "u64 \<Rightarrow> u8"

definition memcpy_in :: "u64 \<Rightarrow> u8 list \<Rightarrow> (u64 \<Rightarrow> u8) \<Rightarrow> u64 \<Rightarrow> u8" where
  "memcpy_in dst xs m = (\<lambda>x. if unat (x - dst) < length xs then xs ! unat (x - dst) else m x)"

definition memcpy_out :: "u64 \<Rightarrow> nat \<Rightarrow> (u64 \<Rightarrow> u8) \<Rightarrow> u8 list" where
  "memcpy_out src n m = map (\<lambda>i. m (src + of_nat i)) [0..<n]"

text \<open>The three cases of a step: the first page, a last partial page, a full page. The result is the
  kernel-virtual address of the bytes and their number.\<close>

definition page_chunk :: "u64 \<Rightarrow> u64 \<Rightarrow> u64 \<Rightarrow> u64 \<Rightarrow> u64 \<Rightarrow> u64 \<times> u64" where
  "page_chunk hhdm start count offs e =
     (let first_page_len = PAGE_LEN - start mod PAGE_LEN;
          last_page_len = (start + count) mod PAGE_LEN;
          addr = start + offs;
          frame = e AND PHYSADDR_MASK
      in if offs = 0 then
           (phys_to_virt hhdm (frame + addr mod PAGE_LEN), if count < first_page_len then count else first_page_len)
         else if count < offs + PAGE_LEN then (phys_to_virt hhdm (frame + addr mod PAGE_LEN), last_page_len)
         else (phys_to_virt hhdm frame, PAGE_LEN))"

partial_function (option) copy_out_loop ::
    "u64 \<Rightarrow> u64 \<Rightarrow> u8 list \<Rightarrow> u64 \<Rightarrow> bool \<Rightarrow> u64 \<Rightarrow> u64 \<Rightarrow> umem \<Rightarrow> (int \<times> umem) kres option" where
  "copy_out_loop hhdm dest src count override pml4 offs u =
     (if offs < count then
        (case find_page hhdm (dest + offs) False pml4 (um_paging u) of
           Inl f \<Rightarrow> Some (Inl f)
         | Inr (page, p1) \<Rightarrow>
             let u1 = u\<lparr>um_paging := p1\<rparr>; e = pmem p1 page in
             if page = 0 \<or> e AND PAGE_FLAG_PRESENT = 0 then Some (Inr (- EFAULT, u1))
             else if e AND PAGE_FLAG_USER = 0 then Some (Inr (- EFAULT, u1))
             else if e AND PAGE_FLAG_WRITE = 0 \<and> \<not> override then Some (Inr (- EFAULT, u1))
             else
               let (dst, n) = page_chunk hhdm dest count offs e in
               if length src < unat offs + unat n then Some (Inl BadAccess)
               else copy_out_loop hhdm dest src count override pml4 (offs + n)
                      (u1\<lparr>um_bytes := memcpy_in dst (take (unat n) (drop (unat offs) src)) (um_bytes u1)\<rparr>))
      else Some (Inr (0, u)))"

definition copy_to_user_buf ::
    "u64 \<Rightarrow> u64 \<Rightarrow> u8 list \<Rightarrow> u64 \<Rightarrow> bool \<Rightarrow> u64 \<Rightarrow> umem \<Rightarrow> (int \<times> umem) kres option" where
  "copy_to_user_buf hhdm dest src count override pml4 u =
     copy_out_loop hhdm dest src count override pml4 0 u"

partial_function (option) copy_in_loop ::
    "u64 \<Rightarrow> u8 list \<Rightarrow> u64 \<Rightarrow> u64 \<Rightarrow> u64 \<Rightarrow> u64 \<Rightarrow> umem \<Rightarrow> (int \<times> u8 list \<times> umem) kres option" where
  "copy_in_loop hhdm dest src count pml4 offs u =
     (if offs < count then
        (case find_page hhdm (src + offs) False pml4 (um_paging u) of
           Inl f \<Rightarrow> Some (Inl f)
         | Inr (page, p1) \<Rightarrow>
             let u1 = u\<lparr>um_paging := p1\<rparr>; e = pmem p1 page in
             if page = 0 \<or> e AND PAGE_FLAG_PRESENT = 0 then Some (Inr (- EFAULT, dest, u1))
             else if e AND PAGE_FLAG_USER = 0 then Some (Inr (- EFAULT, dest, u1))
             else
               let (from, n) = page_chunk hhdm src count offs e in
               if length dest < unat offs + unat n then Some (Inl BadAccess)
               else copy_in_loop hhdm
                      (take (unat offs) dest @ memcpy_out from (unat n) (um_bytes u1) @ drop (unat offs + unat n) dest)
                      src count pml4 (offs + n) u1)
      else Some (Inr (0, dest, u)))"

definition copy_to_kernel_buf ::
    "u64 \<Rightarrow> u8 list \<Rightarrow> u64 \<Rightarrow> u64 \<Rightarrow> u64 \<Rightarrow> umem \<Rightarrow> (int \<times> u8 list \<times> umem) kres option" where
  "copy_to_kernel_buf hhdm dest src count pml4 u = copy_in_loop hhdm dest src count pml4 0 u"

section \<open>Mapping\<close>

definition SYSCALL_MEMMAP_FLAG_WR :: u64 where "SYSCALL_MEMMAP_FLAG_WR = 0x1"
definition SYSCALL_MEMMAP_FLAG_EX :: u64 where "SYSCALL_MEMMAP_FLAG_EX = 0x2"

text \<open>The two adjustments of \<^verbatim>\<open>length\<close> at the head of the routines.\<close>

definition adjust_length :: "u64 \<Rightarrow> u64 \<Rightarrow> u64" where
  "adjust_length addr len0 =
     (let len = (if addr mod PAGE_LEN \<noteq> 0 then len0 + addr mod PAGE_LEN else len0)
      in if len mod PAGE_LEN \<noteq> 0 then len + (PAGE_LEN - len mod PAGE_LEN) else len)"

definition memmap_page_flags :: "u64 \<Rightarrow> u64" where
  "memmap_page_flags fl =
     PAGE_FLAG_PRESENT OR PAGE_FLAG_USER OR
     (if fl AND SYSCALL_MEMMAP_FLAG_WR \<noteq> 0 then PAGE_FLAG_WRITE else 0) OR
     (if fl AND SYSCALL_MEMMAP_FLAG_EX \<noteq> 0 then 0 else PAGE_FLAG_NX)"

text \<open>One page of the loop: an errno, or the new state.\<close>

definition memmap_page :: "u64 \<Rightarrow> u64 \<Rightarrow> u64 \<Rightarrow> u64 \<Rightarrow> umem \<Rightarrow> (int \<times> umem) kres option" where
  "memmap_page hhdm voffs fl pml4 u =
     (case get_physaddr hhdm voffs pml4 (um_paging u) of
        Inl f \<Rightarrow> Some (Inl f)
      | Inr pa \<Rightarrow>
          if pa \<noteq> 0 then Some (Inr (- EEXIST, u))
          else (case find_next_free_frame (pphys (um_paging u)) of
             Inl f \<Rightarrow> Some (Inl f)
           | Inr (frame, ph) \<Rightarrow>
               let u1 = u\<lparr>um_paging := (um_paging u)\<lparr>pphys := ph\<rparr>\<rparr> in
               if frame = 0 then Some (Inr (- ENOMEM, u1))
               else
                 let u2 = u1\<lparr>um_bytes := memcpy_in (phys_to_virt hhdm frame) (replicate 4096 0) (um_bytes u1)\<rparr>
                 in (case map_virtual_memory_using_alloc hhdm frame voffs PAGE_LEN (memmap_page_flags fl)
                            (alloc_paging_node hhdm) pml4 (um_paging u2) of
                       None \<Rightarrow> None
                     | Some (Inl f) \<Rightarrow> Some (Inl f)
                     | Some (Inr p) \<Rightarrow> Some (Inr (0, u2\<lparr>um_paging := p\<rparr>)))))"

partial_function (option) memmap_loop ::
    "u64 \<Rightarrow> u64 \<Rightarrow> u64 \<Rightarrow> u64 \<Rightarrow> u64 \<Rightarrow> umem \<Rightarrow> (int \<times> umem) kres option" where
  "memmap_loop hhdm voffs limit fl pml4 u =
     (if voffs < limit then
        (case memmap_page hhdm voffs fl pml4 u of
           None \<Rightarrow> None
         | Some (Inl f) \<Rightarrow> Some (Inl f)
         | Some (Inr (r, u1)) \<Rightarrow>
             if r \<noteq> 0 then Some (Inr (r, u1)) else memmap_loop hhdm (voffs + PAGE_LEN) limit fl pml4 u1)
      else Some (Inr (0, u)))"

definition syscall_routine_memmap :: "u64 \<Rightarrow> u64 \<Rightarrow> u64 \<Rightarrow> u64 \<Rightarrow> u64 \<Rightarrow> umem \<Rightarrow> (int \<times> umem) kres option" where
  "syscall_routine_memmap hhdm addr len fl pml4 u =
     memmap_loop hhdm (addr - addr mod PAGE_LEN) (addr + adjust_length addr len) fl pml4 u"

definition syscall_routine_memmap_from_buffer ::
    "u64 \<Rightarrow> u64 \<Rightarrow> u64 \<Rightarrow> u64 \<Rightarrow> u8 list \<Rightarrow> u64 \<Rightarrow> u64 \<Rightarrow> umem \<Rightarrow> (int \<times> umem) kres option" where
  "syscall_routine_memmap_from_buffer hhdm addr len fl buffer buffer_length pml4 u =
     (case syscall_routine_memmap hhdm addr len fl pml4 u of
        None \<Rightarrow> None
      | Some (Inl f) \<Rightarrow> Some (Inl f)
      | Some (Inr (res, u1)) \<Rightarrow>
          if res \<noteq> 0 then Some (Inr (res, u1))
          else
            let end0 = addr + len;
                end1 = (if end0 mod PAGE_LEN \<noteq> 0 then end0 + (PAGE_LEN - end0 mod PAGE_LEN) else end0);
                to_copy = (if end1 < addr + buffer_length then end1 - addr else buffer_length)
            in (case copy_to_user_buf hhdm addr buffer to_copy True pml4 u1 of
                  None \<Rightarrow> None
                | Some (Inl f) \<Rightarrow> Some (Inl f)
                | Some (Inr (_, u2)) \<Rightarrow> Some (Inr (0, u2))))"

text \<open>The new flags of a page in \<^verbatim>\<open>syscall_routine_memprotect\<close>, or the errno.\<close>

definition memprotect_flags :: "u64 \<Rightarrow> u64 \<Rightarrow> int + u64" where
  "memprotect_flags fl e =
     (let f1 = PAGE_FLAG_PRESENT OR (if e AND PAGE_FLAG_WRITE \<noteq> 0 then PAGE_FLAG_WRITE else 0)
      in if e AND PAGE_FLAG_USER = 0 then Inl (- EFAULT)
         else
           let f2 = f1 OR PAGE_FLAG_USER;
               f3 = (if e AND PAGE_FLAG_NX \<noteq> 0 then f2 OR PAGE_FLAG_NX else f2)
           in if fl AND SYSCALL_MEMMAP_FLAG_WR \<noteq> 0 \<and> f3 AND PAGE_FLAG_WRITE = 0 then Inl (- EINVAL)
              else
                let f4 = (if fl AND SYSCALL_MEMMAP_FLAG_WR \<noteq> 0 then f3 else f3 AND NOT PAGE_FLAG_WRITE)
                in if fl AND SYSCALL_MEMMAP_FLAG_EX \<noteq> 0 \<and> f4 AND PAGE_FLAG_NX \<noteq> 0 then Inl (- EINVAL)
                   else Inr (if fl AND SYSCALL_MEMMAP_FLAG_EX \<noteq> 0 then f4 else f4 OR PAGE_FLAG_NX))"

definition memprotect_page :: "u64 \<Rightarrow> u64 \<Rightarrow> u64 \<Rightarrow> u64 \<Rightarrow> umem \<Rightarrow> (int \<times> umem) kres option" where
  "memprotect_page hhdm voffs fl pml4 u =
     (case find_page hhdm voffs False pml4 (um_paging u) of
        Inl f \<Rightarrow> Some (Inl f)
      | Inr (page, p1) \<Rightarrow>
          let u1 = u\<lparr>um_paging := p1\<rparr>; e = pmem p1 page; frame = e AND PHYSADDR_MASK in
          if page = 0 \<or> e AND PAGE_FLAG_PRESENT = 0 then Some (Inr (- EFAULT, u1))
          else if frame = 0 then Some (Inr (- EFAULT, u1))
          else (case memprotect_flags fl e of
                  Inl err \<Rightarrow> Some (Inr (err, u1))
                | Inr nf \<Rightarrow>
                    (case map_virtual_memory_using_alloc hhdm frame voffs PAGE_LEN nf (alloc_paging_node hhdm) pml4 p1 of
                       None \<Rightarrow> None
                     | Some (Inl f) \<Rightarrow> Some (Inl f)
                     | Some (Inr p) \<Rightarrow> Some (Inr (0, u1\<lparr>um_paging := p\<rparr>)))))"

partial_function (option) memprotect_loop ::
    "u64 \<Rightarrow> u64 \<Rightarrow> u64 \<Rightarrow> u64 \<Rightarrow> u64 \<Rightarrow> umem \<Rightarrow> (int \<times> umem) kres option" where
  "memprotect_loop hhdm voffs limit fl pml4 u =
     (if voffs < limit then
        (case memprotect_page hhdm voffs fl pml4 u of
           None \<Rightarrow> None
         | Some (Inl f) \<Rightarrow> Some (Inl f)
         | Some (Inr (r, u1)) \<Rightarrow>
             if r \<noteq> 0 then Some (Inr (r, u1)) else memprotect_loop hhdm (voffs + PAGE_LEN) limit fl pml4 u1)
      else Some (Inr (0, u)))"

definition syscall_routine_memprotect :: "u64 \<Rightarrow> u64 \<Rightarrow> u64 \<Rightarrow> u64 \<Rightarrow> u64 \<Rightarrow> umem \<Rightarrow> (int \<times> umem) kres option" where
  "syscall_routine_memprotect hhdm addr len fl pml4 u =
     memprotect_loop hhdm (addr - addr mod PAGE_LEN) (addr + adjust_length addr len) fl pml4 u"

section \<open>Steps of the copy loops\<close>

lemma unat_PAGE_LEN [simp]: "unat PAGE_LEN = 4096"
  by (simp add: PAGE_LEN_def)

lemma unat_mod_page: "unat (a mod PAGE_LEN) = unat a mod 4096"
  by (simp add: unat_mod unat_PAGE_LEN)

lemma unat_page_gap: "unat (PAGE_LEN - a mod PAGE_LEN) = 4096 - unat a mod 4096"
  by (subst unat_sub) (simp_all add: word_le_nat_alt unat_mod_page)

lemma mod_gap:
  fixes s c r :: nat
  assumes "(s + r) mod 4096 = 0" "r < c" "c < r + 4096"
  shows "(s + c) mod 4096 = c - r"
proof -
  have "s + c = (s + r) + (c - r)" using assms by simp
  then have "(s + c) mod 4096 = (c - r) mod 4096" using assms(1) by (metis add_0 mod_add_left_eq)
  then show ?thesis using assms by simp
qed

text \<open>The bytes of a step lie in one page, and the next step starts at a page boundary.\<close>

lemma page_chunk_law:
  assumes nw: "unat start + unat count + 4096 \<le> 2 ^ 64" and o: "offs < count"
    and al: "offs = 0 \<or> (unat start + unat offs) mod 4096 = 0"
    and c: "page_chunk hhdm start count offs e = (dst, n)"
  shows "0 < unat n" "unat offs + unat n \<le> unat count" "unat (offs + n) = unat offs + unat n"
    "offs + n = count \<or> (unat start + unat (offs + n)) mod 4096 = 0"
    "dst = phys_to_virt hhdm ((e AND PHYSADDR_MASK) + (start + offs) mod PAGE_LEN)"
    "unat ((start + offs) mod PAGE_LEN) + unat n \<le> 4096"
proof -
  let ?s = "unat start" and ?c = "unat count" and ?o = "unat offs"
  have oc: "?o < ?c" using o by (simp add: word_less_nat_alt)
  have so: "unat (start + offs) = ?s + ?o" "unat (start + count) = ?s + ?c" "unat (offs + PAGE_LEN) = ?o + 4096"
    using nw oc by (simp_all add: unat_word_ariths PAGE_LEN_def)
  have am: "unat ((start + offs) mod PAGE_LEN) = (?s + ?o) mod 4096" by (simp only: unat_mod_page so)
  have first: "unat (PAGE_LEN - start mod PAGE_LEN) = 4096 - ?s mod 4096"
    by (rule unat_page_gap)
  have last: "unat ((start + count) mod PAGE_LEN) = (?s + ?c) mod 4096" by (simp only: unat_mod_page so)
  consider (first) "offs = 0" | (last) "offs \<noteq> 0" "count < offs + PAGE_LEN" | (full) "offs \<noteq> 0" "\<not> count < offs + PAGE_LEN"
    by blast
  then have "0 < unat n \<and> ?o + unat n \<le> ?c \<and> (?o + unat n = ?c \<or> (?s + (?o + unat n)) mod 4096 = 0) \<and>
      dst = phys_to_virt hhdm ((e AND PHYSADDR_MASK) + (start + offs) mod PAGE_LEN) \<and> (?s + ?o) mod 4096 + unat n \<le> 4096"
  proof cases
    case first
    let ?f = "PAGE_LEN - start mod PAGE_LEN"
    have n: "unat n = min ?c (4096 - ?s mod 4096)" "dst = phys_to_virt hhdm ((e AND PHYSADDR_MASK) + (start + offs) mod PAGE_LEN)"
      using c first \<open>unat ?f = _\<close> by (auto simp: page_chunk_def Let_def word_less_nat_alt min_def)
    have m: "?s mod 4096 < 4096" by simp
    moreover have "(?s + (4096 - ?s mod 4096)) mod 4096 = 0"
      using m by (metis add_diff_inverse_nat mod_add_left_eq mod_self not_less_iff_gr_or_eq)
    ultimately show ?thesis using n first oc by (auto simp: min_def)
  next
    case last
    have "?c < ?o + 4096" using last(2) so by (simp add: word_less_nat_alt)
    then have "(?s + ?c) mod 4096 = ?c - ?o" using mod_gap [of ?s ?o ?c] al last(1) oc by simp
    then have "unat n = ?c - ?o" "dst = phys_to_virt hhdm ((e AND PHYSADDR_MASK) + (start + offs) mod PAGE_LEN)"
      using c last \<open>unat ((start + count) mod PAGE_LEN) = _\<close> by (auto simp: page_chunk_def Let_def)
    then show ?thesis using oc al last(1) \<open>?c < ?o + 4096\<close> by auto
  next
    case full
    have le: "?o + 4096 \<le> ?c" using full(2) so by (simp add: word_less_nat_alt)
    have z: "(?s + ?o) mod 4096 = 0" using al full(1) by simp
    then have "(start + offs) mod PAGE_LEN = 0" using am by (metis unat_eq_zero)
    then have "n = PAGE_LEN" "dst = phys_to_virt hhdm ((e AND PHYSADDR_MASK) + (start + offs) mod PAGE_LEN)"
      using c full by (auto simp: page_chunk_def Let_def)
    moreover have "(?s + (?o + 4096)) mod 4096 = 0" using z by (simp add: add.assoc [symmetric])
    ultimately show ?thesis using le z by simp
  qed
  note r = this
  show un: "unat (offs + n) = ?o + unat n" using r nw by (simp add: unat_word_ariths)
  show "0 < unat n" "?o + unat n \<le> ?c" "dst = phys_to_virt hhdm ((e AND PHYSADDR_MASK) + (start + offs) mod PAGE_LEN)"
    "unat ((start + offs) mod PAGE_LEN) + unat n \<le> 4096"
    using r am by auto
  show "offs + n = count \<or> (?s + unat (offs + n)) mod 4096 = 0"
    using r un by (auto simp: word_unat_eq_iff)
qed

text \<open>The index path of an address depends on its page number only.\<close>

lemma vpath_page:
  assumes "unat a div 4096 = unat b div 4096" shows "vpath a = vpath b"
proof -
  have "unat (drop_bit 12 a) = unat (drop_bit 12 b)" using assms by (simp add: drop_bit_eq_div unat_div)
  then have d: "drop_bit 12 a = drop_bit 12 b" by (simp only: word_unat_eq_iff)
  have "drop_bit (k + 12) a = drop_bit (k + 12) b" for k
    by (simp only: drop_bit_drop_bit [symmetric] d)
  from this [of 27] this [of 18] this [of 9] d show ?thesis
    by (simp add: dir_path_def pt_index_def addr_split_def)
qed

section \<open>What the copies promise\<close>

text \<open>The page table entry that translates an address, and the right to access a page: a write needs the
  write bit unless the caller overrides it.\<close>

definition translate :: "u64 \<Rightarrow> u64 \<Rightarrow> paging \<Rightarrow> u64 \<Rightarrow> u64 option" where
  "translate hhdm root p va = leaf hhdm (pmem p) root (dir_path va) (pt_index va)"

definition user_ok :: "bool \<Rightarrow> u64 option \<Rightarrow> bool" where
  "user_ok w oe = (case oe of None \<Rightarrow> False
     | Some e \<Rightarrow> e AND PAGE_FLAG_USER \<noteq> 0 \<and> (\<not> w \<or> e AND PAGE_FLAG_WRITE \<noteq> 0))"

text \<open>A kernel-virtual address of a byte that the user could access through some page.\<close>

definition user_byte :: "u64 \<Rightarrow> u64 \<Rightarrow> bool \<Rightarrow> paging \<Rightarrow> u64 \<Rightarrow> bool" where
  "user_byte hhdm root w p x \<longleftrightarrow>
     (\<exists>va e. translate hhdm root p va = Some e \<and> user_ok w (Some e) \<and>
             unat (x - phys_to_virt hhdm (e AND PHYSADDR_MASK)) < 4096)"

definition same_space :: "u64 \<Rightarrow> u64 \<Rightarrow> u64 list \<Rightarrow> paging \<Rightarrow> paging \<Rightarrow> bool" where
  "same_space hhdm root us p p' \<longleftrightarrow>
     tree_ok hhdm (pmem p') root us \<and> pphys p' = pphys p \<and> translate hhdm root p' = translate hhdm root p"

lemma same_space_refl: "tree_ok hhdm (pmem p) root us \<Longrightarrow> same_space hhdm root us p p"
  by (simp add: same_space_def)

lemma same_space_trans:
  "same_space hhdm root us p p' \<Longrightarrow> same_space hhdm root us p' p'' \<Longrightarrow> same_space hhdm root us p p''"
  by (simp add: same_space_def)

lemma same_space_byte: "same_space hhdm root us p p' \<Longrightarrow> user_byte hhdm root w p' = user_byte hhdm root w p"
  by (simp add: same_space_def user_byte_def fun_eq_iff)

lemma translate_page: "unat a div 4096 = unat b div 4096 \<Longrightarrow> translate hhdm root p a = translate hhdm root p b"
  using vpath_page [of a b] by (simp add: translate_def)

lemma find_page_translate:
  assumes ok: "tree_ok hhdm (pmem p) root us"
  obtains pg p1 where "find_page hhdm va False root p = Inr (pg, p1)" "same_space hhdm root us p p1"
    "case translate hhdm root p va of None \<Rightarrow> pg = 0
       | Some e \<Rightarrow> pg \<noteq> 0 \<and> pmem p1 pg = e \<and> e AND PAGE_FLAG_PRESENT \<noteq> 0"
proof -
  obtain pg p1 where 1: "find_page hhdm va False root p = Inr (pg, p1)" "tree_ok hhdm (pmem p1) root us" "pphys p1 = pphys p"
    and l: "\<And>q j. path_ok q \<Longrightarrow> length q = 3 \<Longrightarrow> j < 512 \<Longrightarrow> leaf hhdm (pmem p1) root q j = leaf hhdm (pmem p) root q j"
    and c: "case translate hhdm root p va of None \<Rightarrow> pg = 0 | Some e \<Rightarrow> pg \<noteq> 0 \<and> pmem p1 pg = e"
    using find_page_lookup [OF ok, of va "alloc_paging_node hhdm" "is_userspace va"]
    unfolding find_page_def translate_def by blast
  have "translate hhdm root p1 = translate hhdm root p"
    by (rule ext) (simp add: translate_def l dir_path_ok)
  moreover have "e AND PAGE_FLAG_PRESENT \<noteq> 0" if "translate hhdm root p va = Some e" for e
    using that by (auto simp: translate_def leaf_def split: option.splits if_splits)
  ultimately show thesis using 1 c by (intro that) (auto simp: same_space_def split: option.splits)
qed

text \<open>All bytes of a step are in the page of its first byte.\<close>

lemma chunk_page:
  assumes nw: "unat start + unat count + 4096 \<le> 2 ^ 64" and n: "unat offs + unat n \<le> unat count"
    and k: "unat ((start + offs) mod PAGE_LEN) + unat n \<le> 4096"
    and d: "unat x = unat offs + d" "d < unat n"
  shows "unat (start + x) div 4096 = unat (start + offs) div 4096"
    "(start + x) mod PAGE_LEN = (start + offs) mod PAGE_LEN + of_nat d"
proof -
  let ?a = "unat start + unat offs"
  have u: "unat (start + x) = ?a + d" "unat (start + offs) = ?a"
    using nw n d by (simp_all add: unat_word_ariths)
  have m: "?a mod 4096 + d < 4096" using k d u by (simp add: unat_mod_page)
  show dv: "unat (start + x) div 4096 = unat (start + offs) div 4096"
    using m u by (simp add: div_add1_eq [of ?a d])
  have "(?a + d) mod 4096 = ?a mod 4096 + d" using m by (metis mod_add_left_eq mod_less)
  moreover have "unat (of_nat d :: u64) = d" using m by (simp add: unat_of_nat_u64)
  ultimately show "(start + x) mod PAGE_LEN = (start + offs) mod PAGE_LEN + of_nat d"
    using m u by (simp add: word_unat_eq_iff unat_mod_page unat_word_ariths)
qed

lemma user_range_step:
  assumes nw: "unat start + unat count + 4096 \<le> 2 ^ 64" and n: "unat offs + unat n \<le> unat count"
    and k: "unat ((start + offs) mod PAGE_LEN) + unat n \<le> 4096" and p: "0 < unat n"
    and ok: "user_ok w (translate hhdm root p (start + offs))"
  shows "(\<forall>x. offs \<le> x \<and> x < count \<longrightarrow> user_ok w (translate hhdm root p (start + x))) \<longleftrightarrow>
    (\<forall>x. offs + n \<le> x \<and> x < count \<longrightarrow> user_ok w (translate hhdm root p (start + x)))"
proof -
  have un: "unat (offs + n) = unat offs + unat n" using nw n by (simp add: unat_word_ariths)
  have "user_ok w (translate hhdm root p (start + x))" if "offs \<le> x" "\<not> offs + n \<le> x" for x
  proof -
    have "unat x = unat offs + (unat x - unat offs)" "unat x - unat offs < unat n"
      using that un by (simp_all add: word_le_nat_alt)
    from chunk_page(1) [OF nw n k this] show ?thesis using ok translate_page by metis
  qed
  moreover have "offs \<le> x" if "offs + n \<le> x" for x using that un by (simp add: word_le_nat_alt)
  ultimately show ?thesis by blast
qed

text \<open>The bytes a step writes are bytes of the page.\<close>

lemma memcpy_in_page:
  assumes "memcpy_in dst xs m x \<noteq> m x" "length xs + unat k \<le> 4096"
    "dst = phys_to_virt hhdm (f + k)"
  shows "unat (x - phys_to_virt hhdm f) < 4096"
proof -
  have l: "unat (x - dst) < length xs" using assms(1) by (auto simp: memcpy_in_def split: if_splits)
  have "x - phys_to_virt hhdm f = (x - dst) + k" using assms(3) by (simp add: phys_to_virt_def)
  moreover have "unat ((x - dst) + k) = unat (x - dst) + unat k"
    using l assms(2) by (simp add: unat_word_ariths)
  ultimately show ?thesis using l assms(2) by (metis add_less_mono1 less_le_trans)
qed

lemma copy_out_law:
  assumes nw: "unat dest + unat count + 4096 \<le> 2 ^ 64" and len: "length src = unat count"
  shows "\<lbrakk>tree_ok hhdm (pmem (um_paging u)) root us; offs \<le> count;
      offs = 0 \<or> offs = count \<or> (unat dest + unat offs) mod 4096 = 0\<rbrakk> \<Longrightarrow>
    \<exists>r u'. copy_out_loop hhdm dest src count override root offs u = Some (Inr (r, u')) \<and>
      same_space hhdm root us (um_paging u) (um_paging u') \<and>
      (\<forall>x. um_bytes u' x \<noteq> um_bytes u x \<longrightarrow> user_byte hhdm root (\<not> override) (um_paging u) x) \<and>
      r = (if \<forall>x. offs \<le> x \<and> x < count \<longrightarrow> user_ok (\<not> override) (translate hhdm root (um_paging u) (dest + x))
           then 0 else - EFAULT)"
proof (induction "unat count - unat offs" arbitrary: offs u rule: less_induct)
  case less
  show ?case
  proof (cases "offs < count")
    case False
    then show ?thesis using less.prems
      by (subst copy_out_loop.simps) (auto simp: same_space_refl)
  next
    case o: True
    let ?t = "translate hhdm root (um_paging u) (dest + offs)" and ?w = "\<not> override"
    obtain pg p1 where f: "find_page hhdm (dest + offs) False root (um_paging u) = Inr (pg, p1)"
      and s1: "same_space hhdm root us (um_paging u) p1"
      and c: "case ?t of None \<Rightarrow> pg = 0 | Some e \<Rightarrow> pg \<noteq> 0 \<and> pmem p1 pg = e \<and> e AND PAGE_FLAG_PRESENT \<noteq> 0"
      using find_page_translate [OF less.prems(1)] by blast
    show ?thesis
    proof (cases "user_ok ?w ?t")
      case False
      then have "\<not> (\<forall>x. offs \<le> x \<and> x < count \<longrightarrow> user_ok ?w (translate hhdm root (um_paging u) (dest + x)))"
        using o by auto
      with False show ?thesis using o f c s1
        by (subst copy_out_loop.simps) (auto simp: user_ok_def Let_def split: option.splits)
    next
      case ok: True
      then obtain e where e: "?t = Some e" "e AND PAGE_FLAG_USER \<noteq> 0" "\<not> (e AND PAGE_FLAG_WRITE = 0 \<and> \<not> override)"
        by (auto simp: user_ok_def split: option.splits)
      obtain dst n where ch: "page_chunk hhdm dest count offs e = (dst, n)" by fastforce
      have al: "offs = 0 \<or> (unat dest + unat offs) mod 4096 = 0" using less.prems(3) o by auto
      note pc = page_chunk_law [OF nw o al ch]
      let ?u = "u\<lparr>um_paging := p1, um_bytes := memcpy_in dst (take (unat n) (drop (unat offs) src)) (um_bytes u)\<rparr>"
      have step: "copy_out_loop hhdm dest src count override root offs u =
          copy_out_loop hhdm dest src count override root (offs + n) ?u"
        using o f c e ch pc(2) len by (subst copy_out_loop.simps) (auto simp: Let_def)
      have le: "offs + n \<le> count" and lt: "unat count - unat (offs + n) < unat count - unat offs"
        using pc(1-3) by (simp_all add: word_le_nat_alt)
      have al': "offs + n = 0 \<or> offs + n = count \<or> (unat dest + unat (offs + n)) mod 4096 = 0" using pc(4) by blast
      have tk: "tree_ok hhdm (pmem (um_paging ?u)) root us" using s1 by (simp add: same_space_def)
      have tr: "translate hhdm root p1 = translate hhdm root (um_paging u)" using s1 by (simp add: same_space_def)
      obtain r u' where ih: "copy_out_loop hhdm dest src count override root (offs + n) ?u = Some (Inr (r, u'))"
        "same_space hhdm root us (um_paging ?u) (um_paging u')"
        "\<forall>x. um_bytes u' x \<noteq> um_bytes ?u x \<longrightarrow> user_byte hhdm root ?w (um_paging ?u) x"
        "r = (if \<forall>x. offs + n \<le> x \<and> x < count \<longrightarrow> user_ok ?w (translate hhdm root (um_paging ?u) (dest + x)) then 0 else - EFAULT)"
        using less.hyps [OF lt tk le al'] by (elim exE conjE) (rule that)
      have u1: "um_paging ?u = p1" by simp
      note ih = ih [unfolded u1]
      have "user_byte hhdm root ?w (um_paging u) x" if "um_bytes u' x \<noteq> um_bytes u x" for x
      proof (cases "um_bytes ?u x = um_bytes u x")
        case True
        then show ?thesis using that ih(3) [THEN spec, of x] same_space_byte [OF s1] by simp
      next
        case False
        then have "unat (x - phys_to_virt hhdm (e AND PHYSADDR_MASK)) < 4096"
          using memcpy_in_page [OF _ _ pc(5)] pc(2,6) len by simp
        then show ?thesis using e(1) ok unfolding user_byte_def by metis
      qed
      moreover have "r = (if \<forall>x. offs \<le> x \<and> x < count \<longrightarrow> user_ok ?w (translate hhdm root (um_paging u) (dest + x))
           then 0 else - EFAULT)"
        using ih(4) user_range_step [OF nw pc(2,6,1) ok] by (simp only: tr)
      ultimately show ?thesis using step ih(1) same_space_trans [OF s1 ih(2)] by auto
    qed
  qed
qed

text \<open>The byte the user reads at an address.\<close>

definition user_load :: "u64 \<Rightarrow> u64 \<Rightarrow> umem \<Rightarrow> u64 \<Rightarrow> u8" where
  "user_load hhdm root u va =
     um_bytes u (phys_to_virt hhdm ((the (translate hhdm root (um_paging u) va) AND PHYSADDR_MASK) + va mod PAGE_LEN))"

lemma memcpy_out_load:
  assumes nw: "unat start + unat count + 4096 \<le> 2 ^ 64" and n: "unat offs + unat n \<le> unat count"
    and k: "unat ((start + offs) mod PAGE_LEN) + unat n \<le> 4096"
    and t: "translate hhdm root (um_paging u) (start + offs) = Some e"
    and src: "sp = phys_to_virt hhdm ((e AND PHYSADDR_MASK) + (start + offs) mod PAGE_LEN)"
    and i: "unat offs \<le> i" "i < unat offs + unat n"
  shows "memcpy_out sp (unat n) (um_bytes u) ! (i - unat offs) = user_load hhdm root u (start + of_nat i)"
proof -
  have "unat (of_nat i :: u64) = i" using i n nw by (intro unat_of_nat_u64) simp
  then have x: "unat (of_nat i :: u64) = unat offs + (i - unat offs)" "i - unat offs < unat n"
    using i by simp_all
  note c = chunk_page [OF nw n k x]
  have "translate hhdm root (um_paging u) (start + of_nat i) = Some e"
    using translate_page [OF c(1)] t by simp
  then show ?thesis using x(2) c(2) src
    by (simp add: memcpy_out_def user_load_def phys_to_virt_def algebra_simps)
qed

lemma copy_in_law:
  assumes nw: "unat src + unat count + 4096 \<le> 2 ^ 64"
  shows "\<lbrakk>tree_ok hhdm (pmem (um_paging u)) root us; offs \<le> count; length dest = unat count;
      offs = 0 \<or> offs = count \<or> (unat src + unat offs) mod 4096 = 0\<rbrakk> \<Longrightarrow>
    \<exists>r d u'. copy_in_loop hhdm dest src count root offs u = Some (Inr (r, d, u')) \<and>
      same_space hhdm root us (um_paging u) (um_paging u') \<and> um_bytes u' = um_bytes u \<and> length d = length dest \<and>
      r = (if \<forall>x. offs \<le> x \<and> x < count \<longrightarrow> user_ok False (translate hhdm root (um_paging u) (src + x))
           then 0 else - EFAULT) \<and>
      (r = 0 \<longrightarrow> (\<forall>i < unat count. d ! i = (if i < unat offs then dest ! i else user_load hhdm root u (src + of_nat i))))"
proof (induction "unat count - unat offs" arbitrary: offs dest u rule: less_induct)
  case less
  show ?case
  proof (cases "offs < count")
    case False
    then have "offs = count" using less.prems by simp
    then show ?thesis using less.prems
      by (subst copy_in_loop.simps) (auto simp: same_space_refl)
  next
    case o: True
    let ?t = "translate hhdm root (um_paging u) (src + offs)"
    obtain pg p1 where f: "find_page hhdm (src + offs) False root (um_paging u) = Inr (pg, p1)"
      and s1: "same_space hhdm root us (um_paging u) p1"
      and c: "case ?t of None \<Rightarrow> pg = 0 | Some e \<Rightarrow> pg \<noteq> 0 \<and> pmem p1 pg = e \<and> e AND PAGE_FLAG_PRESENT \<noteq> 0"
      using find_page_translate [OF less.prems(1)] by blast
    show ?thesis
    proof (cases "user_ok False ?t")
      case False
      then have n: "\<not> (\<forall>x. offs \<le> x \<and> x < count \<longrightarrow> user_ok False (translate hhdm root (um_paging u) (src + x)))"
        using o by auto
      have "copy_in_loop hhdm dest src count root offs u = Some (Inr (- EFAULT, dest, u\<lparr>um_paging := p1\<rparr>))"
        using False o f c by (subst copy_in_loop.simps) (auto simp: user_ok_def Let_def split: option.splits)
      with n show ?thesis using s1 by (auto simp: EFAULT_def)
    next
      case ok: True
      then obtain e where e: "?t = Some e" "e AND PAGE_FLAG_USER \<noteq> 0"
        by (auto simp: user_ok_def split: option.splits)
      obtain sp n where ch: "page_chunk hhdm src count offs e = (sp, n)" by fastforce
      have al: "offs = 0 \<or> (unat src + unat offs) mod 4096 = 0" using less.prems(4) o by auto
      note pc = page_chunk_law [OF nw o al ch]
      let ?u = "u\<lparr>um_paging := p1\<rparr>"
      let ?d = "take (unat offs) dest @ memcpy_out sp (unat n) (um_bytes u) @ drop (unat offs + unat n) dest"
      have step: "copy_in_loop hhdm dest src count root offs u = copy_in_loop hhdm ?d src count root (offs + n) ?u"
        using o f c e ch pc(2) less.prems(3) by (subst copy_in_loop.simps) (auto simp: Let_def)
      have ld: "length ?d = unat count" using pc(2) less.prems(3) by (simp add: memcpy_out_def)
      have le: "offs + n \<le> count" and lt: "unat count - unat (offs + n) < unat count - unat offs"
        using pc(1-3) by (simp_all add: word_le_nat_alt)
      have al': "offs + n = 0 \<or> offs + n = count \<or> (unat src + unat (offs + n)) mod 4096 = 0" using pc(4) by blast
      have tk: "tree_ok hhdm (pmem (um_paging ?u)) root us" using s1 by (simp add: same_space_def)
      have tr: "translate hhdm root p1 = translate hhdm root (um_paging u)" using s1 by (simp add: same_space_def)
      obtain r d u' where ih: "copy_in_loop hhdm ?d src count root (offs + n) ?u = Some (Inr (r, d, u'))"
        "same_space hhdm root us (um_paging ?u) (um_paging u')" "um_bytes u' = um_bytes ?u" "length d = length ?d"
        "r = (if \<forall>x. offs + n \<le> x \<and> x < count \<longrightarrow> user_ok False (translate hhdm root (um_paging ?u) (src + x)) then 0 else - EFAULT)"
        "r = 0 \<longrightarrow> (\<forall>i < unat count. d ! i = (if i < unat (offs + n) then ?d ! i else user_load hhdm root ?u (src + of_nat i)))"
        using less.hyps [OF lt tk le ld al'] by (elim exE conjE) (rule that)
      have u1: "um_paging ?u = p1" "um_bytes ?u = um_bytes u" "length ?d = length dest" using ld less.prems(3) by simp_all
      note ih = ih [unfolded u1]
      have "?d ! i = (if i < unat offs then dest ! i else user_load hhdm root u (src + of_nat i))"
        if i: "i < unat (offs + n)" for i
        using memcpy_out_load [OF nw pc(2,6) e(1) pc(5), of i] i pc(2,3) less.prems(3)
        by (auto simp: nth_append memcpy_out_def)
      moreover have "user_load hhdm root ?u = user_load hhdm root u" by (simp add: fun_eq_iff user_load_def tr)
      ultimately have "r = 0 \<longrightarrow> (\<forall>i < unat count. d ! i = (if i < unat offs then dest ! i else user_load hhdm root u (src + of_nat i)))"
        using ih(6) pc(3) by auto
      moreover have "r = (if \<forall>x. offs \<le> x \<and> x < count \<longrightarrow> user_ok False (translate hhdm root (um_paging u) (src + x))
           then 0 else - EFAULT)"
        using ih(5) user_range_step [OF nw pc(2,6,1) ok] by (simp only: tr)
      ultimately show ?thesis using step ih(1,3,4) same_space_trans [OF s1 ih(2)] by auto
    qed
  qed
qed

section \<open>Mapping user memory\<close>

lemma memmap_flags_ok: "flags_ok (memmap_page_flags fl)"
  by (simp add: flags_ok_def memmap_page_flags_def page_flag_defs PAGE_FLAG_NX_def)

lemma map_single_page:
  "map_virtual_memory_using_alloc hhdm pa va PAGE_LEN fl f root st =
     (case map_one hhdm pa va fl f root st of Inl e \<Rightarrow> Some (Inl e) | Inr st1 \<Rightarrow> Some (Inr st1))"
  unfolding map_virtual_memory_using_alloc_def
  by (subst map_loop.simps, simp add: PAGE_LEN_def split: sum.split, subst map_loop.simps, simp add: PAGE_LEN_def)

text \<open>One page of \<^verbatim>\<open>syscall_routine_memmap\<close>: the first free frame is cleared and mapped.\<close>

lemma memmap_page_law:
  assumes ok: "space_ok hhdm n root (f # us) (um_paging u)" and l: "3 \<le> length us"
    and un: "translate hhdm root (um_paging u) va = None"
  shows "\<exists>u' k. memmap_page hhdm va fl root u = Some (Inr (0, u')) \<and> k \<le> 3 \<and>
    space_ok hhdm n root (drop k us) (um_paging u') \<and>
    um_bytes u' = memcpy_in f (replicate 4096 0) (um_bytes u) \<and>
    (\<forall>x. translate hhdm root (um_paging u') x =
       (if vpath x = vpath va then Some ((f - hhdm) OR memmap_page_flags fl) else translate hhdm root (um_paging u) x))"
proof -
  let ?p = "um_paging u" and ?fl = "memmap_page_flags fl"
  from ok have tr: "tree_ok hhdm (pmem ?p) root (f # us)" and np: "node_pages hhdm n ?p (f # us)" by (simp_all add: space_ok_def)
  have g: "get_physaddr hhdm va root ?p = Inr 0"
    using get_physaddr_leaf [OF tr] un by (simp add: translate_def)
  obtain ph where d: "find_next_free_frame (pphys ?p) = Inr (f - hhdm, ph)" "f - hhdm \<noteq> 0"
    "node_pages hhdm n (?p\<lparr>pphys := ph\<rparr>) us" using node_draw [OF np] by blast
  have "tree_ok hhdm (pmem ?p) root us" using tr unfolding tree_ok_def by auto
  then have "nodes.tables hhdm n root us (?p\<lparr>pphys := ph\<rparr>)"
    using d(3) by (simp add: space_tables [symmetric] space_ok_def)
  from nodes.map_one_law [OF this l memmap_flags_ok, of "f - hhdm" va fl] obtain st us' k where
    m: "map_one hhdm (f - hhdm) va ?fl (alloc_paging_node hhdm) root (?p\<lparr>pphys := ph\<rparr>) = Inr st"
      "nodes.tables hhdm n root us' st" "k \<le> 3" "us' = drop k us"
      "leaf hhdm (pmem st) root (dir_path va) (pt_index va) = Some (((f - hhdm) AND PHYSADDR_MASK) OR ?fl)"
      "\<forall>q j. path_ok q \<and> length q = 3 \<and> j < 512 \<and> (q, j) \<noteq> vpath va \<longrightarrow>
         leaf hhdm (pmem st) root q j = leaf hhdm (pmem (?p\<lparr>pphys := ph\<rparr>)) root q j"
    by (elim exE conjE) (rule that)
  have fm: "(f - hhdm) AND PHYSADDR_MASK = f - hhdm" using node_pages_law [OF np] by simp
  have "memmap_page hhdm va fl root u =
      Some (Inr (0, u\<lparr>um_paging := st, um_bytes := memcpy_in f (replicate 4096 0) (um_bytes u)\<rparr>))"
    using g d(1,2) m(1) by (simp add: memmap_page_def Let_def map_single_page phys_to_virt_def)
  moreover have "translate hhdm root st x =
      (if vpath x = vpath va then Some ((f - hhdm) OR ?fl) else translate hhdm root ?p x)" for x
    using m(5,6) dir_path_ok [of x] fm by (auto simp: translate_def)
  ultimately show ?thesis using m(2-4) by (auto simp: space_tables)
qed

definition nth_page :: "u64 \<Rightarrow> nat \<Rightarrow> u64" where "nth_page va k = va + of_nat (4096 * k)"

lemma nth_page_simps [simp]:
  "nth_page va 0 = va" "nth_page (va + PAGE_LEN) k = nth_page va (Suc k)"
  by (simp_all add: nth_page_def PAGE_LEN_def)

lemma nth_page_inj:
  "dir_path (nth_page va k) = dir_path (nth_page va l) \<Longrightarrow> pt_index (nth_page va k) = pt_index (nth_page va l) \<Longrightarrow>
    k < 2 ^ 36 \<Longrightarrow> l < 2 ^ 36 \<Longrightarrow> k = l"
  using vpath_inj [of va k l] by (simp only: nth_page_def)

text \<open>The pages \<open>fs\<close> back the first \<open>length fs\<close> pages of the range at \<open>va\<close>: they are mapped with the given flags,
  all zero, and nothing else changed.\<close>

definition backed :: "u64 \<Rightarrow> u64 \<Rightarrow> u64 \<Rightarrow> u64 \<Rightarrow> u64 list \<Rightarrow> umem \<Rightarrow> umem \<Rightarrow> bool" where
  "backed hhdm root va fl fs u u' \<longleftrightarrow>
     (\<forall>k < length fs. translate hhdm root (um_paging u') (nth_page va k) =
        Some ((fs ! k - hhdm) OR memmap_page_flags fl)) \<and>
     (\<forall>f \<in> set fs. \<forall>x. unat (x - f) < 4096 \<longrightarrow> um_bytes u' x = 0) \<and>
     (\<forall>x. (\<forall>k < length fs. vpath x \<noteq> vpath (nth_page va k)) \<longrightarrow>
        translate hhdm root (um_paging u') x = translate hhdm root (um_paging u) x) \<and>
     (\<forall>x. um_bytes u' x \<noteq> um_bytes u x \<longrightarrow> (\<exists>f \<in> set fs. unat (x - f) < 4096))"

lemma backed_Nil [simp]: "backed hhdm root va fl [] u u"
  by (simp add: backed_def)

lemma backedD:
  assumes "backed hhdm root va fl fs u u'"
  shows "k < length fs \<Longrightarrow> translate hhdm root (um_paging u') (nth_page va k) = Some ((fs ! k - hhdm) OR memmap_page_flags fl)"
    "f \<in> set fs \<Longrightarrow> unat (x - f) < 4096 \<Longrightarrow> um_bytes u' x = 0"
    "\<forall>k < length fs. vpath x \<noteq> vpath (nth_page va k) \<Longrightarrow>
      translate hhdm root (um_paging u') x = translate hhdm root (um_paging u) x"
    "um_bytes u' x \<noteq> um_bytes u x \<Longrightarrow> \<exists>f \<in> set fs. unat (x - f) < 4096"
  using assms unfolding backed_def by blast+

lemma backed_Cons:
  assumes t: "\<forall>x. translate hhdm root (um_paging u1) x =
       (if vpath x = vpath va then Some ((f - hhdm) OR memmap_page_flags fl) else translate hhdm root (um_paging u) x)"
    and z: "um_bytes u1 = memcpy_in f (replicate 4096 0) (um_bytes u)"
    and b: "backed hhdm root (va + PAGE_LEN) fl fs u1 u'" and l: "length fs < 2 ^ 36 - 1"
  shows "backed hhdm root va fl (f # fs) u u'"
proof -
  note bD = backedD [OF b, unfolded nth_page_simps]
  have "vpath va \<noteq> vpath (nth_page va (Suc k))" if "k < length fs" for k
    using nth_page_inj [of va 0 "Suc k"] that l by auto
  then have t0: "translate hhdm root (um_paging u') va = Some ((f - hhdm) OR memmap_page_flags fl)"
    using bD(3) [of va] t by simp
  have zf: "um_bytes u1 x = (if unat (x - f) < 4096 then 0 else um_bytes u x)" for x by (simp add: z memcpy_in_def)
  have 1: "translate hhdm root (um_paging u') (nth_page va k) = Some (((f # fs) ! k - hhdm) OR memmap_page_flags fl)"
    if "k < length (f # fs)" for k using that t0 bD(1) by (cases k) simp_all
  have 2: "um_bytes u' x = 0" if "g \<in> set (f # fs)" "unat (x - g) < 4096" for g x
  proof (cases "um_bytes u' x = um_bytes u1 x")
    case True
    then show ?thesis using that zf [of x] bD(2) [of g x] by (cases "g = f") simp_all
  next
    case False
    then show ?thesis using bD(2,4) by blast
  qed
  have 3: "translate hhdm root (um_paging u') x = translate hhdm root (um_paging u) x"
    if h: "\<forall>k < length (f # fs). vpath x \<noteq> vpath (nth_page va k)" for x
  proof -
    have "vpath x \<noteq> vpath va" using h [rule_format, of 0] by simp
    moreover have "\<forall>k < length fs. vpath x \<noteq> vpath (nth_page va (Suc k))" using h by auto
    ultimately show ?thesis using bD(3) [of x] t [THEN spec, of x] by auto
  qed
  have 4: "\<exists>g \<in> set (f # fs). unat (x - g) < 4096" if "um_bytes u' x \<noteq> um_bytes u x" for x
    using that bD(4) [of x] zf [of x] by (cases "um_bytes u' x = um_bytes u1 x") (auto split: if_splits)
  show ?thesis unfolding backed_def using 1 2 3 4 by blast
qed

text \<open>The loop, up to the first page of the range that is mapped already.\<close>

lemma memmap_loop_law:
  shows "\<lbrakk>space_ok hhdm n root us (um_paging u); unat va + 4096 * N < 2 ^ 64; N = (unat limit - unat va + 4095) div 4096;
      M \<le> N; M < 2 ^ 36; 4 * M \<le> length us;
      \<forall>k < M. translate hhdm root (um_paging u) (nth_page va k) = None;
      M < N \<longrightarrow> (\<exists>e. translate hhdm root (um_paging u) (nth_page va M) = Some e \<and> e AND PHYSADDR_MASK \<noteq> 0);
      unat va mod 4096 = 0\<rbrakk> \<Longrightarrow>
    \<exists>u' fs us'. memmap_loop hhdm va limit fl root u = Some (Inr (if M = N then 0 else - EEXIST, u')) \<and>
      space_ok hhdm n root us' (um_paging u') \<and> length fs = M \<and> distinct fs \<and> set fs \<subseteq> set us \<and> set us' \<subseteq> set us - set fs \<and>
      backed hhdm root va fl fs u u'"
proof (induction M arbitrary: va N u us)
  case 0
  show ?case
  proof (cases "va < limit")
    case True
    then have "0 < N" using 0(3) by (simp add: word_less_nat_alt div_eq_0_iff)
    then obtain e where e: "translate hhdm root (um_paging u) va = Some e" "e AND PHYSADDR_MASK \<noteq> 0" using 0 by auto
    have "tree_ok hhdm (pmem (um_paging u)) root us" using 0(1) by (simp add: space_ok_def)
    from get_physaddr_leaf [OF this, of va] e
    have "get_physaddr hhdm va root (um_paging u) = Inr ((e AND PHYSADDR_MASK) + (va AND 0xFFF))"
      by (simp add: translate_def)
    moreover have "va AND 0xFFF = 0" using 0(9) by (simp add: and_4095 word_unat_eq_iff unat_mod)
    ultimately have "memmap_page hhdm va fl root u = Some (Inr (- EEXIST, u))"
      using e(2) by (simp add: memmap_page_def)
    then have "memmap_loop hhdm va limit fl root u = Some (Inr (- EEXIST, u))"
      using True by (subst memmap_loop.simps) (simp add: EEXIST_def)
    then show ?thesis using \<open>0 < N\<close> 0(1) by (auto intro!: exI [of _ us] exI [of _ u])
  next
    case False
    then have "N = 0" using 0(3) by (simp add: word_less_nat_alt)
    then show ?thesis using False 0(1) by (subst memmap_loop.simps) (auto intro!: exI [of _ us])
  qed
next
  case (Suc M)
  obtain f us1 where us: "us = f # us1" using Suc.prems(6) by (cases us) auto
  have lt: "va < limit" using Suc.prems(3,4) by (simp add: word_less_nat_alt)
  have tn: "translate hhdm root (um_paging u) va = None" using Suc.prems(7) [rule_format, of 0] by simp
  obtain u1 k where 1: "memmap_page hhdm va fl root u = Some (Inr (0, u1))" "k \<le> 3"
    "space_ok hhdm n root (drop k us1) (um_paging u1)" "um_bytes u1 = memcpy_in f (replicate 4096 0) (um_bytes u)"
    "\<forall>x. translate hhdm root (um_paging u1) x =
       (if vpath x = vpath va then Some ((f - hhdm) OR memmap_page_flags fl) else translate hhdm root (um_paging u) x)"
    using memmap_page_law [of hhdm n root f us1 u va fl] Suc.prems(1,6) tn us by auto
  have un: "unat (va + PAGE_LEN) = unat va + 4096" using Suc.prems(2,4) by (simp add: unat_word_ariths PAGE_LEN_def)
  obtain N' where N: "N = Suc N'" using Suc.prems(4) by (cases N) auto
  have N': "N' = (unat limit - unat (va + PAGE_LEN) + 4095) div 4096" using Suc.prems(3) N un by linarith
  have tr: "translate hhdm root (um_paging u1) (nth_page va (Suc j)) = translate hhdm root (um_paging u) (nth_page va (Suc j))"
    if "j \<le> M" for j
    using 1(5) nth_page_inj [of va 0 "Suc j"] that Suc.prems(5) by auto
  have p2: "unat (va + PAGE_LEN) + 4096 * N' < 2 ^ 64" "M \<le> N'" "M < 2 ^ 36" "4 * M \<le> length (drop k us1)"
    "unat (va + PAGE_LEN) mod 4096 = 0"
    using Suc.prems(2,4-6,9) N un us 1(2) by simp_all
  have p3: "\<forall>j < M. translate hhdm root (um_paging u1) (nth_page (va + PAGE_LEN) j) = None"
    "M < N' \<longrightarrow> (\<exists>e. translate hhdm root (um_paging u1) (nth_page (va + PAGE_LEN) M) = Some e \<and> e AND PHYSADDR_MASK \<noteq> 0)"
    using Suc.prems(7,8) N tr by simp_all
  from Suc.IH [OF 1(3) p2(1) N' p2(2-4) p3 p2(5)] obtain u' fs us' where
    2: "memmap_loop hhdm (va + PAGE_LEN) limit fl root u1 = Some (Inr (if M = N' then 0 else - EEXIST, u'))"
      "space_ok hhdm n root us' (um_paging u')" "length fs = M" "distinct fs" "set fs \<subseteq> set (drop k us1)"
      "set us' \<subseteq> set (drop k us1) - set fs" "backed hhdm root (va + PAGE_LEN) fl fs u1 u'"
    by (elim exE conjE) (rule that)
  have "distinct us" using node_pages_law Suc.prems(1) unfolding space_ok_def by blast
  then have "f \<notin> set (drop k us1)" "set (drop k us1) \<subseteq> set us" using us by (auto dest: in_set_dropD)
  moreover have "memmap_loop hhdm va limit fl root u = Some (Inr (if Suc M = N then 0 else - EEXIST, u'))"
    using lt 1(1) 2(1) N by (subst memmap_loop.simps) simp
  moreover have "backed hhdm root va fl (f # fs) u u'"
    using backed_Cons [OF 1(5,4) 2(7)] 2(3) Suc.prems(5) by simp
  ultimately show ?case using 2(2-6) us by (intro exI [of _ u'] exI [of _ "f # fs"] exI [of _ us']) auto
qed

section \<open>Changing the protection of a page\<close>

text \<open>The new flags never add a right.\<close>

lemma memprotect_flags_law:
  assumes "memprotect_flags fl e = Inr nf"
  shows "flags_ok nf" "nf AND PAGE_FLAG_WRITE \<noteq> 0 \<Longrightarrow> e AND PAGE_FLAG_WRITE \<noteq> 0"
    "e AND PAGE_FLAG_NX \<noteq> 0 \<Longrightarrow> nf AND PAGE_FLAG_NX \<noteq> 0" "e AND PAGE_FLAG_USER \<noteq> 0"
  using assms
  by (auto simp: memprotect_flags_def Let_def flags_ok_def page_flag_defs PAGE_FLAG_NX_def split: if_splits)

lemma same_space_ok:
  assumes "space_ok hhdm n root us p" "same_space hhdm root us p p1" shows "space_ok hhdm n root us p1"
  using assms by (simp add: space_ok_def same_space_def node_pages_def)

section \<open>Properties\<close>

definition small_umem :: umem where "small_umem = \<lparr>um_paging = small_space, um_bytes = (\<lambda>_. 0)\<rparr>"

lemma small_unmapped: "translate small_hhdm small_hhdm (um_paging small_umem) x = None"
proof -
  have "walk small_hhdm (\<lambda>_. 0) small_hhdm (dir_path x) = None"
    using dir_path_ok(2) [of x] by (cases "dir_path x") auto
  then show ?thesis by (simp add: translate_def leaf_def small_umem_def small_space_def)
qed

text \<open>C19. Copying to user memory. For a range that does not wrap, the copy returns; it leaves every translation
  and the frame allocator as they were, it changes only bytes of pages the user may write (may access, when
  the write check is overridden), and it reports success exactly when every byte of the range is in such a
  page, \<^verbatim>\<open>-EFAULT\<close> otherwise.\<close>

theorem copy_to_user_buf_safe:
  assumes "tree_ok hhdm (pmem (um_paging u)) root us" "unat dest + unat count + 4096 \<le> 2 ^ 64"
    "length src = unat count"
  shows "\<exists>r u'. copy_to_user_buf hhdm dest src count override root u = Some (Inr (r, u')) \<and>
    same_space hhdm root us (um_paging u) (um_paging u') \<and>
    (\<forall>x. um_bytes u' x \<noteq> um_bytes u x \<longrightarrow> user_byte hhdm root (\<not> override) (um_paging u) x) \<and>
    r = (if \<forall>x < count. user_ok (\<not> override) (translate hhdm root (um_paging u) (dest + x)) then 0 else - EFAULT)"
  using copy_out_law [OF assms(2,3,1), of 0 override] unfolding copy_to_user_buf_def by simp

theorem copy_to_user_buf_safe_witness:
  "\<exists>r u'. copy_to_user_buf small_hhdm 0x400FFE [1, 2, 3] 3 False small_hhdm small_umem = Some (Inr (r, u')) \<and>
    same_space small_hhdm small_hhdm small_pages (um_paging small_umem) (um_paging u') \<and>
    (\<forall>x. um_bytes u' x \<noteq> um_bytes small_umem x \<longrightarrow> user_byte small_hhdm small_hhdm (\<not> False) (um_paging small_umem) x) \<and>
    r = (if \<forall>x < 3. user_ok (\<not> False) (translate small_hhdm small_hhdm (um_paging small_umem) (0x400FFE + x)) then 0 else - EFAULT)"
  using small_space_ok by (intro copy_to_user_buf_safe) (simp_all add: small_umem_def space_ok_def)

text \<open>C20. Copying from user memory. The copy returns, leaves all memory and every translation as they were,
  reports success exactly when the user may access every byte of the range, and then the buffer holds what
  the user reads there.\<close>

theorem copy_to_kernel_buf_loads:
  assumes "tree_ok hhdm (pmem (um_paging u)) root us" "unat src + unat count + 4096 \<le> 2 ^ 64"
    "length dest = unat count"
  shows "\<exists>r d u'. copy_to_kernel_buf hhdm dest src count root u = Some (Inr (r, d, u')) \<and>
    same_space hhdm root us (um_paging u) (um_paging u') \<and> um_bytes u' = um_bytes u \<and>
    r = (if \<forall>x < count. user_ok False (translate hhdm root (um_paging u) (src + x)) then 0 else - EFAULT) \<and>
    (r = 0 \<longrightarrow> d = map (\<lambda>i. user_load hhdm root u (src + of_nat i)) [0..<unat count])"
proof -
  from copy_in_law [OF assms(2,1) _ assms(3), of 0] obtain r d u' where
    c: "copy_in_loop hhdm dest src count root 0 u = Some (Inr (r, d, u'))"
      "same_space hhdm root us (um_paging u) (um_paging u')" "um_bytes u' = um_bytes u" "length d = length dest"
      "r = (if \<forall>x. 0 \<le> x \<and> x < count \<longrightarrow> user_ok False (translate hhdm root (um_paging u) (src + x)) then 0 else - EFAULT)"
      "r = 0 \<longrightarrow> (\<forall>i < unat count. d ! i = (if i < unat (0 :: u64) then dest ! i else user_load hhdm root u (src + of_nat i)))"
    by auto
  have "r = 0 \<longrightarrow> d = map (\<lambda>i. user_load hhdm root u (src + of_nat i)) [0..<unat count]"
    using c(4,6) assms(3) by (simp add: list_eq_iff_nth_eq)
  then show ?thesis using c(1-3,5) unfolding copy_to_kernel_buf_def by simp
qed

theorem copy_to_kernel_buf_loads_witness:
  "\<exists>r d u'. copy_to_kernel_buf small_hhdm [0, 0] 0x400FFF 2 small_hhdm small_umem = Some (Inr (r, d, u')) \<and>
    same_space small_hhdm small_hhdm small_pages (um_paging small_umem) (um_paging u') \<and> um_bytes u' = um_bytes small_umem \<and>
    r = (if \<forall>x < 2. user_ok False (translate small_hhdm small_hhdm (um_paging small_umem) (0x400FFF + x)) then 0 else - EFAULT) \<and>
    (r = 0 \<longrightarrow> d = map (\<lambda>i. user_load small_hhdm small_hhdm small_umem (0x400FFF + of_nat i)) [0..<unat (2 :: u64)])"
  using small_space_ok by (intro copy_to_kernel_buf_loads) (simp_all add: small_umem_def space_ok_def)

text \<open>The pages \<^verbatim>\<open>syscall_routine_memmap\<close> visits: the limit is the unaligned address plus the rounded length,
  so that an unaligned address costs one page more than the bytes need.\<close>

definition memmap_pages :: "u64 \<Rightarrow> u64 \<Rightarrow> nat" where
  "memmap_pages addr len =
     (let off = unat addr mod 4096 in (unat len + off + 4095) div 4096 + (if off = 0 then 0 else 1))"

lemma ceil_page: "r < 4096 \<Longrightarrow> (r + 4095) div 4096 = (if r = 0 then 0 else 1 :: nat)"
  by (simp add: div_nat_eqI)

lemma round_up_page:
  "(if L mod 4096 \<noteq> 0 then L + (4096 - L mod 4096) else L) = 4096 * ((L + 4095) div (4096 :: nat))"
proof -
  obtain q r where "L = 4096 * q + r" "r < 4096"
    by (metis mod_less_divisor mult_div_mod_eq zero_less_numeral)
  then show ?thesis using ceil_page [of r] by (simp add: add.assoc)
qed

lemma adjust_length_law:
  assumes "unat len + 8192 \<le> 2 ^ 64"
  shows "unat (adjust_length addr len) = 4096 * ((unat len + unat addr mod 4096 + 4095) div 4096)"
proof -
  let ?l = "if addr mod PAGE_LEN \<noteq> 0 then len + addr mod PAGE_LEN else len"
  have l: "unat ?l = unat len + unat addr mod 4096"
    using assms by (auto simp: unat_word_ariths unat_mod_page word_unat_eq_iff)
  have "unat addr mod 4096 < 4096" by simp
  then have b: "unat len + unat addr mod 4096 + 4096 < 18446744073709551616" using assms by simp
  have "unat (?l mod PAGE_LEN) = (unat len + unat addr mod 4096) mod 4096" by (simp only: unat_mod_page l)
  moreover have "unat (PAGE_LEN - ?l mod PAGE_LEN) = 4096 - unat (?l mod PAGE_LEN)"
    by (simp only: unat_page_gap unat_mod_page)
  ultimately have "unat (adjust_length addr len) = (let L = unat len + unat addr mod 4096 in
      if L mod 4096 \<noteq> 0 then L + (4096 - L mod 4096) else L)"
    using l b by (auto simp: adjust_length_def Let_def unat_word_ariths word_unat_eq_iff intro!: mod_less le_less_trans [OF diff_le_self])
  also have "\<dots> = 4096 * ((unat len + unat addr mod 4096 + 4095) div 4096)"
    unfolding Let_def by (rule round_up_page)
  finally show ?thesis .
qed

lemma memmap_range:
  assumes "unat addr + unat len + 12288 \<le> 2 ^ 64"
  shows "unat (addr - addr mod PAGE_LEN) = 4096 * (unat addr div 4096)"
    "unat (addr - addr mod PAGE_LEN) + 4096 * memmap_pages addr len < 2 ^ 64"
    "memmap_pages addr len = (unat (addr + adjust_length addr len) - unat (addr - addr mod PAGE_LEN) + 4095) div 4096"
proof -
  let ?off = "unat addr mod 4096" and ?q = "(unat len + unat addr mod 4096 + 4095) div 4096"
  have "unat (addr - addr mod PAGE_LEN) = unat addr - ?off"
    by (subst unat_sub) (simp_all add: word_le_nat_alt unat_mod_page)
  then show va: "unat (addr - addr mod PAGE_LEN) = 4096 * (unat addr div 4096)"
    by (simp add: minus_mod_eq_mult_div)
  have ad: "unat addr = 4096 * (unat addr div 4096) + ?off" by simp
  have q: "4096 * ?q \<le> unat len + ?off + 4095" "?off < 4096" by simp_all
  show "unat (addr - addr mod PAGE_LEN) + 4096 * memmap_pages addr len < 2 ^ 64"
  proof -
    have "memmap_pages addr len \<le> ?q + 1" by (simp add: memmap_pages_def Let_def)
    moreover have "unat addr + unat len + 12288 \<le> 18446744073709551616" using assms by simp
    ultimately have "4096 * (unat addr div 4096) + 4096 * memmap_pages addr len < 18446744073709551616"
      using ad q by linarith
    then show ?thesis unfolding va by simp
  qed
  have "unat (addr + adjust_length addr len) = unat addr + 4096 * ?q"
    using assms adjust_length_law [of len addr] q by (simp add: unat_word_ariths)
  then have "unat (addr + adjust_length addr len) - unat (addr - addr mod PAGE_LEN) + 4095 = ?off + 4095 + 4096 * ?q"
    using ad va by linarith
  moreover have "(?off + 4095 + 4096 * ?q) div 4096 = ?q + (?off + 4095) div 4096" by simp
  moreover have "(?off + 4095) div 4096 = (if ?off = 0 then 0 else 1)" using q(2) by (rule ceil_page)
  ultimately show "memmap_pages addr len = (unat (addr + adjust_length addr len) - unat (addr - addr mod PAGE_LEN) + 4095) div 4096"
    by (simp only: memmap_pages_def Let_def)
qed

text \<open>C21. The system call that maps anonymous memory, whatever the address, in the kernel half included. Let
  the first \<open>M\<close> pages of the range be unmapped, and page \<open>M\<close>, if the range has one, be mapped. With enough
  free frames the call maps each of the first \<open>M\<close> pages to a different free frame, cleared, with the requested
  rights, touches nothing else, and returns 0 when that is the whole range and \<^verbatim>\<open>-EEXIST\<close> otherwise; the pages
  mapped before the error stay mapped.\<close>

theorem memmap_backs_range:
  assumes "space_ok hhdm n root us (um_paging u)" "unat addr + unat len + 12288 \<le> 2 ^ 64"
    "M \<le> memmap_pages addr len" "M < 2 ^ 36" "4 * M \<le> length us"
    "\<forall>k < M. translate hhdm root (um_paging u) (nth_page (addr - addr mod PAGE_LEN) k) = None"
    "M < memmap_pages addr len \<longrightarrow>
       (\<exists>e. translate hhdm root (um_paging u) (nth_page (addr - addr mod PAGE_LEN) M) = Some e \<and> e AND PHYSADDR_MASK \<noteq> 0)"
  shows "\<exists>u' fs us'. syscall_routine_memmap hhdm addr len fl root u =
      Some (Inr (if M = memmap_pages addr len then 0 else - EEXIST, u')) \<and>
    space_ok hhdm n root us' (um_paging u') \<and> length fs = M \<and> distinct fs \<and> set fs \<subseteq> set us \<and> set us' \<subseteq> set us - set fs \<and>
    backed hhdm root (addr - addr mod PAGE_LEN) fl fs u u'"
  unfolding syscall_routine_memmap_def
  using memmap_loop_law [OF assms(1) memmap_range(2,3) [OF assms(2)] assms(3-7)] memmap_range(1) [OF assms(2)] by simp

theorem memmap_backs_range_witness:
  "\<exists>u' fs us'. syscall_routine_memmap small_hhdm 0x400000 1 SYSCALL_MEMMAP_FLAG_WR small_hhdm small_umem =
      Some (Inr (if 1 = memmap_pages 0x400000 1 then 0 else - EEXIST, u')) \<and>
    space_ok small_hhdm 9 small_hhdm us' (um_paging u') \<and> length fs = 1 \<and> distinct fs \<and> set fs \<subseteq> set small_pages \<and>
    set us' \<subseteq> set small_pages - set fs \<and>
    backed small_hhdm small_hhdm (0x400000 - 0x400000 mod PAGE_LEN) SYSCALL_MEMMAP_FLAG_WR fs small_umem u'"
proof -
  show ?thesis
    using small_unmapped memmap_backs_range [where hhdm = small_hhdm and n = 9 and root = small_hhdm and us = small_pages and u = small_umem
        and addr = "0x400000" and len = 1 and M = 1 and fl = SYSCALL_MEMMAP_FLAG_WR]
      small_space_ok by (simp add: memmap_pages_def small_umem_def small_pages_def)
qed

text \<open>C22. Changing protection. On a mapped page the call returns and keeps the address space well formed; the
  page keeps its frame, it is writable or accessible afterwards only if it was before, it stays
  non-executable if it was, and every other page keeps its translation, whatever the errno.\<close>

theorem memprotect_never_grants:
  assumes "space_ok hhdm n root us (um_paging u)" "3 \<le> length us" "translate hhdm root (um_paging u) va = Some e"
  shows "\<exists>r u' us' e'. memprotect_page hhdm va fl root u = Some (Inr (r, u')) \<and> space_ok hhdm n root us' (um_paging u') \<and>
    um_bytes u' = um_bytes u \<and> translate hhdm root (um_paging u') va = Some e' \<and>
    e' AND PHYSADDR_MASK = e AND PHYSADDR_MASK \<and>
    (e' AND PAGE_FLAG_WRITE \<noteq> 0 \<longrightarrow> e AND PAGE_FLAG_WRITE \<noteq> 0) \<and>
    (e' AND PAGE_FLAG_USER \<noteq> 0 \<longrightarrow> e AND PAGE_FLAG_USER \<noteq> 0) \<and>
    (e AND PAGE_FLAG_NX \<noteq> 0 \<longrightarrow> e' AND PAGE_FLAG_NX \<noteq> 0) \<and>
    (\<forall>x. vpath x \<noteq> vpath va \<longrightarrow> translate hhdm root (um_paging u') x = translate hhdm root (um_paging u) x)"
proof -
  have tr: "tree_ok hhdm (pmem (um_paging u)) root us" using assms(1) by (simp add: space_ok_def)
  obtain pg p1 where
    f: "find_page hhdm va False root (um_paging u) = Inr (pg, p1)" "same_space hhdm root us (um_paging u) p1"
      "case translate hhdm root (um_paging u) va of None \<Rightarrow> pg = 0
       | Some e \<Rightarrow> pg \<noteq> 0 \<and> pmem p1 pg = e \<and> e AND PAGE_FLAG_PRESENT \<noteq> 0"
    by (rule find_page_translate [OF tr])
  note f = f(1,2) f(3) [unfolded assms(3) option.case]
  have ok1: "space_ok hhdm n root us p1" by (rule same_space_ok [OF assms(1) f(2)])
  have tr1: "translate hhdm root p1 = translate hhdm root (um_paging u)" using f(2) by (simp add: same_space_def)
  show ?thesis
  proof (cases "\<exists>nf. memprotect_flags fl e = Inr nf \<and> e AND PHYSADDR_MASK \<noteq> 0")
    case False
    then have "\<exists>r. memprotect_page hhdm va fl root u = Some (Inr (r, u\<lparr>um_paging := p1\<rparr>))"
      using f by (cases "memprotect_flags fl e"; cases "e AND PHYSADDR_MASK = 0") (simp_all add: memprotect_page_def Let_def)
    then obtain r where "memprotect_page hhdm va fl root u = Some (Inr (r, u\<lparr>um_paging := p1\<rparr>))" ..
    then show ?thesis using ok1 tr1 assms(3)
      by (intro exI [of _ r] exI [of _ "u\<lparr>um_paging := p1\<rparr>"] exI [of _ us] exI [of _ e]) simp
  next
    case True
    then obtain nf where nf: "memprotect_flags fl e = Inr nf" "e AND PHYSADDR_MASK \<noteq> 0" by auto
    note fl = memprotect_flags_law [OF nf(1)]
    let ?e = "(e AND PHYSADDR_MASK) OR nf"
    from nodes.map_one_law [OF ok1 [unfolded space_tables] assms(2) fl(1), of "e AND PHYSADDR_MASK" va] obtain st us' where
      m: "map_one hhdm (e AND PHYSADDR_MASK) va nf (alloc_paging_node hhdm) root p1 = Inr st" "nodes.tables hhdm n root us' st"
        "leaf hhdm (pmem st) root (dir_path va) (pt_index va) = Some (((e AND PHYSADDR_MASK) AND PHYSADDR_MASK) OR nf)"
        "\<forall>q j. path_ok q \<and> length q = 3 \<and> j < 512 \<and> (q, j) \<noteq> vpath va \<longrightarrow>
           leaf hhdm (pmem st) root q j = leaf hhdm (pmem p1) root q j"
      by (elim exE conjE) (rule that; assumption)
    have "memprotect_page hhdm va fl root u = Some (Inr (0, u\<lparr>um_paging := st\<rparr>))"
      using f nf m(1) by (simp add: memprotect_page_def Let_def map_single_page)
    moreover have "?e AND PHYSADDR_MASK = e AND PHYSADDR_MASK"
      using entry_bits(2) [OF fl(1), of "e AND PHYSADDR_MASK"] by (simp add: and.assoc)
    moreover have "?e AND PAGE_FLAG_WRITE = nf AND PAGE_FLAG_WRITE" "?e AND PAGE_FLAG_NX = nf AND PAGE_FLAG_NX"
      by (simp_all add: bit.conj_disj_distrib2 and.assoc page_flag_defs PAGE_FLAG_NX_def)
    moreover have "translate hhdm root st va = Some ?e" using m(3) by (simp add: translate_def and.assoc)
    moreover have "translate hhdm root st x = translate hhdm root p1 x" if "vpath x \<noteq> vpath va" for x
      using m(4) dir_path_ok [of x] that by (simp add: translate_def)
    ultimately show ?thesis using m(2) fl(2-4)
      by (intro exI [of _ 0] exI [of _ "u\<lparr>um_paging := st\<rparr>"] exI [of _ us'] exI [of _ ?e]) (simp add: space_tables tr1)
  qed
qed

theorem memprotect_never_grants_witness:
  "\<exists>u e r u' us' e'. translate small_hhdm small_hhdm (um_paging u) 0x400000 = Some e \<and>
    e AND PAGE_FLAG_WRITE \<noteq> 0 \<and>
    memprotect_page small_hhdm 0x400000 0 small_hhdm u = Some (Inr (r, u')) \<and>
    space_ok small_hhdm 9 small_hhdm us' (um_paging u') \<and>
    um_bytes u' = um_bytes u \<and> translate small_hhdm small_hhdm (um_paging u') 0x400000 = Some e' \<and>
    e' AND PHYSADDR_MASK = e AND PHYSADDR_MASK"
proof -
  let ?us = "map (frame_page small_hhdm) [2, 3, 4, 5, 6, 7, 8]" and ?f = "frame_page small_hhdm 1"
  have sp: "space_ok small_hhdm 9 small_hhdm (?f # ?us) (um_paging small_umem)"
    using small_space_ok by (simp add: small_umem_def small_pages_def)
  have l3: "3 \<le> length ?us" by simp
  from memmap_page_law [OF sp l3 small_unmapped [of "0x400000"], where fl = SYSCALL_MEMMAP_FLAG_WR] obtain u :: umem and k where
    u: "k \<le> 3" "space_ok small_hhdm 9 small_hhdm (drop k ?us) (um_paging u)"
      "\<forall>x. translate small_hhdm small_hhdm (um_paging u) x = (if vpath x = vpath 0x400000
        then Some ((?f - small_hhdm) OR memmap_page_flags SYSCALL_MEMMAP_FLAG_WR)
        else translate small_hhdm small_hhdm (um_paging small_umem) x)"
    by (elim exE conjE) (rule that; assumption)
  have t: "translate small_hhdm small_hhdm (um_paging u) 0x400000 = Some ((?f - small_hhdm) OR memmap_page_flags SYSCALL_MEMMAP_FLAG_WR)"
    using u(3) by simp
  have w: "((frame_page small_hhdm 1 - small_hhdm) OR memmap_page_flags SYSCALL_MEMMAP_FLAG_WR) AND PAGE_FLAG_WRITE \<noteq> 0"
    by (simp add: frame_page_def push_bit_eq_mult memmap_page_flags_def SYSCALL_MEMMAP_FLAG_WR_def SYSCALL_MEMMAP_FLAG_EX_def
        page_flag_defs PAGE_FLAG_NX_def)
  have l: "3 \<le> length (drop k ?us)" using u(1) by simp
  show ?thesis using memprotect_never_grants [OF u(2) l t, where fl = 0] t w
    by (elim exE conjE) (intro exI conjI)
qed

end
