(* ===== verification/Fscache.thy ===== *)
theory Fscache
  imports Locks Paths
begin

text \<open>
  The file system cache of \<^verbatim>\<open>src/vfs/fscache.c\<close>. A cached node is a record in a store; a pointer to it is the
  address of its block and its index in the block's array. The read/write lock of every node is the one of
  \<open>Locks\<close>, run without interference, so that a request that waits for itself shows up as a fault. The
  functions of a mounted file system are reached through the addresses in \<^verbatim>\<open>fsops\<close>: the routine that needs one
  takes the dispatch of a call at such an address as an argument. \<^verbatim>\<open>kmalloc_heap\<close> is seen as the sequence of
  the addresses it is going to return, 0 for a failure.

  The routines of the eviction that is not written yet (\<^verbatim>\<open>_fscache_try_lock_node_for_eviction\<close>) are left out.
\<close>

section \<open>Nodes\<close>

definition NAME_MAX :: nat where "NAME_MAX = 255"
definition DT_DIR :: u8 where "DT_DIR = 0x04"
definition DT_REG :: u8 where "DT_REG = 0x20"
definition DT_UNKNOWN :: u8 where "DT_UNKNOWN = 0x80"
definition FSCACHE_INIT_NODES :: nat where "FSCACHE_INIT_NODES = 4096"
definition FSCACHE_REQUEST_NODE_ONE_LEVEL_AWAY :: int where "FSCACHE_REQUEST_NODE_ONE_LEVEL_AWAY = 1"

lemmas dt_defs = DT_DIR_def DT_REG_def DT_UNKNOWN_def

datatype nptr = NPtr u64 nat

record vfs_ops_block =
  fsname :: string
  op_read :: u64
  op_write :: u64
  op_seek :: u64
  op_close :: u64
  op_create_child :: u64
  op_load_node :: u64
  op_unload_node :: u64

record fscache_node =
  f_type :: u8
  f_name :: string
  ref_count :: "32 word"
  rwlock :: rw_lock
  f_flags :: u16
  f_uid :: u32
  f_gid :: u32
  f_mode :: mode_t
  f_size :: u64
  fsops :: "vfs_ops_block option"
  parent_node :: "nptr option"
  first_child :: "nptr option"
  prev_sibling :: "nptr option"
  next_sibling :: "nptr option"
  internal_data :: "u64 list"

text \<open>The blocks, from \<^verbatim>\<open>fscache_head\<close> to \<^verbatim>\<open>fscache_tail\<close>, with their \<^verbatim>\<open>node_count\<close>; \<open>backend\<close> is the state of the
  file systems behind the cache.\<close>

record 'm fscache =
  fc_nodes :: "nptr \<Rightarrow> fscache_node option"
  fc_blocks :: "(u64 \<times> nat) list"
  fscache_root_node :: "nptr option"
  fc_heap :: "u64 list"
  backend :: 'm

definition node_at :: "'m fscache \<Rightarrow> nptr \<Rightarrow> fscache_node kres" where
  "node_at s p = (case fc_nodes s p of None \<Rightarrow> Inl BadAccess | Some n \<Rightarrow> Inr n)"

definition set_node :: "nptr \<Rightarrow> fscache_node \<Rightarrow> 'm fscache \<Rightarrow> 'm fscache" where
  "set_node p n s = s\<lparr>fc_nodes := (fc_nodes s)(p \<mapsto> n)\<rparr>"

definition upd_node :: "nptr \<Rightarrow> (fscache_node \<Rightarrow> fscache_node) \<Rightarrow> 'm fscache \<Rightarrow> 'm fscache kres" where
  "upd_node p f s = bindR (node_at s p) (\<lambda>n. Inr (set_node p (f n) s))"

definition kmalloc_next :: "'m fscache \<Rightarrow> u64 \<times> 'm fscache" where
  "kmalloc_next s = (case fc_heap s of [] \<Rightarrow> (0, s) | a # as \<Rightarrow> (a, s\<lparr>fc_heap := as\<rparr>))"

text \<open>A loop that never ends is a fault of its caller.\<close>

definition returns :: "'b kres option \<Rightarrow> 'b kres" where
  "returns r = (case r of None \<Rightarrow> Inl Deadlock | Some x \<Rightarrow> x)"

section \<open>Locks of a node\<close>

definition lock_node ::
    "(rw_lock \<Rightarrow> rw_lock option) \<Rightarrow> nptr \<Rightarrow> 'm fscache \<Rightarrow> 'm fscache kres" where
  "lock_node f p s = bindR (node_at s p) (\<lambda>n.
     case f (rwlock n) of None \<Rightarrow> Inl Deadlock | Some l \<Rightarrow> Inr (set_node p (n\<lparr>rwlock := l\<rparr>) s))"

definition fscache_wait_for_node_readable :: "nptr \<Rightarrow> 'm fscache \<Rightarrow> 'm fscache kres" where
  "fscache_wait_for_node_readable = lock_node rd_lock"

definition fscache_release_node_readable :: "nptr \<Rightarrow> 'm fscache \<Rightarrow> 'm fscache kres" where
  "fscache_release_node_readable = lock_node (\<lambda>l. Some (rd_unlock l))"

definition fscache_wait_for_node_modifiable :: "nptr \<Rightarrow> 'm fscache \<Rightarrow> 'm fscache kres" where
  "fscache_wait_for_node_modifiable = lock_node wr_lock"

definition fscache_release_node_modifiable :: "nptr \<Rightarrow> 'm fscache \<Rightarrow> 'm fscache kres" where
  "fscache_release_node_modifiable = lock_node (\<lambda>l. Some (wr_unlock l))"

definition fscache_upgrade_node_to_modifiable :: "nptr \<Rightarrow> 'm fscache \<Rightarrow> 'm fscache kres" where
  "fscache_upgrade_node_to_modifiable = lock_node upgrade"

definition fscache_downgrade_node_to_readable :: "nptr \<Rightarrow> 'm fscache \<Rightarrow> 'm fscache kres" where
  "fscache_downgrade_node_to_readable = lock_node (\<lambda>l. Some (downgrade l))"

section \<open>The tree\<close>

text \<open>Names are the characters before the terminator. The comparison is
  \<^verbatim>\<open>strncmp(name, token, token_len) == 0 && name[token_len] == '\0'\<close>.\<close>

definition name_matches :: "string \<Rightarrow> string \<Rightarrow> bool" where
  "name_matches name token \<longleftrightarrow>
     strncmp (name @ [NUL]) (token @ [NUL]) (length token) = Inr 0 \<and>
     length token \<le> length name \<and> (name @ [NUL]) ! length token = NUL"

partial_function (option) find_sibling ::
    "string \<Rightarrow> nptr option \<Rightarrow> 'm fscache \<Rightarrow> nptr option kres option" where
  "find_sibling token cur s =
     (case cur of
        None \<Rightarrow> Some (Inr None)
      | Some p \<Rightarrow>
          (case node_at s p of
             Inl e \<Rightarrow> Some (Inl e)
           | Inr n \<Rightarrow> if name_matches (f_name n) token then Some (Inr (Some p))
                      else find_sibling token (next_sibling n) s))"

definition fscache_find_in_children :: "nptr \<Rightarrow> string \<Rightarrow> 'm fscache \<Rightarrow> nptr option kres" where
  "fscache_find_in_children parent token s =
     bindR (node_at s parent) (\<lambda>n. returns (find_sibling token (first_child n) s))"

definition fscache_link_node :: "nptr \<Rightarrow> nptr \<Rightarrow> 'm fscache \<Rightarrow> 'm fscache kres" where
  "fscache_link_node parent child s =
     bindR (node_at s parent) (\<lambda>n.
     bindR (case first_child n of
              None \<Rightarrow> Inr s
            | Some fc \<Rightarrow> bindR (upd_node child (\<lambda>c. c\<lparr>next_sibling := Some fc\<rparr>) s)
                           (upd_node fc (\<lambda>c. c\<lparr>prev_sibling := Some child\<rparr>))) (\<lambda>s1.
     bindR (upd_node parent (\<lambda>c. c\<lparr>first_child := Some child\<rparr>) s1)
       (upd_node child (\<lambda>c. c\<lparr>parent_node := Some parent\<rparr>))))"

section \<open>Allocation of nodes\<close>

definition cleared_node :: "u8 \<Rightarrow> fscache_node" where
  "cleared_node t = \<lparr>f_type = t, f_name = [], ref_count = 0, rwlock = rw_lock_init, f_flags = 0, f_uid = 0,
     f_gid = 0, f_mode = 0, f_size = 0, fsops = None, parent_node = None, first_child = None,
     prev_sibling = None, next_sibling = None, internal_data = [0, 0, 0, 0]\<rparr>"

definition find_next_available_node_in_block ::
    "u64 \<times> nat \<Rightarrow> 'm fscache \<Rightarrow> nptr option \<times> 'm fscache" where
  "find_next_available_node_in_block blk s =
     (case blk of (b, node_count) \<Rightarrow>
        case find (\<lambda>i. map_option f_type (fc_nodes s (NPtr b i)) = Some 0) [0..<node_count] of
          None \<Rightarrow> (None, s)
        | Some i \<Rightarrow> (Some (NPtr b i), set_node (NPtr b i) (cleared_node DT_UNKNOWN) s))"

definition clear_block :: "u64 \<Rightarrow> nat \<Rightarrow> (nptr \<Rightarrow> fscache_node option) \<Rightarrow> nptr \<Rightarrow> fscache_node option" where
  "clear_block b node_count nodes p =
     (case p of NPtr b' i \<Rightarrow> if b' = b \<and> i < node_count then Some (cleared_node 0) else nodes p)"

definition fscache_create_block :: "nat \<Rightarrow> 'm fscache \<Rightarrow> (u64 \<times> nat) option \<times> 'm fscache" where
  "fscache_create_block node_count s =
     (case kmalloc_next s of (b, s1) \<Rightarrow>
        if b = 0 then (None, s1)
        else (Some (b, node_count),
              s1\<lparr>fc_nodes := clear_block b node_count (fc_nodes s1),
                 fc_blocks := fc_blocks s1 @ [(b, node_count)]\<rparr>))"

fun allocate_in :: "(u64 \<times> nat) list \<Rightarrow> 'm fscache \<Rightarrow> nptr option \<times> 'm fscache" where
  "allocate_in [] s = (None, s)"
| "allocate_in (blk # blks) s =
     (case find_next_available_node_in_block blk s of
        (None, s1) \<Rightarrow> allocate_in blks s1
      | (Some p, s1) \<Rightarrow> (Some p, s1))"

text \<open>A node that is found is read-locked before it is returned.\<close>

definition lock_found :: "nptr option \<times> 'm fscache \<Rightarrow> (nptr option \<times> 'm fscache) kres" where
  "lock_found r = (case r of
     (None, s) \<Rightarrow> Inr (None, s)
   | (Some p, s) \<Rightarrow> bindR (fscache_wait_for_node_readable p s) (\<lambda>s1. Inr (Some p, s1)))"

definition fscache_allocate_node :: "'m fscache \<Rightarrow> (nptr option \<times> 'm fscache) kres" where
  "fscache_allocate_node s =
     (case allocate_in (fc_blocks s) s of
        (Some p, s1) \<Rightarrow> lock_found (Some p, s1)
      | (None, s1) \<Rightarrow>
          (case fscache_create_block FSCACHE_INIT_NODES s1 of
             (None, s2) \<Rightarrow> Inr (None, s2)
           | (Some blk, s2) \<Rightarrow> lock_found (find_next_available_node_in_block blk s2)))"

definition fscache_node_populate ::
    "u8 \<Rightarrow> u16 \<Rightarrow> string \<Rightarrow> u32 \<Rightarrow> u32 \<Rightarrow> mode_t \<Rightarrow> u64 \<Rightarrow> vfs_ops_block \<Rightarrow> fscache_node \<Rightarrow> fscache_node" where
  "fscache_node_populate type fl name uid gid mode sz ops node =
     node\<lparr>f_type := type, f_flags := fl, f_name := take NAME_MAX name, f_uid := uid, f_gid := gid,
          f_mode := mode, f_size := sz, fsops := Some ops\<rparr>"

section \<open>Requests\<close>

text \<open>One component of the path: \<open>Go\<close> continues at a node that is read-locked, \<open>Stop\<close> is a jump to the end with
  a result. \<open>at_end\<close> says that the path ends right after the component.\<close>

datatype 's walk_step = Go nptr 's | Stop int nptr 's

type_synonym 's load_fun = "u64 \<Rightarrow> nptr \<Rightarrow> string \<Rightarrow> nptr \<Rightarrow> 's \<Rightarrow> (int \<times> 's) kres"

definition move_to :: "nptr \<Rightarrow> nptr \<Rightarrow> 'm fscache \<Rightarrow> 'm fscache walk_step kres" where
  "move_to cur p s =
     bindR (fscache_wait_for_node_readable p s) (\<lambda>s1.
     bindR (fscache_release_node_readable cur s1) (\<lambda>s2. Inr (Go p s2)))"

definition stop_downgraded :: "int \<Rightarrow> nptr \<Rightarrow> 'm fscache \<Rightarrow> 'm fscache walk_step kres" where
  "stop_downgraded res cur s = bindR (fscache_downgrade_node_to_readable cur s) (\<lambda>s1. Inr (Stop res cur s1))"

definition load_child ::
    "'m fscache load_fun \<Rightarrow> string \<Rightarrow> bool \<Rightarrow> nptr \<Rightarrow> 'm fscache \<Rightarrow> 'm fscache walk_step kres" where
  "load_child load token at_end cur s =
     bindR (fscache_upgrade_node_to_modifiable cur s) (\<lambda>s1.
     bindR (fscache_find_in_children cur token s1) (\<lambda>found.
       case found of
         Some child \<Rightarrow>
           bindR (fscache_wait_for_node_readable child s1) (\<lambda>s2.
           bindR (fscache_release_node_modifiable cur s2) (\<lambda>s3. Inr (Go child s3)))
       | None \<Rightarrow>
           bindR (fscache_allocate_node s1) (\<lambda>(fresh, s2).
             case fresh of
               None \<Rightarrow> stop_downgraded (- ENOMEM) cur s2
             | Some child \<Rightarrow>
                 bindR (node_at s2 cur) (\<lambda>n.
                   case fsops n of
                     None \<Rightarrow> Inl BadAccess
                   | Some ops \<Rightarrow>
                       bindR (load (op_load_node ops) cur token child s2) (\<lambda>(r, s3).
                         if r \<noteq> 0 then
                           bindR (upd_node child (\<lambda>c. c\<lparr>f_type := 0\<rparr>) s3) (\<lambda>s4.
                             if at_end \<and> r = - ENOENT then stop_downgraded FSCACHE_REQUEST_NODE_ONE_LEVEL_AWAY cur s4
                             else stop_downgraded r cur s4)
                         else
                           bindR (fscache_link_node cur child s3) (\<lambda>s4.
                           bindR (fscache_release_node_modifiable cur s4) (\<lambda>s5. Inr (Go child s5))))))))"

definition request_step ::
    "'m fscache load_fun \<Rightarrow> u32 \<Rightarrow> string \<Rightarrow> bool \<Rightarrow> nptr \<Rightarrow> 'm fscache \<Rightarrow>
     'm fscache walk_step kres" where
  "request_step load uid token at_end cur s =
     bindR (node_at s cur) (\<lambda>n.
       if f_type n \<noteq> DT_DIR then Inr (Stop (- ENOTDIR) cur s)
       else if access_check (f_mode n) (f_uid n) (f_gid n) uid AND ACCESS_EXECUTE = 0 then Inr (Stop (- EACCES) cur s)
       else if token = ''..'' then
         (case parent_node n of
            None \<Rightarrow> bindR (fscache_release_node_readable cur s) (\<lambda>s1. Inr (Stop (- ENOENT) cur s1))
          | Some p \<Rightarrow> move_to cur p s)
       else if token = ''.'' then Inr (Go cur s)
       else bindR (fscache_find_in_children cur token s) (\<lambda>found.
         case found of
           Some child \<Rightarrow> move_to cur child s
         | None \<Rightarrow> load_child load token at_end cur s))"

lemma after_token_shorter:
  "takeWhile P (dropWhile Q xs) \<noteq> [] \<Longrightarrow> length (dropWhile P (dropWhile Q xs)) < length xs"
proof -
  let ?ys = "dropWhile Q xs"
  assume "takeWhile P ?ys \<noteq> []"
  then have "0 < length (takeWhile P ?ys)" by blast
  moreover have "length (takeWhile P ?ys) + length (dropWhile P ?ys) = length ?ys"
    by (simp only: length_append [symmetric] takeWhile_dropWhile_id)
  ultimately show ?thesis using length_dropWhile_le [of Q xs] by linarith
qed

text \<open>The loop over the components; a component is never empty, a trailing slash ends the walk.\<close>

function request_loop ::
    "'m fscache load_fun \<Rightarrow> u32 \<Rightarrow> string \<Rightarrow> nptr \<Rightarrow> 'm fscache \<Rightarrow> (int \<times> nptr \<times> 'm fscache) kres" where
  "request_loop load uid rest cur s =
     (let start = dropWhile (\<lambda>c. c = slash) rest;
          token = takeWhile (\<lambda>c. c \<noteq> slash) start;
          after = dropWhile (\<lambda>c. c \<noteq> slash) start
      in if token = [] then Inr (0, cur, s)
         else bindR (request_step load uid token (after = []) cur s) (\<lambda>st.
           case st of
             Stop res cur' s' \<Rightarrow> Inr (res, cur', s')
           | Go cur' s' \<Rightarrow> request_loop load uid after cur' s'))"
  by pat_completeness auto

termination
  by (relation "measure (\<lambda>(load, uid, rest, cur, s). length rest)") (simp_all add: after_token_shorter)

declare request_loop.simps [simp del]

text \<open>The result is the errno, or 1 when only the last component is missing, and the node left in \<^verbatim>\<open>*out\<close>.\<close>

definition fscache_request_node ::
    "'m fscache load_fun \<Rightarrow> string option \<Rightarrow> u32 \<Rightarrow> bool \<Rightarrow> 'm fscache \<Rightarrow>
     (int \<times> nptr option \<times> 'm fscache) kres" where
  "fscache_request_node load path uid want_out s =
     (case path of
        None \<Rightarrow> Inr (- EINVAL, None, s)
      | Some pth \<Rightarrow>
          if pth = [] then Inr (- EINVAL, None, s)
          else (case fscache_root_node s of
             None \<Rightarrow> Inr (- EIO, None, s)
           | Some root \<Rightarrow>
               (case kmalloc_next s of (path_copy, s1) \<Rightarrow>
                  if path_copy = 0 then Inr (- ENOMEM, None, s1)
                  else
                    bindR (fscache_wait_for_node_readable root s1) (\<lambda>s2.
                    bindR (request_loop load uid pth root s2) (\<lambda>(res, cur, s3).
                    bindR (node_at s3 cur) (\<lambda>n.
                      let res1 = (if res = 0 \<and> f_type n \<noteq> DT_DIR \<and> last pth = slash then - ENOTDIR else res)
                      in if want_out then Inr (res1, Some cur, s3)
                         else bindR (fscache_release_node_readable cur s3) (\<lambda>s4. Inr (res1, None, s4))))))))"

section \<open>Names and sibling lists\<close>

lemma strncmp_prefix:
  "NUL \<notin> set n \<Longrightarrow> NUL \<notin> set t \<Longrightarrow>
    strncmp (n @ [NUL]) (t @ [NUL]) (length t) = Inr 0 \<longleftrightarrow> length t \<le> length n \<and> take (length t) n = t"
proof (induction t arbitrary: n)
  case (Cons a t)
  have inj: "int (of_char c) - int (of_char d) = 0 \<longleftrightarrow> c = d" for c d :: char by simp
  show ?case
  proof (cases n)
    case Nil
    then show ?thesis using Cons.prems inj [of NUL a] by (auto simp: NUL_def)
  next
    case (Cons b n')
    then show ?thesis using Cons.prems Cons.IH [of n'] inj [of b a] by auto
  qed
qed simp

lemma name_matches_eq: "NUL \<notin> set n \<Longrightarrow> NUL \<notin> set t \<Longrightarrow> name_matches n t \<longleftrightarrow> n = t"
proof -
  assume a: "NUL \<notin> set n" "NUL \<notin> set t"
  have "(n @ [NUL]) ! length t \<noteq> NUL" if "length t < length n"
    using a(1) that by (metis nth_append nth_mem)
  then have "(n @ [NUL]) ! length t = NUL \<longleftrightarrow> length n = length t" if "length t \<le> length n"
    using that by (metis le_neq_implies_less nth_append_length)
  then show ?thesis using strncmp_prefix [OF a] by (auto simp: name_matches_def)
qed

text \<open>The list of siblings that starts at a pointer.\<close>

fun sibs :: "'m fscache \<Rightarrow> nptr option \<Rightarrow> nptr list \<Rightarrow> bool" where
  "sibs s p [] = (p = None)"
| "sibs s p (c # cs) = (p = Some c \<and> (\<exists>n. fc_nodes s c = Some n \<and> sibs s (next_sibling n) cs))"

abbreviation name_of :: "'m fscache \<Rightarrow> nptr \<Rightarrow> string" where
  "name_of s p \<equiv> f_name (the (fc_nodes s p))"

lemma find_sibling_law:
  "sibs s p cs \<Longrightarrow> NUL \<notin> set t \<Longrightarrow> \<forall>c\<in>set cs. NUL \<notin> set (name_of s c) \<Longrightarrow>
    find_sibling t p s = Some (Inr (find (\<lambda>c. name_of s c = t) cs))"
proof (induction cs arbitrary: p)
  case Nil
  then show ?case by (subst find_sibling.simps) simp
next
  case (Cons c cs)
  then obtain n where n: "p = Some c" "fc_nodes s c = Some n" "sibs s (next_sibling n) cs" by auto
  moreover have "name_matches (f_name n) t \<longleftrightarrow> f_name n = t"
    using Cons.prems(2,3) n(2) by (intro name_matches_eq) auto
  ultimately show ?case using Cons by (subst find_sibling.simps) (simp add: node_at_def)
qed

lemma sibs_cong:
  "\<forall>c\<in>set cs. map_option next_sibling (fc_nodes s' c) = map_option next_sibling (fc_nodes s c) \<Longrightarrow>
    sibs s' p cs = sibs s p cs"
  by (induction cs arbitrary: p) (auto simp: map_option_case split: option.splits)

section \<open>The cache and the objects behind it\<close>

record node_attrs =
  a_type :: u8
  a_name :: string
  a_uid :: u32
  a_gid :: u32
  a_mode :: mode_t
  a_ops :: "vfs_ops_block option"
  a_data :: "u64 list"

definition attrs :: "fscache_node \<Rightarrow> node_attrs" where
  "attrs n = \<lparr>a_type = f_type n, a_name = f_name n, a_uid = f_uid n, a_gid = f_gid n, a_mode = f_mode n,
     a_ops = fsops n, a_data = internal_data n\<rparr>"

definition attrs_ok :: "node_attrs \<Rightarrow> bool" where
  "attrs_ok a \<longleftrightarrow> a_type a \<noteq> 0 \<and> NUL \<notin> set (a_name a) \<and> a_ops a \<noteq> None"

text \<open>A file system seen from outside: the children of an object by name, its attributes, its parent.\<close>

record ('m, 'k) dir_view =
  look :: "'m \<Rightarrow> 'k \<Rightarrow> string \<Rightarrow> 'k option"
  atts :: "'m \<Rightarrow> 'k \<Rightarrow> node_attrs"
  up :: "'m \<Rightarrow> 'k \<Rightarrow> 'k option"

text \<open>The cache agrees with the objects: \<open>g\<close> says which object a cached node stands for, \<open>lk\<close> gives the locks.
  Every cached node has the attributes of its object, its cached children are children of the object
  under their names, and its parent is the cached parent of the object.\<close>

definition entry_ok ::
    "('m, 'k) dir_view \<Rightarrow> 'm fscache \<Rightarrow> (nptr \<Rightarrow> 'k option) \<Rightarrow> rw_lock \<Rightarrow> 'k \<Rightarrow> fscache_node \<Rightarrow> bool" where
  "entry_ok v s g l k n \<longleftrightarrow>
     attrs n = atts v (backend s) k \<and> attrs_ok (attrs n) \<and> rwlock n = l \<and>
     (\<exists>cs. sibs s (first_child n) cs \<and>
        (\<forall>c\<in>set cs. \<exists>kc. g c = Some kc \<and> look v (backend s) k (name_of s c) = Some kc)) \<and>
     (case parent_node n of
        None \<Rightarrow> up v (backend s) k = None
      | Some q \<Rightarrow> \<exists>kq. g q = Some kq \<and> up v (backend s) k = Some kq)"

definition cache_ok ::
    "('m, 'k) dir_view \<Rightarrow> 'k \<Rightarrow> 'm fscache \<Rightarrow> (nptr \<Rightarrow> 'k option) \<Rightarrow> (nptr \<Rightarrow> rw_lock) \<Rightarrow> bool" where
  "cache_ok v kroot s g lk \<longleftrightarrow>
     (\<exists>r. fscache_root_node s = Some r \<and> g r = Some kroot) \<and>
     (\<forall>p k. g p = Some k \<longrightarrow> (\<exists>n. fc_nodes s p = Some n \<and> entry_ok v s g (lk p) k n))"

text \<open>The allocator returns addresses that are not in use.\<close>

definition heap_fresh :: "'m fscache \<Rightarrow> bool" where
  "heap_fresh s \<longleftrightarrow> distinct (fc_heap s) \<and> (\<forall>a\<in>set (fc_heap s). a \<noteq> 0 \<and> (\<forall>i. fc_nodes s (NPtr a i) = None))"

text \<open>Resolving a path on the objects, without any cache. The boolean says that the walk tried to step above the
  root.\<close>

definition resolve_step ::
    "('m, 'k) dir_view \<Rightarrow> 'm \<Rightarrow> u32 \<Rightarrow> string \<Rightarrow> bool \<Rightarrow> 'k \<Rightarrow> (int \<times> bool) + 'k" where
  "resolve_step v m uid token at_end k =
     (let a = atts v m k in
      if a_type a \<noteq> DT_DIR then Inl (- ENOTDIR, False)
      else if access_check (a_mode a) (a_uid a) (a_gid a) uid AND ACCESS_EXECUTE = 0 then Inl (- EACCES, False)
      else if token = ''..'' then (case up v m k of None \<Rightarrow> Inl (- ENOENT, True) | Some k' \<Rightarrow> Inr k')
      else if token = ''.'' then Inr k
      else (case look v m k token of
              None \<Rightarrow> Inl (if at_end then FSCACHE_REQUEST_NODE_ONE_LEVEL_AWAY else - ENOENT, False)
            | Some k' \<Rightarrow> Inr k'))"

function resolve :: "('m, 'k) dir_view \<Rightarrow> 'm \<Rightarrow> u32 \<Rightarrow> string \<Rightarrow> 'k \<Rightarrow> int \<times> 'k \<times> bool" where
  "resolve v m uid rest k =
     (let start = dropWhile (\<lambda>c. c = slash) rest;
          token = takeWhile (\<lambda>c. c \<noteq> slash) start;
          after = dropWhile (\<lambda>c. c \<noteq> slash) start
      in if token = [] then (0, k, False)
         else (case resolve_step v m uid token (after = []) k of
                 Inl (r, over) \<Rightarrow> (r, k, over)
               | Inr k' \<Rightarrow> resolve v m uid after k'))"
  by pat_completeness auto

termination
  by (relation "measure (\<lambda>(v, m, uid, rest, k). length rest)") (simp_all add: after_token_shorter)

declare resolve.simps [simp del]

definition resolve_path :: "('m, 'k) dir_view \<Rightarrow> 'm \<Rightarrow> u32 \<Rightarrow> string \<Rightarrow> 'k \<Rightarrow> int \<times> 'k \<times> bool" where
  "resolve_path v m uid path kroot =
     (case resolve v m uid path kroot of (r, k, over) \<Rightarrow>
        (if r = 0 \<and> a_type (atts v m k) \<noteq> DT_DIR \<and> last path = slash then - ENOTDIR else r, k, over))"

definition one_reader :: rw_lock where "one_reader = \<lparr>rw_state = 1, writers_waiting = 0\<rparr>"
definition one_writer :: rw_lock where "one_writer = \<lparr>rw_state = - 1, writers_waiting = 0\<rparr>"

lemmas lock_state_defs = one_reader_def one_writer_def rw_lock_init_def

lemma lock_moves [simp]:
  "rd_lock rw_lock_init = Some one_reader" "rd_unlock one_reader = rw_lock_init"
  "upgrade one_reader = Some one_writer" "downgrade one_writer = one_reader" "wr_unlock one_writer = rw_lock_init"
  by (simp_all add: rw_fun_defs lock_state_defs)

lemma cache_okD:
  assumes "cache_ok v kroot s g lk" "g p = Some k"
  obtains n where "fc_nodes s p = Some n" "entry_ok v s g (lk p) k n"
  using assms by (auto simp: cache_ok_def)

lemma attrs_fields [simp]:
  "a_type (attrs n) = f_type n" "a_name (attrs n) = f_name n" "a_uid (attrs n) = f_uid n" "a_gid (attrs n) = f_gid n"
  "a_mode (attrs n) = f_mode n" "a_ops (attrs n) = fsops n" "a_data (attrs n) = internal_data n"
  by (simp_all add: attrs_def)

lemma attrs_lock [simp]: "attrs (n\<lparr>rwlock := l\<rparr>) = attrs n" by (simp add: attrs_def)

text \<open>Changing a lock changes nothing else.\<close>

lemma set_lock_frame:
  assumes "fc_nodes s p = Some n"
  shows "sibs (set_node p (n\<lparr>rwlock := l\<rparr>) s) q cs = sibs s q cs"
    "name_of (set_node p (n\<lparr>rwlock := l\<rparr>) s) c = name_of s c"
  using assms by (auto simp: set_node_def intro!: sibs_cong)

lemma cache_relock:
  assumes c: "cache_ok v kroot s g lk" and n: "fc_nodes s p = Some n"
  shows "cache_ok v kroot (set_node p (n\<lparr>rwlock := l\<rparr>) s) g (lk(p := l))"
proof -
  let ?s = "set_node p (n\<lparr>rwlock := l\<rparr>) s"
  have bk: "backend ?s = backend s" by (simp add: set_node_def)
  have e: "entry_ok v ?s g l' k m = entry_ok v s g l' k m" for l' k m
    unfolding entry_ok_def set_lock_frame [OF n] bk ..
  have "\<exists>m. fc_nodes ?s q = Some m \<and> entry_ok v s g ((lk(p := l)) q) k m" if gq: "g q = Some k" for q k
  proof -
    obtain m where "fc_nodes s q = Some m" "entry_ok v s g (lk q) k m" using c gq by (rule cache_okD)
    then show ?thesis using n by (cases "q = p") (auto simp: set_node_def entry_ok_def attrs_def)
  qed
  then show ?thesis using c unfolding cache_ok_def e by (auto simp: set_node_def)
qed

lemma lock_node_ok:
  assumes c: "cache_ok v kroot s g lk" and g: "g p = Some k" and f: "f (lk p) = Some l"
  obtains n where "fc_nodes s p = Some n" "lock_node f p s = Inr (set_node p (n\<lparr>rwlock := l\<rparr>) s)"
    "cache_ok v kroot (set_node p (n\<lparr>rwlock := l\<rparr>) s) g (lk(p := l))"
proof -
  obtain n where n: "fc_nodes s p = Some n" "entry_ok v s g (lk p) k n" using c g by (rule cache_okD)
  then have "lock_node f p s = Inr (set_node p (n\<lparr>rwlock := l\<rparr>) s)"
    using f by (simp add: lock_node_def node_at_def entry_ok_def)
  then show thesis using n(1) cache_relock [OF c n(1)] by (intro that)
qed

text \<open>A fresh node: it was free, or new; nothing else changes but the block list.\<close>

definition fresh_from :: "'m fscache \<Rightarrow> nptr \<Rightarrow> 'm fscache \<Rightarrow> bool" where
  "fresh_from s p s' \<longleftrightarrow>
     (\<forall>n. fc_nodes s p = Some n \<longrightarrow> f_type n = 0) \<and>
     fc_nodes s' p = Some (cleared_node DT_UNKNOWN) \<and>
     (\<forall>q n. q \<noteq> p \<longrightarrow> fc_nodes s q = Some n \<longrightarrow> fc_nodes s' q = Some n) \<and>
     fscache_root_node s' = fscache_root_node s \<and> backend s' = backend s \<and>
     (fc_heap s' = fc_heap s \<or> fc_heap s' = tl (fc_heap s)) \<and> heap_fresh s'"

lemma find_available:
  assumes "find_next_available_node_in_block blk s = (r, s')" "heap_fresh s"
  shows "case r of None \<Rightarrow> s' = s | Some p \<Rightarrow> fresh_from s p s'"
proof -
  obtain b cnt where blk: "blk = (b, cnt)" by fastforce
  show ?thesis
  proof (cases "find (\<lambda>i. map_option f_type (fc_nodes s (NPtr b i)) = Some 0) [0..<cnt]")
    case None
    then show ?thesis using assms blk by (auto simp: find_next_available_node_in_block_def)
  next
    case (Some i)
    then obtain n where n: "fc_nodes s (NPtr b i) = Some n" "f_type n = 0" by (auto simp: find_Some_iff)
    have "b \<notin> set (fc_heap s)" using assms(2) n(1) by (auto simp: heap_fresh_def)
    then show ?thesis using assms Some n blk
      by (auto simp: find_next_available_node_in_block_def fresh_from_def set_node_def heap_fresh_def)
  qed
qed

lemma allocate_in_law:
  "heap_fresh s \<Longrightarrow> allocate_in blks s = (r, s') \<Longrightarrow> case r of None \<Rightarrow> s' = s | Some p \<Rightarrow> fresh_from s p s'"
proof (induction blks arbitrary: s)
  case (Cons blk blks)
  obtain r1 s1 where f: "find_next_available_node_in_block blk s = (r1, s1)" by fastforce
  note a = find_available [OF f Cons.prems(1)]
  show ?case using Cons a f by (cases r1) auto
qed simp

lemma create_block_law:
  assumes h: "heap_fresh s" "fc_heap s \<noteq> []" and n: "0 < cnt"
    and c: "fscache_create_block cnt s = (blk, s1)" and f: "find_next_available_node_in_block (the blk) s1 = (r, s')"
  obtains p where "blk \<noteq> None" "r = Some p" "fresh_from s p s'"
proof -
  obtain b bs where b: "fc_heap s = b # bs" using h(2) by (cases "fc_heap s") auto
  have fr: "b \<noteq> 0" "\<forall>i. fc_nodes s (NPtr b i) = None" "b \<notin> set bs" using h(1) b by (auto simp: heap_fresh_def)
  let ?nd = "clear_block b cnt (fc_nodes s)"
  have s1: "blk = Some (b, cnt)" "s1 = s\<lparr>fc_heap := bs, fc_nodes := ?nd, fc_blocks := fc_blocks s @ [(b, cnt)]\<rparr>"
    using c b fr(1) by (auto simp: fscache_create_block_def kmalloc_next_def)
  have "find (\<lambda>i. map_option f_type (fc_nodes s1 (NPtr b i)) = Some 0) [0..<cnt] = Some 0"
    using n by (simp add: s1(2) upt_conv_Cons cleared_node_def clear_block_def)
  then have r: "r = Some (NPtr b 0)" "s' = set_node (NPtr b 0) (cleared_node DT_UNKNOWN) s1"
    using f s1(1) by (auto simp: find_next_available_node_in_block_def)
  have nodes: "fc_nodes s' q = (if q = NPtr b 0 then Some (cleared_node DT_UNKNOWN) else ?nd q)" for q
    by (simp add: r(2) set_node_def s1(2))
  have "fc_nodes s' q = Some m" if "q \<noteq> NPtr b 0" "fc_nodes s q = Some m" for q m
    using that fr(2) by (cases q) (auto simp: nodes clear_block_def)
  moreover have "\<forall>a\<in>set bs. a \<noteq> 0 \<and> (\<forall>i. fc_nodes s' (NPtr a i) = None)" "distinct bs"
    using h(1) b fr(3) by (auto simp: heap_fresh_def nodes clear_block_def)
  moreover have "fc_heap s' = tl (fc_heap s)" "backend s' = backend s" "fscache_root_node s' = fscache_root_node s"
    by (simp_all add: r(2) set_node_def s1(2) b)
  ultimately have "fresh_from s (NPtr b 0) s'"
    using fr(2) b nodes by (auto simp: fresh_from_def heap_fresh_def)
  then show thesis using that s1(1) r(1) by blast
qed

text \<open>With an address left in the heap, allocation returns a cleared node with one reader.\<close>

lemma allocate_node_law:
  assumes h: "heap_fresh s" "fc_heap s \<noteq> []"
  obtains p s1 where "fresh_from s p s1"
    "fscache_allocate_node s = Inr (Some p, set_node p ((cleared_node DT_UNKNOWN)\<lparr>rwlock := one_reader\<rparr>) s1)"
proof -
  have lk: "lock_found (Some p, s1) = Inr (Some p, set_node p ((cleared_node DT_UNKNOWN)\<lparr>rwlock := one_reader\<rparr>) s1)"
    if "fresh_from s p s1" for p s1
    using that by (simp add: lock_found_def fscache_wait_for_node_readable_def lock_node_def node_at_def fresh_from_def)
      (simp add: cleared_node_def)
  obtain r s1 where a: "allocate_in (fc_blocks s) s = (r, s1)" by fastforce
  show thesis
  proof (cases r)
    case None
    then have "s1 = s" using allocate_in_law [OF h(1) a] by simp
    obtain blk s2 where c: "fscache_create_block FSCACHE_INIT_NODES s = (blk, s2)" by fastforce
    obtain r3 s3 where f: "find_next_available_node_in_block (the blk) s2 = (r3, s3)" by fastforce
    obtain p where "blk \<noteq> None" "r3 = Some p" "fresh_from s p s3"
      using create_block_law [OF h _ c f] by (auto simp: FSCACHE_INIT_NODES_def)
    then show thesis using that [of p s3] lk a None \<open>s1 = s\<close> c f by (auto simp: fscache_allocate_node_def)
  next
    case (Some p)
    then show thesis using that [of p s1] lk allocate_in_law [OF h(1) a] a by (simp add: fscache_allocate_node_def)
  qed
qed

text \<open>Nodes outside the cached tree do not matter.\<close>

lemma sibs_in_cache:
  assumes "cache_ok v kroot s g lk" "\<forall>c\<in>set cs. g c \<noteq> None"
    and "\<And>q k. g q = Some k \<Longrightarrow> map_option next_sibling (fc_nodes s' q) = map_option next_sibling (fc_nodes s q)"
  shows "sibs s' p cs = sibs s p cs"
  using assms(2,3) by (intro sibs_cong) auto

lemma cache_frame:
  assumes c: "cache_ok v kroot s g lk" and same: "\<And>q k. g q = Some k \<Longrightarrow> fc_nodes s' q = fc_nodes s q"
    and b: "backend s' = backend s" "fscache_root_node s' = fscache_root_node s"
  shows "cache_ok v kroot s' g lk"
proof -
  have "entry_ok v s' g l k n" if e: "entry_ok v s g l k n" for l k n
  proof -
    obtain cs where cs: "sibs s (first_child n) cs"
      "\<forall>c\<in>set cs. \<exists>kc. g c = Some kc \<and> look v (backend s) k (name_of s c) = Some kc"
      using e by (auto simp: entry_ok_def)
    then have "\<forall>c\<in>set cs. g c \<noteq> None" by auto
    then have "sibs s' (first_child n) cs" using sibs_in_cache [OF c, of cs s'] same cs(1) by simp
    moreover have "\<forall>c\<in>set cs. \<exists>kc. g c = Some kc \<and> look v (backend s') k (name_of s' c) = Some kc"
      using cs(2) same b(1) by fastforce
    ultimately show ?thesis using e unfolding entry_ok_def b(1) by auto
  qed
  then show ?thesis using c same b(2) unfolding cache_ok_def by fastforce
qed

lemma fresh_not_cached:
  assumes "cache_ok v kroot s g lk" "fresh_from s p s1" shows "g p = None"
proof (rule ccontr)
  assume "g p \<noteq> None"
  then obtain k where "g p = Some k" by auto
  with assms(1) obtain n where "fc_nodes s p = Some n" "entry_ok v s g (lk p) k n" by (rule cache_okD)
  then show False using assms(2) by (auto simp: entry_ok_def attrs_ok_def attrs_def fresh_from_def)
qed

lemma fresh_cache:
  assumes c: "cache_ok v kroot s g lk" and f: "fresh_from s p s1"
  shows "cache_ok v kroot (set_node p n s1) g lk"
proof (rule cache_frame [OF c])
  fix q k assume g: "g q = Some k"
  with c obtain m where "fc_nodes s q = Some m" by (rule cache_okD)
  moreover have "q \<noteq> p" using fresh_not_cached [OF c f] g by auto
  ultimately show "fc_nodes (set_node p n s1) q = fc_nodes s q" using f by (simp add: fresh_from_def set_node_def)
qed (use f in \<open>simp_all add: fresh_from_def set_node_def\<close>)

text \<open>The nodes after a child has been linked.\<close>

definition relink :: "nptr \<Rightarrow> nptr \<Rightarrow> nptr option \<Rightarrow> nptr \<Rightarrow> fscache_node \<Rightarrow> fscache_node" where
  "relink parent child fc q m =
     (let m1 = (if fc = Some q then m\<lparr>prev_sibling := Some child\<rparr> else m);
          m2 = (if q = parent then m1\<lparr>first_child := Some child\<rparr> else m1)
      in if q = child then m2\<lparr>next_sibling := (if fc = None then next_sibling m2 else fc), parent_node := Some parent\<rparr> else m2)"

lemma relink_fields [simp]:
  "attrs (relink parent child fc q m) = attrs m" "f_name (relink parent child fc q m) = f_name m"
  "rwlock (relink parent child fc q m) = rwlock m"
  "first_child (relink parent child fc q m) = (if q = parent then Some child else first_child m)"
  "next_sibling (relink parent child fc q m) = (if q = child \<and> fc \<noteq> None then fc else next_sibling m)"
  "parent_node (relink parent child fc q m) = (if q = child then Some parent else parent_node m)"
  by (auto simp: relink_def Let_def attrs_def)

lemma relink_other [simp]: "q \<noteq> parent \<Longrightarrow> q \<noteq> child \<Longrightarrow> fc \<noteq> Some q \<Longrightarrow> relink parent child fc q = (\<lambda>m. m)"
  by (simp add: relink_def fun_eq_iff)

definition linked :: "nptr \<Rightarrow> nptr \<Rightarrow> nptr option \<Rightarrow> (nptr \<Rightarrow> fscache_node option) \<Rightarrow> nptr \<Rightarrow> fscache_node option" where
  "linked parent child fc nodes q = map_option (relink parent child fc q) (nodes q)"

lemma link_node_law:
  assumes "fc_nodes s parent = Some pn" "fc_nodes s child = Some cn" "parent \<noteq> child"
    "\<And>f. first_child pn = Some f \<Longrightarrow> f \<noteq> child \<and> fc_nodes s f \<noteq> None"
  shows "fscache_link_node parent child s = Inr (s\<lparr>fc_nodes := linked parent child (first_child pn) (fc_nodes s)\<rparr>)"
proof (cases "first_child pn")
  case None
  have "linked parent child None (fc_nodes s) =
      (fc_nodes s)(parent \<mapsto> pn\<lparr>first_child := Some child\<rparr>, child \<mapsto> cn\<lparr>parent_node := Some parent\<rparr>)"
    using assms by (intro ext) (auto simp: linked_def relink_def Let_def option.map_ident)
  then show ?thesis using assms None by (simp add: fscache_link_node_def node_at_def upd_node_def set_node_def)
next
  case (Some f)
  then obtain fn where f: "f \<noteq> child" "fc_nodes s f = Some fn" using assms(4) by auto
  let ?cn = "cn\<lparr>next_sibling := Some f, parent_node := Some parent\<rparr>"
  show ?thesis
  proof (cases "f = parent")
    case True
    have "linked parent child (Some f) (fc_nodes s) =
        (fc_nodes s)(parent \<mapsto> pn\<lparr>prev_sibling := Some child, first_child := Some child\<rparr>, child \<mapsto> ?cn)"
      using assms f True by (intro ext) (auto simp: linked_def relink_def Let_def option.map_ident)
    then show ?thesis using assms Some True f
      by (simp add: fscache_link_node_def node_at_def upd_node_def set_node_def fun_upd_twist)
  next
    case False
    have "linked parent child (Some f) (fc_nodes s) =
        (fc_nodes s)(f \<mapsto> fn\<lparr>prev_sibling := Some child\<rparr>, parent \<mapsto> pn\<lparr>first_child := Some child\<rparr>, child \<mapsto> ?cn)"
      using assms f False by (intro ext) (auto simp: linked_def relink_def Let_def option.map_ident)
    then show ?thesis using assms Some False f
      by (simp add: fscache_link_node_def node_at_def upd_node_def set_node_def fun_upd_twist)
  qed
qed

text \<open>Linking a loaded child under its parent keeps the cache in agreement with the objects.\<close>

lemma cache_link:
  assumes c: "cache_ok v kroot s g lk" and g: "g cur = Some k" "g ch = None"
    and cn: "fc_nodes s cur = Some cn" and n: "fc_nodes s ch = Some n" "attrs n = atts v (backend s) k'"
      "attrs_ok (attrs n)" "first_child n = None" "next_sibling n = None"
    and lk: "look v (backend s) k (f_name n) = Some k'" "up v (backend s) k' = Some k"
  defines "s' \<equiv> s\<lparr>fc_nodes := linked cur ch (first_child cn) (fc_nodes s)\<rparr>"
  shows "fscache_link_node cur ch s = Inr s'" "cache_ok v kroot s' (g(ch \<mapsto> k')) (lk(ch := rwlock n))"
proof -
  have ne: "cur \<noteq> ch" using g by auto
  obtain cn' where "fc_nodes s cur = Some cn'" "entry_ok v s g (lk cur) k cn'" using c g(1) by (rule cache_okD)
  then have ecn: "entry_ok v s g (lk cur) k cn" using cn by simp
  then obtain cs where cs: "sibs s (first_child cn) cs"
      "\<forall>c\<in>set cs. \<exists>kc. g c = Some kc \<and> look v (backend s) k (name_of s c) = Some kc"
    by (auto simp: entry_ok_def)
  have "f \<noteq> ch \<and> fc_nodes s f \<noteq> None" if "first_child cn = Some f" for f
    using cs g(2) that by (cases cs) auto
  then show "fscache_link_node cur ch s = Inr s'" unfolding s'_def using cn n(1) ne by (intro link_node_law) auto
  have b: "backend s' = backend s" "fscache_root_node s' = fscache_root_node s" by (simp_all add: s'_def)
  have nodes: "fc_nodes s' = linked cur ch (first_child cn) (fc_nodes s)" by (simp add: s'_def)
  have nm: "name_of s' q = name_of s q" if "fc_nodes s q \<noteq> None" for q
    using that by (auto simp: nodes linked_def)
  have sb: "sibs s' p xs = sibs s p xs" if "\<forall>c\<in>set xs. g c \<noteq> None" for p xs
  proof (rule sibs_in_cache [OF c that])
    fix q kq assume q: "g q = Some kq"
    with c obtain m where "fc_nodes s q = Some m" by (rule cache_okD)
    moreover have "q \<noteq> ch" using q g(2) by auto
    ultimately show "map_option next_sibling (fc_nodes s' q) = map_option next_sibling (fc_nodes s q)"
      by (simp add: nodes linked_def)
  qed
  let ?g = "g(ch \<mapsto> k')"
  have kids: "\<forall>c\<in>set xs. \<exists>kc. ?g c = Some kc \<and> look v (backend s) kq (name_of s' c) = Some kc"
    if "\<forall>c\<in>set xs. \<exists>kc. g c = Some kc \<and> look v (backend s) kq (name_of s c) = Some kc" for xs kq
  proof
    fix x assume "x \<in> set xs"
    with that obtain kc where x: "g x = Some kc" "look v (backend s) kq (name_of s x) = Some kc" by blast
    moreover obtain xn where "fc_nodes s x = Some xn" using c x(1) by (rule cache_okD)
    ultimately show "\<exists>kc. ?g x = Some kc \<and> look v (backend s) kq (name_of s' x) = Some kc"
      using nm g(2) by auto
  qed
  let ?n = "relink cur ch (first_child cn) ch n"
  have n': "fc_nodes s' ch = Some ?n" "next_sibling ?n = first_child cn" using n(1,5) by (simp_all add: nodes linked_def)
  have new: "entry_ok v s' ?g (rwlock n) k' ?n"
    using n(2-4) lk(2) g(1) ne unfolding entry_ok_def b(1) by (auto intro!: exI [of _ "[]"])
  have "\<exists>m. fc_nodes s' q = Some m \<and> entry_ok v s' ?g (lk q) kq m" if q: "g q = Some kq" for q kq
  proof -
    obtain m where m: "fc_nodes s q = Some m" "entry_ok v s g (lk q) kq m" using c q by (rule cache_okD)
    have "q \<noteq> ch" using q g(2) by auto
    let ?m = "relink cur ch (first_child cn) q m"
    have m': "fc_nodes s' q = Some ?m" using m(1) by (simp add: nodes linked_def)
    obtain xs where xs: "sibs s (first_child m) xs"
        "\<forall>c\<in>set xs. \<exists>kc. g c = Some kc \<and> look v (backend s) kq (name_of s c) = Some kc"
      using m(2) by (auto simp: entry_ok_def)
    then have "\<forall>c\<in>set xs. g c \<noteq> None" by auto
    then have sx: "sibs s' (first_child m) xs" using sb xs(1) by simp
    have "\<exists>ys. sibs s' (first_child ?m) ys \<and>
        (\<forall>c\<in>set ys. \<exists>kc. ?g c = Some kc \<and> look v (backend s) kq (name_of s' c) = Some kc)"
    proof (cases "q = cur")
      case True
      then have "m = cn" "kq = k" using m(1) cn q g(1) by auto
      then have "sibs s' (first_child ?m) (ch # xs)" using True n' sx by simp
      moreover have "look v (backend s) kq (name_of s' ch) = Some k'" using n'(1) lk(1) \<open>kq = k\<close> by simp
      ultimately show ?thesis using kids [OF xs(2)] by (intro exI [of _ "ch # xs"]) auto
    next
      case False
      then show ?thesis using sx kids [OF xs(2)] by (intro exI [of _ xs]) simp
    qed
    moreover have "case parent_node ?m of None \<Rightarrow> up v (backend s) kq = None
        | Some r \<Rightarrow> \<exists>kr. ?g r = Some kr \<and> up v (backend s) kq = Some kr"
      using m(2) g(2) \<open>q \<noteq> ch\<close> by (auto simp: entry_ok_def split: option.splits)
    moreover have "attrs ?m = atts v (backend s) kq" "attrs_ok (attrs ?m)" "rwlock ?m = lk q"
      using m(2) by (auto simp: entry_ok_def)
    ultimately have "entry_ok v s' ?g (lk q) kq ?m" unfolding entry_ok_def b(1) by (intro conjI)
    then show ?thesis using m' by blast
  qed
  then show "cache_ok v kroot s' ?g (lk(ch := rwlock n))"
    using c new n'(1) g(2) b(2) unfolding cache_ok_def by (auto simp: fun_upd_apply)
qed

section \<open>Requests are transparent\<close>

abbreviation idle :: "nptr \<Rightarrow> rw_lock" where "idle \<equiv> \<lambda>_. rw_lock_init"

text \<open>What every step keeps: the file system behind the cache, and a heap of fresh addresses.\<close>

definition kept :: "nat \<Rightarrow> 'm fscache \<Rightarrow> 'm fscache \<Rightarrow> bool" where
  "kept j s s' \<longleftrightarrow> backend s' = backend s \<and> heap_fresh s' \<and> set (fc_heap s') \<subseteq> set (fc_heap s) \<and>
     length (fc_heap s) \<le> length (fc_heap s') + j"

lemma heap_fresh_sub:
  assumes "heap_fresh s" "\<And>q. fc_nodes s q = None \<Longrightarrow> fc_nodes s' q = None" "\<exists>j. fc_heap s' = drop j (fc_heap s)"
  shows "heap_fresh s'"
proof -
  obtain j where j: "fc_heap s' = drop j (fc_heap s)" using assms(3) by blast
  have "set (fc_heap s') \<subseteq> set (fc_heap s)" unfolding j by (rule set_drop_subset)
  moreover have "distinct (fc_heap s')" using assms(1) unfolding j heap_fresh_def by (simp add: distinct_drop)
  ultimately show ?thesis using assms(1,2) unfolding heap_fresh_def by blast
qed

lemma heap_fresh_node: "heap_fresh s \<Longrightarrow> fc_nodes s p = Some n \<Longrightarrow> heap_fresh (set_node p m s)"
  by (rule heap_fresh_sub) (auto simp: set_node_def intro: exI [of _ 0])

lemma set_node_simps [simp]:
  "backend (set_node p n s) = backend s" "fc_heap (set_node p n s) = fc_heap s" "fc_blocks (set_node p n s) = fc_blocks s"
  "fscache_root_node (set_node p n s) = fscache_root_node s" "fc_nodes (set_node p n s) = (fc_nodes s)(p \<mapsto> n)"
  by (simp_all add: set_node_def)

lemma find_children_eq:
  assumes c: "cache_ok v kroot s g lk" and g: "g cur = Some k" and t: "NUL \<notin> set t" and n: "fc_nodes s cur = Some n"
  obtains cs where "sibs s (first_child n) cs" "\<forall>c\<in>set cs. NUL \<notin> set (name_of s c)"
    "fscache_find_in_children cur t s = Inr (find (\<lambda>c. name_of s c = t) cs)"
    "\<forall>c\<in>set cs. \<exists>kc. g c = Some kc \<and> look v (backend s) k (name_of s c) = Some kc"
proof -
  obtain n' where "fc_nodes s cur = Some n'" "entry_ok v s g (lk cur) k n'" using c g by (rule cache_okD)
  then obtain cs where cs: "sibs s (first_child n) cs"
      "\<forall>c\<in>set cs. \<exists>kc. g c = Some kc \<and> look v (backend s) k (name_of s c) = Some kc"
    using n by (auto simp: entry_ok_def)
  have nn: "\<forall>x\<in>set cs. NUL \<notin> set (name_of s x)"
  proof
    fix x assume "x \<in> set cs"
    then obtain kx where "g x = Some kx" using cs(2) by blast
    with c obtain m where "fc_nodes s x = Some m" "entry_ok v s g (lk x) kx m" by (rule cache_okD)
    then show "NUL \<notin> set (name_of s x)" by (auto simp: entry_ok_def attrs_ok_def attrs_def)
  qed
  then have "fscache_find_in_children cur t s = Inr (find (\<lambda>c. name_of s c = t) cs)"
    using find_sibling_law [OF cs(1) t] n by (simp add: fscache_find_in_children_def node_at_def returns_def)
  then show thesis using that cs nn by blast
qed

lemma find_children_law:
  assumes c: "cache_ok v kroot s g lk" and g: "g cur = Some k" and t: "NUL \<notin> set t"
  obtains r where "fscache_find_in_children cur t s = Inr r"
    "\<forall>p. r = Some p \<longrightarrow> (\<exists>kc. g p = Some kc \<and> look v (backend s) k t = Some kc)"
proof -
  obtain n where n: "fc_nodes s cur = Some n" using c g by (rule cache_okD)
  obtain cs where cs: "fscache_find_in_children cur t s = Inr (find (\<lambda>c. name_of s c = t) cs)"
    "\<forall>c\<in>set cs. \<exists>kc. g c = Some kc \<and> look v (backend s) k (name_of s c) = Some kc"
    by (rule find_children_eq [OF c g t n])
  have "\<forall>p. find (\<lambda>c. name_of s c = t) cs = Some p \<longrightarrow> (\<exists>kc. g p = Some kc \<and> look v (backend s) k t = Some kc)"
    using cs(2) by (auto simp: find_Some_iff)
  with cs(1) show thesis by (rule that)
qed

text \<open>The second search, under the write lock, finds what the first one found.\<close>

lemma find_children_again:
  assumes c: "cache_ok v kroot s g lk" and g: "g cur = Some k" and t: "NUL \<notin> set t" and n: "fc_nodes s cur = Some n"
  shows "fscache_find_in_children cur t (set_node cur (n\<lparr>rwlock := l\<rparr>) s) = fscache_find_in_children cur t s"
proof -
  let ?s = "set_node cur (n\<lparr>rwlock := l\<rparr>) s"
  obtain cs where cs: "sibs s (first_child n) cs" "\<forall>c\<in>set cs. NUL \<notin> set (name_of s c)"
    "fscache_find_in_children cur t s = Inr (find (\<lambda>c. name_of s c = t) cs)"
    by (rule find_children_eq [OF c g t n])
  note fr = set_lock_frame [OF n, of l]
  have "sibs ?s (first_child n) cs" "\<forall>c\<in>set cs. NUL \<notin> set (name_of ?s c)" using cs(1,2) unfolding fr by simp_all
  from find_sibling_law [OF this(1) t this(2)] show ?thesis
    using cs(3) unfolding fr by (simp add: fscache_find_in_children_def node_at_def returns_def)
qed

lemma move_to_law:
  assumes c: "cache_ok v kroot s g (idle(cur := one_reader))" and g: "g cur = Some k" "g p = Some k'"
    and h: "heap_fresh s"
  obtains s' where "move_to cur p s = Inr (Go p s')" "cache_ok v kroot s' g (idle(p := one_reader))" "kept 0 s s'"
proof -
  let ?lk = "idle(cur := one_reader)"
  obtain l1 where l1: "rd_lock (?lk p) = Some l1" "(p = cur \<longrightarrow> rd_unlock l1 = one_reader) \<and> (p \<noteq> cur \<longrightarrow> l1 = one_reader)"
    by (cases "p = cur") (auto simp: rw_fun_defs lock_state_defs)
  obtain n where n: "fc_nodes s p = Some n" "lock_node rd_lock p s = Inr (set_node p (n\<lparr>rwlock := l1\<rparr>) s)"
    "cache_ok v kroot (set_node p (n\<lparr>rwlock := l1\<rparr>) s) g (?lk(p := l1))"
    using lock_node_ok [where f = rd_lock, OF c g(2) l1(1)] by blast
  let ?s1 = "set_node p (n\<lparr>rwlock := l1\<rparr>) s"
  obtain m where m: "fc_nodes ?s1 cur = Some m"
    "lock_node (\<lambda>l. Some (rd_unlock l)) cur ?s1 = Inr (set_node cur (m\<lparr>rwlock := rd_unlock ((?lk(p := l1)) cur)\<rparr>) ?s1)"
    "cache_ok v kroot (set_node cur (m\<lparr>rwlock := rd_unlock ((?lk(p := l1)) cur)\<rparr>) ?s1) g
      (?lk(p := l1, cur := rd_unlock ((?lk(p := l1)) cur)))"
    using lock_node_ok [where f = "\<lambda>l. Some (rd_unlock l)", OF n(3) g(1)] by blast
  have "?lk(p := l1, cur := rd_unlock ((?lk(p := l1)) cur)) = idle(p := one_reader)"
    using l1(2) by (cases "p = cur") auto
  moreover have "kept 0 s (set_node cur (m\<lparr>rwlock := rd_unlock ((?lk(p := l1)) cur)\<rparr>) ?s1)"
    using heap_fresh_node [OF heap_fresh_node [OF h n(1)] m(1)] by (simp add: kept_def)
  ultimately show thesis using n(2) m(2,3) that
    by (simp add: move_to_def fscache_wait_for_node_readable_def fscache_release_node_readable_def)
qed

text \<open>What the cache expects of a file system: the names its objects are found under, and what its load
  function puts in a node.\<close>

locale dir_fs =
  fixes v :: "('m, 'k) dir_view"
    and load :: "'m fscache load_fun"
    and good :: "'m \<Rightarrow> bool"
  assumes look_law: "good m \<Longrightarrow> NUL \<notin> set t \<Longrightarrow> look v m k t = Some k' \<Longrightarrow>
      attrs_ok (atts v m k') \<and> a_name (atts v m k') = t \<and> up v m k' = Some k"
    and load_found: "\<lbrakk>good (backend s); fc_nodes s cur = Some cn; attrs cn = atts v (backend s) k; fsops cn = Some ops;
      fc_nodes s ch = Some ((cleared_node DT_UNKNOWN)\<lparr>rwlock := l\<rparr>); cur \<noteq> ch; NUL \<notin> set t;
      look v (backend s) k t = Some k'; fc_heap s = a # h; a \<noteq> 0\<rbrakk> \<Longrightarrow>
      \<exists>n'. load (op_load_node ops) cur t ch s = Inr (0, s\<lparr>fc_nodes := (fc_nodes s)(ch \<mapsto> n'), fc_heap := h\<rparr>) \<and>
        attrs n' = atts v (backend s) k' \<and> rwlock n' = l \<and> first_child n' = None \<and> next_sibling n' = None"
    and load_missing: "\<lbrakk>good (backend s); fc_nodes s cur = Some cn; attrs cn = atts v (backend s) k; fsops cn = Some ops;
      fc_nodes s ch = Some ((cleared_node DT_UNKNOWN)\<lparr>rwlock := l\<rparr>); cur \<noteq> ch; NUL \<notin> set t;
      look v (backend s) k t = None\<rbrakk> \<Longrightarrow> load (op_load_node ops) cur t ch s = Inr (- ENOENT, s)"
begin

text \<open>Loading a child that is not cached.\<close>

lemma load_child_found:
  assumes c: "cache_ok v kroot s g (idle(cur := one_writer))" and g: "g cur = Some k" and gd: "good (backend s)"
    and h: "heap_fresh s" "2 \<le> length (fc_heap s)" and k': "look v (backend s) k t = Some k'"
    and al: "fresh_from s ch s1" and cn: "fc_nodes s cur = Some cn" and ops: "fsops cn = Some ops" and t: "NUL \<notin> set t"
  defines "s2 \<equiv> set_node ch ((cleared_node DT_UNKNOWN)\<lparr>rwlock := one_reader\<rparr>) s1"
  obtains s3 s4 s5 where "load (op_load_node ops) cur t ch s2 = Inr (0, s3)" "fscache_link_node cur ch s3 = Inr s4"
    "fscache_release_node_modifiable cur s4 = Inr s5" "kept 2 s s5"
    "cache_ok v kroot s5 (g(ch \<mapsto> k')) (idle(ch := one_reader))" "g ch = None"
proof -
  let ?cl = "(cleared_node DT_UNKNOWN)\<lparr>rwlock := one_reader\<rparr>"
  have gch: "g ch = None" by (rule fresh_not_cached [OF c al])
  then have ne: "cur \<noteq> ch" using g by auto
  have c2: "cache_ok v kroot s2 g (idle(cur := one_writer))" unfolding s2_def by (rule fresh_cache [OF c al])
  have al': "fc_nodes s1 ch = Some (cleared_node DT_UNKNOWN)" "fc_nodes s1 cur = Some cn" "backend s1 = backend s"
    "heap_fresh s1" "fc_heap s1 = fc_heap s \<or> fc_heap s1 = tl (fc_heap s)" "fscache_root_node s1 = fscache_root_node s"
    using al cn ne by (auto simp: fresh_from_def)
  have b2: "backend s2 = backend s" "fc_nodes s2 cur = Some cn" "fc_nodes s2 ch = Some ?cl" "fc_heap s2 = fc_heap s1"
    "heap_fresh s2"
    using al' ne heap_fresh_node [OF al'(4,1)] by (simp_all add: s2_def)
  obtain x y zs where xs: "fc_heap s = x # y # zs" using h(2) by (cases "fc_heap s"; cases "tl (fc_heap s)") auto
  then have "fc_heap s2 = x # y # zs \<or> fc_heap s2 = y # zs" using al'(5) b2(4) by auto
  then obtain a hs where hs: "fc_heap s2 = a # hs" "length (fc_heap s) \<le> length hs + 2" "set hs \<subseteq> set (fc_heap s)"
    using xs by (elim disjE) auto
  have "a \<noteq> 0" using b2(5) hs(1) by (auto simp: heap_fresh_def)
  obtain cn' where "fc_nodes s cur = Some cn'" "entry_ok v s g ((idle(cur := one_writer)) cur) k cn'" using c g by (rule cache_okD)
  then have at: "attrs cn = atts v (backend s2) k" using cn b2(1) by (simp add: entry_ok_def)
  have "good (backend s2)" "look v (backend s2) k t = Some k'" using gd k' b2(1) by simp_all
  from load_found [OF this(1) b2(2) at ops b2(3) ne t this(2) hs(1) \<open>a \<noteq> 0\<close>] obtain n' where
    n': "load (op_load_node ops) cur t ch s2 = Inr (0, s2\<lparr>fc_nodes := (fc_nodes s2)(ch \<mapsto> n'), fc_heap := hs\<rparr>)"
      "attrs n' = atts v (backend s2) k'" "rwlock n' = one_reader" "first_child n' = None" "next_sibling n' = None"
    by blast
  let ?s3 = "s2\<lparr>fc_nodes := (fc_nodes s2)(ch \<mapsto> n'), fc_heap := hs\<rparr>"
  have c3: "cache_ok v kroot ?s3 g (idle(cur := one_writer))"
    by (rule cache_frame [OF c2]) (use gch in auto)
  have ok: "attrs_ok (attrs n')" "a_name (attrs n') = t" "up v (backend ?s3) k' = Some k"
    using look_law [OF gd t k'] b2(1) by (simp_all add: n'(2))
  have p: "fc_nodes ?s3 cur = Some cn" "fc_nodes ?s3 ch = Some n'" "attrs n' = atts v (backend ?s3) k'"
    "look v (backend ?s3) k (f_name n') = Some k'"
    using b2 ne n'(2) k' ok(2) [unfolded attrs_fields] by simp_all
  note lk = cache_link [OF c3 g gch p(1,2,3) ok(1) n'(4,5) p(4) ok(3)]
  let ?s4 = "?s3\<lparr>fc_nodes := linked cur ch (first_child cn) (fc_nodes ?s3)\<rparr>"
  have g4: "(g(ch \<mapsto> k')) cur = Some k" using g ne by simp
  have wl: "Some (wr_unlock ((idle(cur := one_writer, ch := rwlock n')) cur)) = Some rw_lock_init" using ne by simp
  obtain m where m: "fc_nodes ?s4 cur = Some m"
    "lock_node (\<lambda>l. Some (wr_unlock l)) cur ?s4 = Inr (set_node cur (m\<lparr>rwlock := rw_lock_init\<rparr>) ?s4)"
    "cache_ok v kroot (set_node cur (m\<lparr>rwlock := rw_lock_init\<rparr>) ?s4) (g(ch \<mapsto> k'))
      ((idle(cur := one_writer, ch := rwlock n'))(cur := rw_lock_init))"
    by (rule lock_node_ok [where f = "\<lambda>l. Some (wr_unlock l)", OF lk(2) g4 wl])
  have "(idle(cur := one_writer, ch := rwlock n'))(cur := rw_lock_init) = idle(ch := one_reader)" using n'(3) ne by auto
  moreover have "heap_fresh ?s4"
    by (rule heap_fresh_sub [OF b2(5)]) (use b2(2,3) hs(1) in \<open>auto simp: linked_def intro!: exI [of _ 1]\<close>)
  then have "kept 2 s (set_node cur (m\<lparr>rwlock := rw_lock_init\<rparr>) ?s4)"
    using heap_fresh_node [OF _ m(1)] hs(2,3) b2(1) by (simp add: kept_def)
  ultimately show thesis using that [OF n'(1) lk(1), of "set_node cur (m\<lparr>rwlock := rw_lock_init\<rparr>) ?s4"] m(2,3) gch
    by (simp add: fscache_release_node_modifiable_def)
qed

lemma load_child_missing:
  assumes c: "cache_ok v kroot s g (idle(cur := one_writer))" and g: "g cur = Some k" and gd: "good (backend s)"
    and h: "heap_fresh s" "2 \<le> length (fc_heap s)" and k': "look v (backend s) k t = None"
    and al: "fresh_from s ch s1" and cn: "fc_nodes s cur = Some cn" and ops: "fsops cn = Some ops" and t: "NUL \<notin> set t"
  defines "s2 \<equiv> set_node ch ((cleared_node DT_UNKNOWN)\<lparr>rwlock := one_reader\<rparr>) s1"
  obtains s4 s5 where "load (op_load_node ops) cur t ch s2 = Inr (- ENOENT, s2)"
    "upd_node ch (\<lambda>c. c\<lparr>f_type := 0\<rparr>) s2 = Inr s4" "\<forall>r. stop_downgraded r cur s4 = Inr (Stop r cur s5)" "kept 2 s s5"
    "cache_ok v kroot s5 g (idle(cur := one_reader))"
proof -
  let ?cl = "(cleared_node DT_UNKNOWN)\<lparr>rwlock := one_reader\<rparr>"
  have gch: "g ch = None" by (rule fresh_not_cached [OF c al])
  then have ne: "cur \<noteq> ch" using g by auto
  have al': "fc_nodes s1 ch = Some (cleared_node DT_UNKNOWN)" "fc_nodes s1 cur = Some cn" "backend s1 = backend s"
    "heap_fresh s1" "fc_heap s1 = fc_heap s \<or> fc_heap s1 = tl (fc_heap s)"
    using al cn ne by (auto simp: fresh_from_def)
  have b2: "backend s2 = backend s" "fc_nodes s2 cur = Some cn" "fc_nodes s2 ch = Some ?cl"
    using al' ne by (simp_all add: s2_def)
  obtain cn' where "fc_nodes s cur = Some cn'" "entry_ok v s g ((idle(cur := one_writer)) cur) k cn'" using c g by (rule cache_okD)
  then have at: "attrs cn = atts v (backend s2) k" using cn b2(1) by (simp add: entry_ok_def)
  have "good (backend s2)" "look v (backend s2) k t = None" using gd k' b2(1) by simp_all
  note ld = load_missing [OF this(1) b2(2) at ops b2(3) ne t this(2)]
  let ?s4 = "set_node ch (?cl\<lparr>f_type := 0\<rparr>) s2"
  have u: "upd_node ch (\<lambda>c. c\<lparr>f_type := 0\<rparr>) s2 = Inr ?s4" using b2(3) by (simp add: upd_node_def node_at_def)
  have eq: "?s4 = set_node ch (?cl\<lparr>f_type := 0\<rparr>) s1" by (simp add: s2_def set_node_def)
  have c4: "cache_ok v kroot ?s4 g (idle(cur := one_writer))" unfolding eq by (rule fresh_cache [OF c al])
  have wl: "Some (downgrade ((idle(cur := one_writer)) cur)) = Some one_reader" by simp
  obtain m where m: "fc_nodes ?s4 cur = Some m"
    "lock_node (\<lambda>l. Some (downgrade l)) cur ?s4 = Inr (set_node cur (m\<lparr>rwlock := one_reader\<rparr>) ?s4)"
    "cache_ok v kroot (set_node cur (m\<lparr>rwlock := one_reader\<rparr>) ?s4) g ((idle(cur := one_writer))(cur := one_reader))"
    by (rule lock_node_ok [where f = "\<lambda>l. Some (downgrade l)", OF c4 g wl])
  have "heap_fresh ?s4" unfolding eq by (rule heap_fresh_node [OF al'(4,1)])
  then have "kept 2 s (set_node cur (m\<lparr>rwlock := one_reader\<rparr>) ?s4)"
    using heap_fresh_node [OF _ m(1)] al'(3,5) list.set_sel(2) [of "fc_heap s"]
    by (cases "fc_heap s = []") (auto simp: kept_def s2_def)
  moreover have "stop_downgraded r cur ?s4 = Inr (Stop r cur (set_node cur (m\<lparr>rwlock := one_reader\<rparr>) ?s4))" for r
    using m(2) by (simp add: stop_downgraded_def fscache_downgrade_node_to_readable_def)
  ultimately show thesis using that [OF ld u] m(3) by simp
qed

text \<open>A component that is not cached is loaded; the outcome is the one of the objects.\<close>

lemma load_child_law:
  assumes c: "cache_ok v kroot s g (idle(cur := one_reader))" and g: "g cur = Some k" and gd: "good (backend s)"
    and h: "heap_fresh s" "2 \<le> length (fc_heap s)" and t: "NUL \<notin> set t"
    and none: "fscache_find_in_children cur t s = Inr None"
  shows "case look v (backend s) k t of
      None \<Rightarrow> \<exists>s'. load_child load t at_end cur s =
          Inr (Stop (if at_end then FSCACHE_REQUEST_NODE_ONE_LEVEL_AWAY else - ENOENT) cur s') \<and>
        kept 2 s s' \<and> cache_ok v kroot s' g (idle(cur := one_reader))
    | Some k' \<Rightarrow> \<exists>p s' g'. load_child load t at_end cur s = Inr (Go p s') \<and> kept 2 s s' \<and>
        cache_ok v kroot s' g' (idle(p := one_reader)) \<and> g' p = Some k' \<and> g \<subseteq>\<^sub>m g'"
proof -
  have wl: "upgrade ((idle(cur := one_reader)) cur) = Some one_writer" by simp
  obtain n where n: "fc_nodes s cur = Some n" "lock_node upgrade cur s = Inr (set_node cur (n\<lparr>rwlock := one_writer\<rparr>) s)"
    "cache_ok v kroot (set_node cur (n\<lparr>rwlock := one_writer\<rparr>) s) g ((idle(cur := one_reader))(cur := one_writer))"
    by (rule lock_node_ok [where f = upgrade, OF c g wl])
  let ?s1 = "set_node cur (n\<lparr>rwlock := one_writer\<rparr>) s" and ?cn = "n\<lparr>rwlock := one_writer\<rparr>"
  have c1: "cache_ok v kroot ?s1 g (idle(cur := one_writer))" using n(3) by simp
  have h1: "heap_fresh ?s1" "2 \<le> length (fc_heap ?s1)" "good (backend ?s1)" "fc_nodes ?s1 cur = Some ?cn"
    using heap_fresh_node [OF h(1) n(1)] h(2) gd by simp_all
  obtain cn' where "fc_nodes s cur = Some cn'" "entry_ok v s g ((idle(cur := one_reader)) cur) k cn'" using c g by (rule cache_okD)
  then have "fsops n \<noteq> None" using n(1) by (auto simp: entry_ok_def attrs_ok_def)
  then obtain ops where ops: "fsops ?cn = Some ops" by auto
  have again: "fscache_find_in_children cur t ?s1 = Inr None" using find_children_again [OF c g t n(1)] none by simp
  have "fc_heap ?s1 \<noteq> []" using h1(2) by auto
  then obtain ch s1' where al: "fresh_from ?s1 ch s1'" "fscache_allocate_node ?s1 =
      Inr (Some ch, set_node ch ((cleared_node DT_UNKNOWN)\<lparr>rwlock := one_reader\<rparr>) s1')"
    using allocate_node_law [OF h1(1)] by blast
  let ?s2 = "set_node ch ((cleared_node DT_UNKNOWN)\<lparr>rwlock := one_reader\<rparr>) s1'"
  have "cur \<noteq> ch" using fresh_not_cached [OF c1 al(1)] g by auto
  then have nd: "node_at ?s2 cur = Inr ?cn" using al(1) h1(4) by (auto simp: fresh_from_def node_at_def)
  have start: "load_child load t at_end cur s = bindR (load (op_load_node ops) cur t ch ?s2) (\<lambda>(r, s3).
      if r \<noteq> 0 then
        bindR (upd_node ch (\<lambda>c. c\<lparr>f_type := 0\<rparr>) s3) (\<lambda>s4.
          if at_end \<and> r = - ENOENT then stop_downgraded FSCACHE_REQUEST_NODE_ONE_LEVEL_AWAY cur s4
          else stop_downgraded r cur s4)
      else bindR (fscache_link_node cur ch s3) (\<lambda>s4.
           bindR (fscache_release_node_modifiable cur s4) (\<lambda>s5. Inr (Go ch s5))))"
    using n(2) again al(2) nd ops by (simp add: load_child_def fscache_upgrade_node_to_modifiable_def)
  have kp: "kept 2 s s'" if "kept 2 ?s1 s'" for s' using that by (simp add: kept_def)
  show ?thesis
  proof (cases "look v (backend s) k t")
    case None
    then have l: "look v (backend ?s1) k t = None" by simp
    obtain s4 s5 where m: "load (op_load_node ops) cur t ch ?s2 = Inr (- ENOENT, ?s2)"
      "upd_node ch (\<lambda>c. c\<lparr>f_type := 0\<rparr>) ?s2 = Inr s4" "\<forall>r. stop_downgraded r cur s4 = Inr (Stop r cur s5)" "kept 2 ?s1 s5"
      "cache_ok v kroot s5 g (idle(cur := one_reader))"
      by (rule load_child_missing [OF c1 g h1(3,1,2) l al(1) h1(4) ops t])
    then show ?thesis using None start kp by (simp add: ENOENT_def)
  next
    case (Some k')
    then have l: "look v (backend ?s1) k t = Some k'" by simp
    obtain s3 s4 s5 where m: "load (op_load_node ops) cur t ch ?s2 = Inr (0, s3)" "fscache_link_node cur ch s3 = Inr s4"
      "fscache_release_node_modifiable cur s4 = Inr s5" "kept 2 ?s1 s5"
      "cache_ok v kroot s5 (g(ch \<mapsto> k')) (idle(ch := one_reader))" "g ch = None"
      by (rule load_child_found [OF c1 g h1(3,1,2) l al(1) h1(4) ops t])
    then have "g \<subseteq>\<^sub>m g(ch \<mapsto> k')" by (auto simp: map_le_def)
    then show ?thesis using Some start m kp by auto
  qed
qed

lemma request_step_law:
  assumes c: "cache_ok v kroot s g (idle(cur := one_reader))" and g: "g cur = Some k" and gd: "good (backend s)"
    and h: "heap_fresh s" "2 \<le> length (fc_heap s)" and t: "NUL \<notin> set t"
  shows "case resolve_step v (backend s) uid t at_end k of
      Inl (r, over) \<Rightarrow> \<exists>s'. request_step load uid t at_end cur s = Inr (Stop r cur s') \<and> kept 2 s s' \<and>
        cache_ok v kroot s' g (if over then idle else idle(cur := one_reader))
    | Inr k' \<Rightarrow> \<exists>p s' g'. request_step load uid t at_end cur s = Inr (Go p s') \<and> kept 2 s s' \<and>
        cache_ok v kroot s' g' (idle(p := one_reader)) \<and> g' p = Some k' \<and> g \<subseteq>\<^sub>m g'"
proof -
  obtain n where n: "fc_nodes s cur = Some n" "entry_ok v s g ((idle(cur := one_reader)) cur) k n" using c g by (rule cache_okD)
  let ?a = "atts v (backend s) k"
  have a: "f_type n = a_type ?a" "f_mode n = a_mode ?a" "f_uid n = a_uid ?a" "f_gid n = a_gid ?a"
    using n(2) by (simp_all add: entry_ok_def flip: attrs_fields)
  let ?x = "access_check (a_mode ?a) (a_uid ?a) (a_gid ?a) uid AND ACCESS_EXECUTE = 0"
  note unf = request_step_def resolve_step_def Let_def node_at_def
  have kp: "kept 2 s s'" if "kept 0 s s'" for s' using that by (simp add: kept_def)
  have k0: "kept 2 s s" using h(1) by (simp add: kept_def)
  consider (stop) "a_type ?a \<noteq> DT_DIR \<or> ?x" | (up) "a_type ?a = DT_DIR" "\<not> ?x" "t = ''..''"
    | (dot) "a_type ?a = DT_DIR" "\<not> ?x" "t = ''.''"
    | (name) "a_type ?a = DT_DIR" "\<not> ?x" "t \<noteq> ''..''" "t \<noteq> ''.''" by blast
  then show ?thesis
  proof cases
    case stop
    then show ?thesis using n(1) a c k0 by (auto simp: unf)
  next
    case up
    show ?thesis
    proof (cases "parent_node n")
      case None
      have wl: "Some (rd_unlock ((idle(cur := one_reader)) cur)) = Some rw_lock_init" by simp
      obtain m where m: "fc_nodes s cur = Some m"
        "lock_node (\<lambda>l. Some (rd_unlock l)) cur s = Inr (set_node cur (m\<lparr>rwlock := rw_lock_init\<rparr>) s)"
        "cache_ok v kroot (set_node cur (m\<lparr>rwlock := rw_lock_init\<rparr>) s) g ((idle(cur := one_reader))(cur := rw_lock_init))"
        by (rule lock_node_ok [where f = "\<lambda>l. Some (rd_unlock l)", OF c g wl])
      have "Fscache.up v (backend s) k = None" using n(2) None by (simp add: entry_ok_def)
      moreover have "(idle(cur := one_reader))(cur := rw_lock_init) = idle" by auto
      moreover have "kept 2 s (set_node cur (m\<lparr>rwlock := rw_lock_init\<rparr>) s)"
        using heap_fresh_node [OF h(1) m(1)] by (simp add: kept_def)
      ultimately show ?thesis using up n(1) a None m(2,3) by (simp add: unf fscache_release_node_readable_def)
    next
      case (Some q)
      then obtain kq where q: "g q = Some kq" "Fscache.up v (backend s) k = Some kq" using n(2) by (auto simp: entry_ok_def)
      obtain s' where "move_to cur q s = Inr (Go q s')" "cache_ok v kroot s' g (idle(q := one_reader))" "kept 0 s s'"
        by (rule move_to_law [OF c g q(1) h(1)])
      then show ?thesis using up n(1) a Some q kp by (auto simp: unf intro!: exI [of _ g])
    qed
  next
    case dot
    then show ?thesis using n(1) a c g k0 by (auto simp: unf intro!: exI [of _ g])
  next
    case name
    obtain r where r: "fscache_find_in_children cur t s = Inr r"
      "\<forall>p. r = Some p \<longrightarrow> (\<exists>kc. g p = Some kc \<and> look v (backend s) k t = Some kc)"
      by (rule find_children_law [OF c g t])
    show ?thesis
    proof (cases r)
      case None
      then have "request_step load uid t at_end cur s = load_child load t at_end cur s"
        using name n(1) a r(1) by (simp add: unf)
      then show ?thesis using load_child_law [OF c g gd h t, of at_end] r(1) None name
        by (cases "look v (backend s) k t"; cases at_end) (simp_all add: resolve_step_def)
    next
      case (Some p)
      then obtain kc where p: "g p = Some kc" "look v (backend s) k t = Some kc" using r(2) by blast
      obtain s' where "move_to cur p s = Inr (Go p s')" "cache_ok v kroot s' g (idle(p := one_reader))" "kept 0 s s'"
        by (rule move_to_law [OF c g p(1) h(1)])
      then show ?thesis using name n(1) a Some r(1) p kp by (auto simp: unf intro!: exI [of _ g])
    qed
  qed
qed

lemma kept_trans: "kept i s s' \<Longrightarrow> kept j s' s'' \<Longrightarrow> kept (i + j) s s''"
  by (auto simp: kept_def)

lemma request_loop_law:
  "\<lbrakk>cache_ok v kroot s g (idle(cur := one_reader)); g cur = Some k; good (backend s); heap_fresh s;
     2 * length rest \<le> length (fc_heap s); NUL \<notin> set rest; resolve v (backend s) uid rest k = (r, k', over)\<rbrakk> \<Longrightarrow>
   \<exists>p s' g'. request_loop load uid rest cur s = Inr (r, p, s') \<and> kept (2 * length rest) s s' \<and>
     cache_ok v kroot s' g' (if over then idle else idle(p := one_reader)) \<and> g' p = Some k' \<and> g \<subseteq>\<^sub>m g'"
proof (induction rest arbitrary: cur s g k rule: length_induct)
  case (1 rest)
  let ?start = "dropWhile (\<lambda>c. c = slash) rest"
  let ?t = "takeWhile (\<lambda>c. c \<noteq> slash) ?start" and ?after = "dropWhile (\<lambda>c. c \<noteq> slash) ?start"
  note p = "1.prems"
  show ?case
  proof (cases "?t = []")
    case True
    then have "(r, k', over) = (0, k, False)" "request_loop load uid rest cur s = Inr (0, cur, s)"
      using p(7) by (subst (asm) resolve.simps, simp, subst request_loop.simps, simp)
    then show ?thesis using p(1,2,4) by (auto simp: kept_def intro!: exI [of _ g])
  next
    case False
    have sub: "set ?t \<subseteq> set rest" "set ?after \<subseteq> set rest"
      by (auto dest: set_takeWhileD set_dropWhileD)
    have la: "length ?after < length rest" using False by (rule after_token_shorter)
    have t: "NUL \<notin> set ?t" "NUL \<notin> set ?after" using p(6) sub by auto
    have h2: "2 \<le> length (fc_heap s)" using p(5) la by simp
    note st = request_step_law [OF p(1-4) h2 t(1), of uid "?after = []"]
    have rl: "request_loop load uid rest cur s = bindR (request_step load uid ?t (?after = []) cur s) (\<lambda>st.
        case st of Stop res cur' s' \<Rightarrow> Inr (res, cur', s') | Go cur' s' \<Rightarrow> request_loop load uid ?after cur' s')"
      using False by (subst request_loop.simps) (simp add: Let_def)
    have rs: "(r, k', over) = (case resolve_step v (backend s) uid ?t (?after = []) k of
        Inl (r, over) \<Rightarrow> (r, k, over) | Inr k' \<Rightarrow> resolve v (backend s) uid ?after k')"
      using p(7) False by (subst (asm) resolve.simps) (simp add: Let_def)
    show ?thesis
    proof (cases "resolve_step v (backend s) uid ?t (?after = []) k")
      case (Inl ro)
      obtain r0 o0 where "ro = (r0, o0)" by fastforce
      then obtain s' where "request_step load uid ?t (?after = []) cur s = Inr (Stop r cur s')" "kept 2 s s'"
        "cache_ok v kroot s' g (if over then idle else idle(cur := one_reader))" "k' = k"
        using st rs Inl by auto
      then show ?thesis using rl p(2) la by (auto simp: kept_def intro!: exI [of _ g])
    next
      case (Inr k1)
      obtain p1 s1 g1 where s1: "request_step load uid ?t (?after = []) cur s = Inr (Go p1 s1)" "kept 2 s s1"
        "cache_ok v kroot s1 g1 (idle(p1 := one_reader))" "g1 p1 = Some k1" "g \<subseteq>\<^sub>m g1"
        using st Inr by auto
      have b: "backend s1 = backend s" "heap_fresh s1" "length (fc_heap s) \<le> length (fc_heap s1) + 2"
        using s1(2) by (simp_all add: kept_def)
      have "good (backend s1)" "2 * length ?after \<le> length (fc_heap s1)"
        "resolve v (backend s1) uid ?after k1 = (r, k', over)"
        using p(3,5) b la rs Inr by simp_all
      from "1.IH" [rule_format, OF la s1(3,4) this(1) b(2) this(2) t(2) this(3)] obtain p2 s2 g2 where
        s2: "request_loop load uid ?after p1 s1 = Inr (r, p2, s2)" "kept (2 * length ?after) s1 s2"
          "cache_ok v kroot s2 g2 (if over then idle else idle(p2 := one_reader))" "g2 p2 = Some k'" "g1 \<subseteq>\<^sub>m g2"
        by blast
      have "kept (2 * length rest) s s2" using kept_trans [OF s1(2) s2(2)] la by (auto simp: kept_def)
      moreover have "g \<subseteq>\<^sub>m g2" using s1(5) s2(5) by (rule map_le_trans)
      ultimately show ?thesis using rl s1(1) s2 by auto
    qed
  qed
qed

lemma request_node_law:
  assumes c: "cache_ok v kroot s g idle" and gd: "good (backend s)" and h: "heap_fresh s" "2 * length path < length (fc_heap s)"
    and p: "NUL \<notin> set path" "path \<noteq> []" and r: "resolve_path v (backend s) uid path kroot = (r, k, over)"
  shows "\<exists>p s' g'. fscache_request_node load (Some path) uid True s = Inr (r, Some p, s') \<and>
    kept (2 * length path + 1) s s' \<and> cache_ok v kroot s' g' (if over then idle else idle(p := one_reader)) \<and>
    g' p = Some k \<and> g \<subseteq>\<^sub>m g'"
proof -
  obtain root where root: "fscache_root_node s = Some root" "g root = Some kroot" using c by (auto simp: cache_ok_def)
  obtain a as where a: "fc_heap s = a # as" using h(2) by (cases "fc_heap s") auto
  let ?s1 = "s\<lparr>fc_heap := as\<rparr>"
  have "a \<noteq> 0" using h(1) a by (auto simp: heap_fresh_def)
  have h1: "heap_fresh ?s1" by (rule heap_fresh_sub [OF h(1)]) (auto simp: a intro: exI [of _ 1])
  have c1: "cache_ok v kroot ?s1 g idle" by (rule cache_frame [OF c]) auto
  have wl: "rd_lock (idle root) = Some one_reader" by simp
  obtain n where n: "fc_nodes ?s1 root = Some n" "lock_node rd_lock root ?s1 = Inr (set_node root (n\<lparr>rwlock := one_reader\<rparr>) ?s1)"
    "cache_ok v kroot (set_node root (n\<lparr>rwlock := one_reader\<rparr>) ?s1) g (idle(root := one_reader))"
    by (rule lock_node_ok [where f = rd_lock, OF c1 root(2) wl])
  let ?s2 = "set_node root (n\<lparr>rwlock := one_reader\<rparr>) ?s1"
  obtain r0 where r0: "resolve v (backend ?s2) uid path kroot = (r0, k, over)"
      "r = (if r0 = 0 \<and> a_type (atts v (backend s) k) \<noteq> DT_DIR \<and> last path = slash then - ENOTDIR else r0)"
    using r by (auto simp: resolve_path_def split: prod.splits)
  have "good (backend ?s2)" "heap_fresh ?s2" "2 * length path \<le> length (fc_heap ?s2)"
    using gd heap_fresh_node [OF h1 n(1)] h(2) a by simp_all
  from request_loop_law [OF n(3) root(2) this p(1) r0(1)] obtain q s3 g' where
    s3: "request_loop load uid path root ?s2 = Inr (r0, q, s3)" "kept (2 * length path) ?s2 s3"
      "cache_ok v kroot s3 g' (if over then idle else idle(q := one_reader))" "g' q = Some k" "g \<subseteq>\<^sub>m g'"
    by blast
  obtain m where m: "fc_nodes s3 q = Some m" "entry_ok v s3 g' ((if over then idle else idle(q := one_reader)) q) k m"
    using s3(3,4) by (rule cache_okD)
  have "backend s3 = backend s" using s3(2) by (simp add: kept_def)
  then have "f_type m = a_type (atts v (backend s) k)" using m(2) by (simp add: entry_ok_def flip: attrs_fields)
  then have "fscache_request_node load (Some path) uid True s = Inr (r, Some q, s3)"
    using p(2) root(1) a \<open>a \<noteq> 0\<close> n(2) s3(1) m(1) r0(2)
    by (simp add: fscache_request_node_def kmalloc_next_def fscache_wait_for_node_readable_def node_at_def Let_def)
  moreover have "kept (2 * length path + 1) s s3" using s3(2) a by (auto simp: kept_def)
  ultimately show ?thesis using s3(3-5) by blast
qed

end

end
