(* ===== verification/Kernelfs.thy ===== *)
theory Kernelfs
  imports Fscache
begin

text \<open>
  The kernel file system of \<^verbatim>\<open>src/vfs/kernelfs.c\<close>: a tree of nodes linked by \<^verbatim>\<open>parent\<close>, \<^verbatim>\<open>children\<close>, \<^verbatim>\<open>next\<close> and
  \<^verbatim>\<open>prev\<close> pointers, kept in a store by address (0 is \<^verbatim>\<open>NULL\<close>). It is the file system behind the cache of
  \<open>Fscache\<close>: loading a child copies the attributes of its node, with the table of operations, into a
  cached node. The read, write and seek functions of device nodes are addresses that the drivers pass in;
  listing a directory is modelled here.

  The cache is transparent: a request through it gives what walking the tree itself gives.
\<close>

section \<open>Nodes\<close>

record kernelfs_node =
  k_name :: string
  k_type :: u8
  k_uid :: u32
  k_gid :: u32
  k_mode :: mode_t
  k_open :: u64
  k_read :: u64
  k_write :: u64
  k_seek :: u64
  k_func_args :: u64
  k_parent :: u64
  k_children :: u64
  k_prev :: u64
  k_next :: u64

record kernelfs =
  knodes :: "u64 \<Rightarrow> kernelfs_node option"
  root_kernelfs_node :: u64

text \<open>The addresses of the functions of this file, as the linker places them.\<close>

definition fn_kernelfs_load :: u64 where "fn_kernelfs_load = 0xFFFFFFFF80001000"
definition fn_kernelfs_create_child :: u64 where "fn_kernelfs_create_child = 0xFFFFFFFF80002000"
definition fn_kernelfs_default_read_dir :: u64 where "fn_kernelfs_default_read_dir = 0xFFFFFFFF80003000"

definition S_DFLT :: mode_t where "S_DFLT = 0x1ED"

definition knode_at :: "(u64 \<Rightarrow> kernelfs_node option) \<Rightarrow> u64 \<Rightarrow> kernelfs_node kres" where
  "knode_at m a = (case m a of None \<Rightarrow> Inl BadAccess | Some n \<Rightarrow> Inr n)"

text \<open>\<^verbatim>\<open>strncmp(cur->name, name, NAME_MAX + 1) == 0\<close>\<close>

definition same_name :: "string \<Rightarrow> string \<Rightarrow> bool" where
  "same_name kname name \<longleftrightarrow> strncmp (kname @ [NUL]) (name @ [NUL]) (NAME_MAX + 1) = Inr 0"

text \<open>The search through a list of children; 0 when it is not there.\<close>

partial_function (option) find_child :: "string \<Rightarrow> u64 \<Rightarrow> (u64 \<Rightarrow> kernelfs_node option) \<Rightarrow> u64 kres option" where
  "find_child name cur m =
     (if cur = 0 then Some (Inr 0)
      else (case knode_at m cur of
              Inl e \<Rightarrow> Some (Inl e)
            | Inr n \<Rightarrow> if same_name (k_name n) name then Some (Inr cur) else find_child name (k_next n) m))"

section \<open>Loading\<close>

definition kernelfs_ops :: "kernelfs_node \<Rightarrow> vfs_ops_block" where
  "kernelfs_ops n = \<lparr>fsname = ''kernelfs'', op_read = k_read n, op_write = k_write n, op_seek = k_seek n, op_close = 0,
     op_create_child = (if k_type n = DT_DIR then fn_kernelfs_create_child else 0),
     op_load_node = fn_kernelfs_load, op_unload_node = 0\<rparr>"

definition load_found_node :: "u64 \<Rightarrow> nptr option \<Rightarrow> kernelfs fscache \<Rightarrow> (int \<times> kernelfs fscache) kres" where
  "load_found_node cur out s =
     (case out of
        None \<Rightarrow> Inr (0, s)
      | Some p \<Rightarrow>
          (case kmalloc_next s of (ops, s1) \<Rightarrow>
             if ops = 0 then Inr (- ENOMEM, s1)
             else bindR (knode_at (knodes (backend s1)) cur) (\<lambda>n.
               bindR (upd_node p (\<lambda>f. (fscache_node_populate (k_type n) 0 (k_name n) (k_uid n) (k_gid n) (k_mode n) 0
                                         (kernelfs_ops n) f)\<lparr>internal_data := (internal_data f)[0 := cur]\<rparr>) s1)
                 (\<lambda>s2. Inr (0, s2)))))"

definition kernelfs_load ::
    "nptr option \<Rightarrow> string option \<Rightarrow> nptr option \<Rightarrow> kernelfs fscache \<Rightarrow> (int \<times> kernelfs fscache) kres" where
  "kernelfs_load node name out s =
     bindR (case node of
              None \<Rightarrow> Inr (root_kernelfs_node (backend s))
            | Some p \<Rightarrow> bindR (node_at s p) (\<lambda>n. Inr (internal_data n ! 0))) (\<lambda>parent.
       case name of
         None \<Rightarrow> load_found_node parent out s
       | Some nm \<Rightarrow>
           bindR (knode_at (knodes (backend s)) parent) (\<lambda>pn.
           bindR (returns (find_child nm (k_children pn) (knodes (backend s)))) (\<lambda>cur.
             if cur = 0 then Inr (- ENOENT, s) else load_found_node cur out s)))"

text \<open>A call through a \<^verbatim>\<open>load_node\<close> pointer.\<close>

definition call_load :: "kernelfs fscache load_fun" where
  "call_load fn node name out s =
     (if fn = fn_kernelfs_load then kernelfs_load (Some node) (Some name) (Some out) s else Inl BadAccess)"

section \<open>Creating nodes\<close>

partial_function (option) last_child :: "u64 \<Rightarrow> (u64 \<Rightarrow> kernelfs_node option) \<Rightarrow> u64 kres option" where
  "last_child child m =
     (case knode_at m child of
        Inl e \<Rightarrow> Some (Inl e)
      | Inr n \<Rightarrow> if k_next n = 0 then Some (Inr child) else last_child (k_next n) m)"

definition set_knode :: "u64 \<Rightarrow> kernelfs_node \<Rightarrow> kernelfs fscache \<Rightarrow> kernelfs fscache" where
  "set_knode a n s = s\<lparr>backend := (backend s)\<lparr>knodes := (knodes (backend s))(a \<mapsto> n)\<rparr>\<rparr>"

text \<open>The functions and the argument of a node, as its creator passes them.\<close>

record node_funs =
  nf_open :: u64
  nf_read :: u64
  nf_write :: u64
  nf_seek :: u64
  nf_args :: u64

definition no_funs :: node_funs where
  "no_funs = \<lparr>nf_open = 0, nf_read = 0, nf_write = 0, nf_seek = 0, nf_args = 0\<rparr>"

definition kernelfs_create_node ::
    "u64 \<Rightarrow> string \<Rightarrow> u8 \<Rightarrow> u32 \<Rightarrow> u32 \<Rightarrow> mode_t \<Rightarrow> node_funs \<Rightarrow> kernelfs fscache \<Rightarrow>
     (int \<times> u64 \<times> kernelfs fscache) kres" where
  "kernelfs_create_node parent name type uid gid mode fs s =
     (if parent = 0 \<or> name = [] then Inr (- EINVAL, 0, s)
      else bindR (knode_at (knodes (backend s)) parent) (\<lambda>pn.
        bindR (returns (find_child name (k_children pn) (knodes (backend s)))) (\<lambda>existing.
          if existing \<noteq> 0 then Inr (- EEXIST, 0, s)
          else if k_type pn \<noteq> DT_DIR then Inr (- 2, 0, s)
          else (case kmalloc_next s of (new, s1) \<Rightarrow>
            if new = 0 then Inr (- 3, 0, s1)
            else
              let n = \<lparr>k_name = take NAME_MAX name, k_type = type, k_uid = uid, k_gid = gid, k_mode = mode,
                       k_open = nf_open fs, k_read = nf_read fs, k_write = nf_write fs, k_seek = nf_seek fs,
                       k_func_args = nf_args fs, k_parent = parent, k_children = 0, k_prev = 0, k_next = 0\<rparr>;
                  s2 = set_knode new n s1
              in if k_children pn = 0 then Inr (0, new, set_knode parent (pn\<lparr>k_children := new\<rparr>) s2)
                 else bindR (returns (last_child (k_children pn) (knodes (backend s2)))) (\<lambda>child.
                   bindR (knode_at (knodes (backend s2)) child) (\<lambda>cn.
                     Inr (0, new, set_knode new (n\<lparr>k_prev := child\<rparr>) (set_knode child (cn\<lparr>k_next := new\<rparr>) s2))))))))"

definition kernelfs_create_child ::
    "nptr \<Rightarrow> string \<Rightarrow> u8 \<Rightarrow> u32 \<Rightarrow> u32 \<Rightarrow> mode_t \<Rightarrow> nptr \<Rightarrow> kernelfs fscache \<Rightarrow> (int \<times> kernelfs fscache) kres" where
  "kernelfs_create_child parent name type uid gid mode node s =
     bindR (node_at s parent) (\<lambda>pn.
       if f_type pn \<noteq> DT_DIR then Inr (- ENOTDIR, s)
       else if internal_data pn ! 0 = 0 then Inr (- EIO, s)
       else if type \<noteq> DT_DIR then Inr (- ENOSYS, s)
       else bindR (kernelfs_create_node (internal_data pn ! 0) name type uid gid mode
                     (no_funs\<lparr>nf_read := fn_kernelfs_default_read_dir\<rparr>) s) (\<lambda>(res, new, s1).
         if res < 0 then Inr (res, s1)
         else (case fsops pn of
                 None \<Rightarrow> Inr (- EIO, s1)
               | Some ops \<Rightarrow> if op_load_node ops = 0 then Inr (- EIO, s1)
                             else call_load (op_load_node ops) parent name node s1)))"

definition call_create_child ::
    "u64 \<Rightarrow> nptr \<Rightarrow> string \<Rightarrow> u8 \<Rightarrow> u32 \<Rightarrow> u32 \<Rightarrow> mode_t \<Rightarrow> nptr \<Rightarrow> kernelfs fscache \<Rightarrow> (int \<times> kernelfs fscache) kres" where
  "call_create_child fn parent name type uid gid mode node s =
     (if fn = fn_kernelfs_create_child then kernelfs_create_child parent name type uid gid mode node s
      else Inl BadAccess)"

definition kernelfs_init :: "kernelfs fscache \<Rightarrow> kernelfs fscache kres" where
  "kernelfs_init s =
     (case kmalloc_next s of (root, s1) \<Rightarrow>
        if root = 0 then Inl BadAccess
        else
          let n = \<lparr>k_name = [], k_type = DT_DIR, k_uid = 0, k_gid = 0, k_mode = S_DFLT, k_open = 0,
                   k_read = fn_kernelfs_default_read_dir, k_write = 0, k_seek = 0, k_func_args = 0, k_parent = 0,
                   k_children = 0, k_prev = 0, k_next = 0\<rparr>;
              s2 = set_knode root n (s1\<lparr>backend := (backend s1)\<lparr>root_kernelfs_node := root\<rparr>\<rparr>)
          in bindR (kernelfs_create_node root ''testfs'' DT_DIR 0 0 S_DFLT no_funs s2) (\<lambda>(res, new, s3). Inr s3))"

text \<open>\<^verbatim>\<open>fscache_init\<close> of \<^verbatim>\<open>fscache.c\<close>, which loads the root of this file system.\<close>

definition fscache_init :: "kernelfs fscache \<Rightarrow> (int \<times> kernelfs fscache) kres" where
  "fscache_init s =
     (case fscache_create_block FSCACHE_INIT_NODES s of (blk, s1) \<Rightarrow>
        bindR (fscache_allocate_node s1) (\<lambda>(root, s2).
          let s3 = s2\<lparr>fscache_root_node := root\<rparr>
          in case root of
               None \<Rightarrow> Inr (- 1, s3)
             | Some r \<Rightarrow>
                 bindR (kernelfs_load None None (Some r) s3) (\<lambda>(res, s4).
                 bindR (fscache_release_node_readable r s4) (\<lambda>s5. Inr (0, s5)))))"

section \<open>Listing a directory\<close>

record vfs_handle =
  h_access :: mode_t
  backing_node :: "nptr option"
  instance_data :: "u64 list"

record plenjos_dirent =
  d_name :: string
  d_type :: u8

definition SIZEOF_DIRENT :: u64 where "SIZEOF_DIRENT = 257"

definition kernelfs_get_node_from_handle :: "vfs_handle \<Rightarrow> kernelfs fscache \<Rightarrow> u64 kres" where
  "kernelfs_get_node_from_handle h s =
     (case backing_node h of None \<Rightarrow> Inr 0
      | Some p \<Rightarrow> bindR (node_at s p) (\<lambda>n. Inr (internal_data n ! 0)))"

text \<open>\<open>None\<close> when the list ends before the position.\<close>

fun skip_children :: "nat \<Rightarrow> u64 \<Rightarrow> (u64 \<Rightarrow> kernelfs_node option) \<Rightarrow> u64 option kres" where
  "skip_children 0 cur m = Inr (Some cur)"
| "skip_children (Suc i) cur m =
     (if cur = 0 then Inr None else bindR (knode_at m cur) (\<lambda>n. skip_children i (k_next n) m))"

text \<open>The entries that fit in the room left in the buffer.\<close>

fun list_children :: "nat \<Rightarrow> u64 \<Rightarrow> (u64 \<Rightarrow> kernelfs_node option) \<Rightarrow> plenjos_dirent list kres" where
  "list_children 0 cur m = Inr []"
| "list_children (Suc room) cur m =
     (if cur = 0 then Inr []
      else bindR (knode_at m cur) (\<lambda>n.
        bindR (list_children room (k_next n) m) (\<lambda>ds.
          Inr (\<lparr>d_name = take NAME_MAX (k_name n), d_type = k_type n\<rparr> # ds))))"

text \<open>The result: the returned value, the entries copied to the buffer, and the handle with its new position.\<close>

definition kernelfs_default_read_dir ::
    "vfs_handle \<Rightarrow> u64 \<Rightarrow> kernelfs fscache \<Rightarrow> (int \<times> plenjos_dirent list \<times> vfs_handle) kres" where
  "kernelfs_default_read_dir h len s =
     bindR (kernelfs_get_node_from_handle h s) (\<lambda>node.
       if node = 0 then Inr (- EIO, [], h)
       else bindR (knode_at (knodes (backend s)) node) (\<lambda>n.
         if k_type n \<noteq> DT_DIR then Inr (- ENOTDIR, [], h)
         else if len mod SIZEOF_DIRENT \<noteq> 0 then Inr (- EINVAL, [], h)
         else
           let m = knodes (backend s); pos = instance_data h ! 0
           in bindR (skip_children (unat pos) (k_children n) m) (\<lambda>start.
                case start of
                  None \<Rightarrow> Inr (0, [], h)
                | Some cur \<Rightarrow>
                    bindR (list_children (unat len div 257) cur m) (\<lambda>ds.
                      Inr (257 * int (length ds), ds,
                           h\<lparr>instance_data := (instance_data h)[0 := pos + of_nat (length ds)]\<rparr>)))))"

section \<open>Well-formed trees\<close>

lemma strncmp_full:
  "NUL \<notin> set n \<Longrightarrow> NUL \<notin> set t \<Longrightarrow> length n < N \<Longrightarrow> strncmp (n @ [NUL]) (t @ [NUL]) N = Inr 0 \<longleftrightarrow> n = t"
proof (induction n arbitrary: t N)
  case Nil
  then obtain N' where N: "N = Suc N'" by (cases N) auto
  show ?case
  proof (cases t)
    case (Cons b t')
    then have "b \<noteq> NUL" using Nil.prems by auto
    then have "int (of_char NUL) - int (of_char b) \<noteq> 0" by (simp del: of_nat_of_char)
    then show ?thesis using Cons N by (simp del: of_nat_of_char)
  qed (simp add: N)
next
  case (Cons a n)
  then obtain N' where N: "N = Suc N'" by (cases N) auto
  have inj: "int (of_char c) - int (of_char d) = 0 \<longleftrightarrow> c = d" for c d :: char by simp
  show ?case
  proof (cases t)
    case Nil
    then show ?thesis using Cons.prems N inj [of a NUL] by (auto simp: NUL_def)
  next
    case (Cons b t')
    then show ?thesis using Cons.prems N Cons.IH [of t' N'] inj [of a b] by auto
  qed
qed

definition knode_ok :: "kernelfs_node \<Rightarrow> bool" where
  "knode_ok n \<longleftrightarrow> k_type n \<noteq> 0 \<and> NUL \<notin> set (k_name n) \<and> length (k_name n) \<le> NAME_MAX"

lemma same_name_eq: "knode_ok n \<Longrightarrow> NUL \<notin> set t \<Longrightarrow> same_name (k_name n) t \<longleftrightarrow> k_name n = t"
  using strncmp_full [of "k_name n" t "NAME_MAX + 1"] by (auto simp: same_name_def knode_ok_def)

text \<open>The list of nodes from an address on.\<close>

fun kchain :: "(u64 \<Rightarrow> kernelfs_node option) \<Rightarrow> u64 \<Rightarrow> u64 list \<Rightarrow> bool" where
  "kchain m a [] = (a = 0)"
| "kchain m a (x # xs) = (a = x \<and> x \<noteq> 0 \<and> (\<exists>n. m x = Some n \<and> kchain m (k_next n) xs))"

abbreviation kname :: "(u64 \<Rightarrow> kernelfs_node option) \<Rightarrow> u64 \<Rightarrow> string" where
  "kname m x \<equiv> k_name (the (m x))"

definition dir_ok :: "(u64 \<Rightarrow> kernelfs_node option) \<Rightarrow> u64 \<Rightarrow> kernelfs_node \<Rightarrow> u64 list \<Rightarrow> bool" where
  "dir_ok m a n xs \<longleftrightarrow>
     kchain m (k_children n) xs \<and> distinct (map (kname m) xs) \<and> (\<forall>x\<in>set xs. k_parent (the (m x)) = a)"

definition kfs_ok :: "kernelfs \<Rightarrow> bool" where
  "kfs_ok k \<longleftrightarrow>
     knodes k 0 = None \<and>
     (\<exists>n. knodes k (root_kernelfs_node k) = Some n \<and> k_type n = DT_DIR \<and> k_parent n = 0) \<and>
     (\<forall>a n. knodes k a = Some n \<longrightarrow> knode_ok n \<and> (\<exists>xs. dir_ok (knodes k) a n xs))"

lemma kchain_nodes: "kchain m a xs \<Longrightarrow> x \<in> set xs \<Longrightarrow> x \<noteq> 0 \<and> m x \<noteq> None"
  by (induction xs arbitrary: a) auto

lemma find_child_law:
  assumes "\<And>a n. m a = Some n \<Longrightarrow> knode_ok n" "NUL \<notin> set t"
  shows "kchain m a xs \<Longrightarrow>
    find_child t a m = Some (Inr (case find (\<lambda>x. kname m x = t) xs of None \<Rightarrow> 0 | Some x \<Rightarrow> x))"
proof (induction xs arbitrary: a)
  case Nil
  then show ?case by (subst find_child.simps) simp
next
  case (Cons x xs)
  then obtain n where n: "a = x" "x \<noteq> 0" "m x = Some n" "kchain m (k_next n) xs" by auto
  then show ?case using Cons.IH [of "k_next n"] same_name_eq [OF assms(1) [OF n(3)] assms(2)]
    by (subst find_child.simps) (auto simp: knode_at_def)
qed

text \<open>The tree as seen from the cache.\<close>

definition k_look :: "kernelfs \<Rightarrow> u64 \<Rightarrow> string \<Rightarrow> u64 option" where
  "k_look m k name =
     (case knodes m k of None \<Rightarrow> None
      | Some n \<Rightarrow> (case find_child name (k_children n) (knodes m) of
                     Some (Inr c) \<Rightarrow> if c = 0 then None else Some c
                   | _ \<Rightarrow> None))"

definition k_atts :: "kernelfs \<Rightarrow> u64 \<Rightarrow> node_attrs" where
  "k_atts m k =
     (case knodes m k of
        None \<Rightarrow> \<lparr>a_type = 0, a_name = [], a_uid = 0, a_gid = 0, a_mode = 0, a_ops = None, a_data = []\<rparr>
      | Some n \<Rightarrow> \<lparr>a_type = k_type n, a_name = k_name n, a_uid = k_uid n, a_gid = k_gid n, a_mode = k_mode n,
                  a_ops = Some (kernelfs_ops n), a_data = [k, 0, 0, 0]\<rparr>)"

definition k_up :: "kernelfs \<Rightarrow> u64 \<Rightarrow> u64 option" where
  "k_up m k = (case knodes m k of None \<Rightarrow> None | Some n \<Rightarrow> if k_parent n = 0 then None else Some (k_parent n))"

definition kview :: "(kernelfs, u64) dir_view" where
  "kview = \<lparr>look = k_look, atts = k_atts, up = k_up\<rparr>"

lemma kview_simps [simp]: "look kview = k_look" "atts kview = k_atts" "up kview = k_up"
  by (simp_all add: kview_def)

lemma kfs_okD:
  assumes "kfs_ok k" "knodes k a = Some n"
  shows "a \<noteq> 0" "knode_ok n" "\<exists>xs. dir_ok (knodes k) a n xs"
  using assms by (auto simp: kfs_ok_def)

lemma kfs_ok_null: "kfs_ok k \<Longrightarrow> knodes k 0 = None"
  and kfs_ok_root: "kfs_ok k \<Longrightarrow> \<exists>n. knodes k (root_kernelfs_node k) = Some n \<and> k_type n = DT_DIR \<and> k_parent n = 0"
  by (simp_all only: kfs_ok_def)

lemma k_look_iff:
  assumes ok: "kfs_ok k" and t: "NUL \<notin> set t" and n: "knodes k a = Some n" and d: "dir_ok (knodes k) a n xs"
  shows "find_child t (k_children n) (knodes k) = Some (Inr (case k_look k a t of None \<Rightarrow> 0 | Some x \<Rightarrow> x))"
    "k_look k a t = Some c \<longleftrightarrow> c \<in> set xs \<and> kname (knodes k) c = t"
proof -
  let ?m = "knodes k"
  have f: "find_child t (k_children n) ?m = Some (Inr (case find (\<lambda>x. kname ?m x = t) xs of None \<Rightarrow> 0 | Some x \<Rightarrow> x))"
    using find_child_law [of ?m t] kfs_okD(2) [OF ok] t d by (auto simp: dir_ok_def)
  have nz: "x \<noteq> 0" if "find (\<lambda>x. kname ?m x = t) xs = Some x" for x
  proof -
    have "x \<in> set xs" using that by (auto simp: find_Some_iff)
    then show ?thesis using d kchain_nodes [of ?m "k_children n" xs x] by (simp add: dir_ok_def)
  qed
  have l: "k_look k a t = find (\<lambda>x. kname ?m x = t) xs"
    using n f nz by (auto simp: k_look_def split: option.splits)
  show "find_child t (k_children n) ?m = Some (Inr (case k_look k a t of None \<Rightarrow> 0 | Some x \<Rightarrow> x))"
    unfolding l f ..
  have "distinct (map (kname ?m) xs)" using d by (simp add: dir_ok_def)
  then show "k_look k a t = Some c \<longleftrightarrow> c \<in> set xs \<and> kname ?m c = t" unfolding l
    by (auto simp: find_Some_iff in_set_conv_nth distinct_conv_nth)
qed

definition loaded :: "u64 \<Rightarrow> kernelfs_node \<Rightarrow> rw_lock \<Rightarrow> fscache_node" where
  "loaded k n l = (fscache_node_populate (k_type n) 0 (k_name n) (k_uid n) (k_gid n) (k_mode n) 0 (kernelfs_ops n)
     ((cleared_node DT_UNKNOWN)\<lparr>rwlock := l\<rparr>))\<lparr>internal_data := [k, 0, 0, 0]\<rparr>"

lemma load_found_node_law:
  assumes "fc_nodes s ch = Some ((cleared_node DT_UNKNOWN)\<lparr>rwlock := l\<rparr>)" "fc_heap s = a # h" "a \<noteq> 0"
    "knodes (backend s) k = Some n" "k \<noteq> 0"
  shows "load_found_node k (Some ch) s = Inr (0, s\<lparr>fc_nodes := (fc_nodes s)(ch \<mapsto> loaded k n l), fc_heap := h\<rparr>)"
  using assms
  by (simp add: load_found_node_def kmalloc_next_def knode_at_def upd_node_def node_at_def set_node_def loaded_def
      fscache_node_populate_def cleared_node_def)

lemma loaded_law:
  assumes "knodes m k = Some n" "knode_ok n"
  shows "attrs (loaded k n l) = k_atts m k \<and> rwlock (loaded k n l) = l \<and> first_child (loaded k n l) = None \<and>
    next_sibling (loaded k n l) = None"
  using assms by (simp add: loaded_def k_atts_def attrs_def fscache_node_populate_def cleared_node_def knode_ok_def)

lemma loaded_lock [simp]: "(loaded k n l)\<lparr>rwlock := l'\<rparr> = loaded k n l'" "rwlock (loaded k n l) = l"
  by (simp_all add: loaded_def fscache_node_populate_def cleared_node_def)

lemma kernelfs_ops_load [simp]: "op_load_node (kernelfs_ops n) = fn_kernelfs_load"
  by (simp add: kernelfs_ops_def)

interpretation kf: dir_fs kview call_load kfs_ok
proof unfold_locales
  fix m t k k' assume ok: "kfs_ok m" and t: "NUL \<notin> set t" and l: "look kview m k t = Some k'"
  then have l: "k_look m k t = Some k'" by (simp add: kview_def)
  then obtain n where n: "knodes m k = Some n" by (auto simp: k_look_def split: option.splits)
  obtain xs where xs: "dir_ok (knodes m) k n xs" using kfs_okD(3) [OF ok n] by blast
  have k': "k' \<in> set xs" "kname (knodes m) k' = t" using k_look_iff(2) [OF ok t n xs] l by auto
  then obtain n' where n': "knodes m k' = Some n'" using xs kchain_nodes [of "knodes m" _ xs k'] by (auto simp: dir_ok_def)
  have "k_parent n' = k" "k \<noteq> 0" "knode_ok n'" using xs k'(1) n' kfs_okD [OF ok n] kfs_okD(2) [OF ok n'] by (auto simp: dir_ok_def)
  then show "attrs_ok (atts kview m k') \<and> a_name (atts kview m k') = t \<and> up kview m k' = Some k"
    using n' k'(2) by (simp add: kview_def k_atts_def k_up_def attrs_ok_def knode_ok_def)
next
  fix s :: "kernelfs fscache" and cur cn k ops ch l t k' a h
  assume h: "kfs_ok (backend s)" "fc_nodes s cur = Some cn" "attrs cn = atts kview (backend s) k" "fsops cn = Some ops"
    "fc_nodes s ch = Some ((cleared_node DT_UNKNOWN)\<lparr>rwlock := l\<rparr>)" "cur \<noteq> ch" "NUL \<notin> set t"
    "look kview (backend s) k t = Some k'" "fc_heap s = a # h" "a \<noteq> 0"
  have "a_ops (attrs cn) = Some ops" using h(4) by simp
  then obtain n where n: "knodes (backend s) k = Some n" using h(3) by (auto simp: kview_def k_atts_def split: option.splits)
  then have cn: "internal_data cn = [k, 0, 0, 0]" "ops = kernelfs_ops n"
    using h(3,4) by (auto simp: kview_def k_atts_def simp flip: attrs_fields)
  obtain xs where xs: "dir_ok (knodes (backend s)) k n xs" using kfs_okD(3) [OF h(1) n] by blast
  have l: "k_look (backend s) k t = Some k'" using h(8) by (simp add: kview_def)
  note f = k_look_iff [OF h(1,7) n xs]
  have "k' \<in> set xs" using f(2) l by blast
  then obtain n' where n': "knodes (backend s) k' = Some n'" "k' \<noteq> 0"
    using xs kchain_nodes [of "knodes (backend s)" "k_children n" xs k'] by (auto simp: dir_ok_def)
  have ld: "load_found_node k' (Some ch) s = Inr (0, s\<lparr>fc_nodes := (fc_nodes s)(ch \<mapsto> loaded k' n' l), fc_heap := h\<rparr>)"
    by (rule load_found_node_law [OF h(5,9,10) n'])
  have "call_load (op_load_node ops) cur t ch s = load_found_node k' (Some ch) s"
    using h(2) n n'(2) cn f(1) l kfs_okD(1) [OF h(1) n]
    by (simp add: call_load_def kernelfs_load_def node_at_def knode_at_def returns_def)
  with ld loaded_law [OF n'(1) kfs_okD(2) [OF h(1) n'(1)], of l]
  show "\<exists>n'. call_load (op_load_node ops) cur t ch s = Inr (0, s\<lparr>fc_nodes := (fc_nodes s)(ch \<mapsto> n'), fc_heap := h\<rparr>) \<and>
        attrs n' = atts kview (backend s) k' \<and> rwlock n' = l \<and> first_child n' = None \<and> next_sibling n' = None"
    by (intro exI [of _ "loaded k' n' l"]) (simp add: kview_def)
next
  fix s :: "kernelfs fscache" and cur cn k ops ch l t
  assume h: "kfs_ok (backend s)" "fc_nodes s cur = Some cn" "attrs cn = atts kview (backend s) k" "fsops cn = Some ops"
    "fc_nodes s ch = Some ((cleared_node DT_UNKNOWN)\<lparr>rwlock := l\<rparr>)" "cur \<noteq> ch" "NUL \<notin> set t"
    "look kview (backend s) k t = None"
  have "a_ops (attrs cn) = Some ops" using h(4) by simp
  then obtain n where n: "knodes (backend s) k = Some n" using h(3) by (auto simp: kview_def k_atts_def split: option.splits)
  then have cn: "internal_data cn = [k, 0, 0, 0]" "ops = kernelfs_ops n"
    using h(3,4) by (auto simp: kview_def k_atts_def simp flip: attrs_fields)
  obtain xs where xs: "dir_ok (knodes (backend s)) k n xs" using kfs_okD(3) [OF h(1) n] by blast
  have "k_look (backend s) k t = None" using h(8) by (simp add: kview_def)
  with k_look_iff(1) [OF h(1,7) n xs] show "call_load (op_load_node ops) cur t ch s = Inr (- ENOENT, s)"
    using h(2) n cn
    by (simp add: call_load_def kernelfs_load_def node_at_def knode_at_def returns_def)
qed

section \<open>Insertion\<close>

lemma kchain_cong:
  "\<forall>x\<in>set xs. map_option k_next (m' x) = map_option k_next (m x) \<Longrightarrow> kchain m' a xs = kchain m a xs"
proof (induction xs arbitrary: a)
  case (Cons x xs)
  then show ?case by (cases "m x"; cases "m' x") auto
qed simp

lemma last_child_law: "kchain m a xs \<Longrightarrow> xs \<noteq> [] \<Longrightarrow> last_child a m = Some (Inr (last xs))"
proof (induction xs arbitrary: a)
  case (Cons x xs)
  then obtain n where n: "a = x" "m x = Some n" "kchain m (k_next n) xs" by auto
  show ?case
  proof (cases xs)
    case Nil
    then show ?thesis using n by (subst last_child.simps) (simp add: knode_at_def)
  next
    case (Cons y ys)
    then have "k_next n \<noteq> 0" using n(3) by auto
    then show ?thesis using n Cons.IH [OF n(3)] Cons by (subst last_child.simps) (simp add: knode_at_def)
  qed
qed simp

lemma kchain_snoc:
  assumes "kchain m a xs" "distinct xs" "xs \<noteq> []" "m (last xs) = Some l" "new \<notin> set xs" "new \<noteq> 0" "k_next n = 0"
  shows "kchain (m(last xs \<mapsto> l\<lparr>k_next := new\<rparr>, new \<mapsto> n)) a (xs @ [new])"
  using assms
proof (induction xs arbitrary: a)
  case (Cons x xs)
  show ?case
  proof (cases "xs = []")
    case True
    then show ?thesis using Cons.prems by auto
  next
    case False
    then have "x \<noteq> last xs" using Cons.prems(2) by auto
    then show ?thesis using Cons False by auto
  qed
qed simp

text \<open>A change that keeps every node but for its links.\<close>

definition relinked :: "kernelfs_node \<Rightarrow> kernelfs_node \<Rightarrow> bool" where
  "relinked n n' \<longleftrightarrow> n' = n\<lparr>k_children := k_children n', k_prev := k_prev n', k_next := k_next n'\<rparr>"

lemma relinkedI:
  "relinked n n" "relinked n (n\<lparr>k_children := c\<rparr>)" "relinked n (n\<lparr>k_next := c\<rparr>)"
  by (simp_all add: relinked_def)

lemma relinkedD:
  assumes "relinked n n'"
  shows "k_name n' = k_name n" "k_type n' = k_type n" "k_parent n' = k_parent n" "k_uid n' = k_uid n" "k_gid n' = k_gid n"
    "k_mode n' = k_mode n" "kernelfs_ops n' = kernelfs_ops n" "knode_ok n' = knode_ok n"
proof -
  obtain c p x where e: "n' = n\<lparr>k_children := c, k_prev := p, k_next := x\<rparr>" using assms unfolding relinked_def by blast
  show "k_name n' = k_name n" "k_type n' = k_type n" "k_parent n' = k_parent n" "k_uid n' = k_uid n" "k_gid n' = k_gid n"
    "k_mode n' = k_mode n" "kernelfs_ops n' = kernelfs_ops n" "knode_ok n' = knode_ok n"
    unfolding e by (simp_all add: kernelfs_ops_def knode_ok_def)
qed

text \<open>\<open>inserted k k' parent new xs\<close>: \<open>k'\<close> is \<open>k\<close> with the node \<open>new\<close> after the children \<open>xs\<close> of \<open>parent\<close>.\<close>

definition inserted :: "kernelfs \<Rightarrow> kernelfs \<Rightarrow> u64 \<Rightarrow> u64 \<Rightarrow> u64 list \<Rightarrow> kernelfs_node \<Rightarrow> bool" where
  "inserted k k' parent new xs nn \<longleftrightarrow>
     new \<noteq> 0 \<and> knodes k new = None \<and> knodes k' new = Some nn \<and> knode_ok nn \<and> k_children nn = 0 \<and> k_parent nn = parent \<and>
     root_kernelfs_node k' = root_kernelfs_node k \<and> dom (knodes k') = insert new (dom (knodes k)) \<and>
     (\<forall>a n. knodes k a = Some n \<longrightarrow> (\<exists>n'. knodes k' a = Some n' \<and> relinked n n' \<and>
        (a \<noteq> parent \<longrightarrow> k_children n' = k_children n) \<and> (a \<notin> set xs \<longrightarrow> k_next n' = k_next n))) \<and>
     (\<exists>pn'. knodes k' parent = Some pn' \<and> kchain (knodes k') (k_children pn') (xs @ [new]))"

lemma insertedD:
  assumes "inserted k k' parent new xs nn"
  shows "new \<noteq> 0" "knodes k new = None" "knodes k' new = Some nn" "knode_ok nn" "k_children nn = 0" "k_parent nn = parent"
    "root_kernelfs_node k' = root_kernelfs_node k" "dom (knodes k') = insert new (dom (knodes k))"
    "\<exists>pn'. knodes k' parent = Some pn' \<and> kchain (knodes k') (k_children pn') (xs @ [new])"
  using assms unfolding inserted_def by - (elim conjE, assumption)+

lemma inserted_node:
  assumes "inserted k k' parent new xs nn" "knodes k a = Some n"
  shows "\<exists>n'. knodes k' a = Some n' \<and> relinked n n' \<and> (a \<noteq> parent \<longrightarrow> k_children n' = k_children n) \<and>
    (a \<notin> set xs \<longrightarrow> k_next n' = k_next n) \<and> a \<noteq> new"
proof -
  have "a \<noteq> new" using assms(2) insertedD(2) [OF assms(1)] by auto
  moreover have "\<forall>a n. knodes k a = Some n \<longrightarrow> (\<exists>n'. knodes k' a = Some n' \<and> relinked n n' \<and>
      (a \<noteq> parent \<longrightarrow> k_children n' = k_children n) \<and> (a \<notin> set xs \<longrightarrow> k_next n' = k_next n))"
    using assms(1) unfolding inserted_def by (elim conjE)
  ultimately show ?thesis using assms(2) by blast
qed

lemma inserted_dirs:
  assumes ok: "kfs_ok k" and p: "knodes k parent = Some pn" and d: "dir_ok (knodes k) parent pn xs"
    and i: "inserted k k' parent new xs nn" and fresh: "k_look k parent (k_name nn) = None"
  shows "\<exists>pn'. knodes k' parent = Some pn' \<and> dir_ok (knodes k') parent pn' (xs @ [new])"
    "dir_ok (knodes k') new nn []"
    "\<lbrakk>knodes k a = Some n; a \<noteq> parent; dir_ok (knodes k) a n ys\<rbrakk> \<Longrightarrow>
      \<exists>n'. knodes k' a = Some n' \<and> dir_ok (knodes k') a n' ys"
proof -
  let ?m = "knodes k" and ?m' = "knodes k'"
  have old: "kname ?m' x = kname ?m x \<and> k_parent (the (?m' x)) = k_parent (the (?m x))" if x: "?m x \<noteq> None" for x
  proof -
    obtain n where n: "?m x = Some n" using x by blast
    obtain n' where "?m' x = Some n'" "relinked n n'" using inserted_node [OF i n] by blast
    then show ?thesis using n relinkedD(1,3) by simp
  qed
  have new: "?m' new = Some nn" "k_parent nn = parent" "k_children nn = 0" "?m new = None" "NUL \<notin> set (k_name nn)"
    using insertedD [OF i] by (simp_all add: knode_ok_def)
  have xs: "?m x \<noteq> None \<and> k_parent (the (?m x)) = parent" if "x \<in> set xs" for x
    using d that kchain_nodes [of ?m "k_children pn" xs x] by (simp add: dir_ok_def)
  have nm: "kname ?m x \<noteq> k_name nn" if "x \<in> set xs" for x
    using k_look_iff(2) [OF ok new(5) p d, of x] fresh that by auto
  have "map (kname ?m') (xs @ [new]) = map (kname ?m) xs @ [k_name nn]" using old xs new(1) by auto
  moreover have "k_name nn \<notin> kname ?m ` set xs" by (rule notI, erule imageE, drule nm, simp)
  then have "distinct (map (kname ?m) xs @ [k_name nn])" using d by (simp add: dir_ok_def)
  ultimately have "distinct (map (kname ?m') (xs @ [new]))" by (simp only:)
  moreover have "k_parent (the (?m' x)) = parent" if "x \<in> set (xs @ [new])" for x using that new old xs by auto
  moreover obtain pn' where "?m' parent = Some pn'" "kchain ?m' (k_children pn') (xs @ [new])"
    using insertedD(9) [OF i] by blast
  ultimately show "\<exists>pn'. ?m' parent = Some pn' \<and> dir_ok ?m' parent pn' (xs @ [new])" unfolding dir_ok_def by blast
  show "dir_ok ?m' new nn []" using new by (simp add: dir_ok_def)
  assume a: "?m a = Some n" "a \<noteq> parent" "dir_ok ?m a n ys"
  have ys: "?m y \<noteq> None \<and> k_parent (the (?m y)) = a" if "y \<in> set ys" for y
    using a(3) that kchain_nodes [of ?m "k_children n" ys y] by (simp add: dir_ok_def)
  obtain n' where n': "?m' a = Some n'" "k_children n' = k_children n" using inserted_node [OF i a(1)] a(2) by blast
  have "map_option k_next (?m' y) = map_option k_next (?m y)" if y: "y \<in> set ys" for y
  proof -
    obtain yn where yn: "?m y = Some yn" using ys [OF y] by auto
    have "y \<notin> set xs" using ys [OF y] xs [of y] a(2) by auto
    then obtain yn' where "?m' y = Some yn'" "k_next yn' = k_next yn" using inserted_node [OF i yn] by blast
    then show ?thesis using yn by simp
  qed
  then have "kchain ?m' (k_children n') ys"
    using kchain_cong [of ys ?m' ?m "k_children n"] a(3) n'(2) by (simp add: dir_ok_def)
  moreover have "map (kname ?m') ys = map (kname ?m) ys" "\<forall>y\<in>set ys. k_parent (the (?m' y)) = a" using old ys by auto
  moreover have "distinct (map (kname ?m) ys)" using a(3) by (simp add: dir_ok_def)
  ultimately show "\<exists>n'. ?m' a = Some n' \<and> dir_ok ?m' a n' ys" using n'(1) unfolding dir_ok_def by (metis (no_types))
qed

lemma inserted_ok:
  assumes ok: "kfs_ok k" and p: "knodes k parent = Some pn" and d: "dir_ok (knodes k) parent pn xs"
    and i: "inserted k k' parent new xs nn" and fresh: "k_look k parent (k_name nn) = None"
  shows "kfs_ok k'"
proof -
  note dirs = inserted_dirs [OF assms]
  have nul: "knodes k' 0 = None" using insertedD(1,8) [OF i] kfs_ok_null [OF ok] by (metis domIff insertE)
  obtain rn where rn: "knodes k (root_kernelfs_node k) = Some rn" "k_type rn = DT_DIR" "k_parent rn = 0"
    using kfs_ok_root [OF ok] by blast
  obtain rn' where rn': "knodes k' (root_kernelfs_node k) = Some rn'" "relinked rn rn'"
    using inserted_node [OF i rn(1)] by blast
  have "root_kernelfs_node k' = root_kernelfs_node k" by (rule insertedD(7) [OF i])
  then have "\<exists>n. knodes k' (root_kernelfs_node k') = Some n \<and> k_type n = DT_DIR \<and> k_parent n = 0"
    using rn rn'(1) relinkedD(2,3) [OF rn'(2)] by simp
  moreover have "knode_ok n \<and> (\<exists>xs. dir_ok (knodes k') a n xs)" if a: "knodes k' a = Some n" for a n
  proof (cases "a = new")
    case True
    then show ?thesis using a dirs(2) insertedD(3,4) [OF i] by auto
  next
    case False
    have "dom (knodes k') = insert new (dom (knodes k))" by (rule insertedD(8) [OF i])
    then obtain n0 where n0: "knodes k a = Some n0" using a False by blast
    obtain n' where "knodes k' a = Some n'" "relinked n0 n'" using inserted_node [OF i n0] by blast
    then have "relinked n0 n" using a by simp
    then have "knode_ok n" using kfs_okD(2) [OF ok n0] relinkedD(8) by blast
    moreover have "\<exists>xs. dir_ok (knodes k') a n xs"
    proof (cases "a = parent")
      case True
      then show ?thesis using a dirs(1) by (metis option.inject)
    next
      case False
      obtain ys where "dir_ok (knodes k) a n0 ys" using kfs_okD(3) [OF ok n0] by blast
      then show ?thesis using a dirs(3) [OF n0 False] by (metis option.inject)
    qed
    ultimately show ?thesis by blast
  qed
  ultimately show ?thesis unfolding kfs_ok_def using nul by (intro conjI allI impI) simp_all
qed

lemma option_eqI: "(\<And>c. x = Some c \<longleftrightarrow> y = Some c) \<Longrightarrow> x = y"
  by (cases x; cases y) auto

lemma inserted_look:
  assumes ok: "kfs_ok k" and p: "knodes k parent = Some pn" and d: "dir_ok (knodes k) parent pn xs"
    and i: "inserted k k' parent new xs nn" and fresh: "k_look k parent (k_name nn) = None" and t: "NUL \<notin> set t"
  shows "k_look k' a t = (if a = parent \<and> t = k_name nn then Some new else k_look k a t)"
proof -
  note dirs = inserted_dirs [OF assms(1-5)] and ok' = inserted_ok [OF assms(1-5)]
  note new = insertedD(3,2) [OF i]
  have old: "kname (knodes k') x = kname (knodes k) x" if x: "knodes k x \<noteq> None" for x
  proof -
    obtain n where n: "knodes k x = Some n" using x by blast
    obtain n' where "knodes k' x = Some n'" "relinked n n'" using inserted_node [OF i n] by blast
    then show ?thesis using n relinkedD(1) by simp
  qed
  have same: "c \<in> set ys \<and> kname (knodes k') c = t \<longleftrightarrow> c \<in> set ys \<and> kname (knodes k) c = t"
    if "dir_ok (knodes k) b n ys" for b n ys c
    using that old [of c] kchain_nodes [of "knodes k" "k_children n" ys c] by (auto simp: dir_ok_def)
  consider "a = new" | "a = parent" "a \<noteq> new" | "a \<noteq> parent" "a \<noteq> new" "knodes k a = None"
    | n where "a \<noteq> parent" "a \<noteq> new" "knodes k a = Some n" by (cases "knodes k a") auto
  then show ?thesis
  proof cases
    case 1
    then have "k_look k' a t \<noteq> Some c" for c using k_look_iff(2) [OF ok' t new(1) dirs(2), of c] by simp
    then show ?thesis using 1 new(2) p by (cases "k_look k' a t") (auto simp: k_look_def)
  next
    case 2
    obtain pn' where pn': "knodes k' parent = Some pn'" "dir_ok (knodes k') parent pn' (xs @ [new])" using dirs(1) by blast
    show ?thesis
    proof (rule option_eqI)
    fix c show "k_look k' a t = Some c \<longleftrightarrow> (if a = parent \<and> t = k_name nn then Some new else k_look k a t) = Some c"
      using k_look_iff(2) [OF ok' t pn', of c] k_look_iff(2) [OF ok t p d, of c] same [OF d, of c] fresh new 2 by auto
    qed
  next
    case 3
    then have "knodes k' a = None" using insertedD(8) [OF i] by blast
    then show ?thesis using 3 by (simp add: k_look_def)
  next
    case 4
    obtain ys where ys: "dir_ok (knodes k) a n ys" using kfs_okD(3) [OF ok 4(3)] by blast
    obtain n' where n': "knodes k' a = Some n'" "dir_ok (knodes k') a n' ys" using dirs(3) [OF 4(3,1) ys] by blast
    have "k_look k' a t = k_look k a t"
    proof (rule option_eqI)
    fix c show "k_look k' a t = Some c \<longleftrightarrow> k_look k a t = Some c"
      using k_look_iff(2) [OF ok' t n', of c] k_look_iff(2) [OF ok t 4(3) ys, of c] same [OF ys, of c] by auto
    qed
    then show ?thesis using 4 by simp
  qed
qed

lemma inserted_atts:
  assumes i: "inserted k k' parent new xs nn" and a: "knodes k a = Some n"
  shows "k_atts k' a = k_atts k a" "k_up k' a = k_up k a"
proof -
  obtain n' where "knodes k' a = Some n'" "relinked n n'" using inserted_node [OF i a] by blast
  then show "k_atts k' a = k_atts k a" "k_up k' a = k_up k a" using a relinkedD by (simp_all add: k_atts_def k_up_def)
qed

text \<open>The node that a successful creation adds.\<close>

definition fresh_knode :: "u64 \<Rightarrow> string \<Rightarrow> u8 \<Rightarrow> u32 \<Rightarrow> u32 \<Rightarrow> mode_t \<Rightarrow> node_funs \<Rightarrow> kernelfs_node" where
  "fresh_knode parent name type uid gid mode fs =
     \<lparr>k_name = name, k_type = type, k_uid = uid, k_gid = gid, k_mode = mode,
      k_open = nf_open fs, k_read = nf_read fs, k_write = nf_write fs, k_seek = nf_seek fs,
      k_func_args = nf_args fs, k_parent = parent, k_children = 0, k_prev = 0, k_next = 0\<rparr>"

lemma create_node_law:
  assumes ok: "kfs_ok (backend s)" and p: "knodes (backend s) parent = Some pn" "k_type pn = DT_DIR"
    and d: "dir_ok (knodes (backend s)) parent pn xs" and name: "name \<noteq> []" "NUL \<notin> set name" "length name \<le> NAME_MAX"
    and free: "k_look (backend s) parent name = None" and h: "fc_heap s = new # h" "new \<noteq> 0" "knodes (backend s) new = None"
    and type: "type \<noteq> 0"
  shows "\<exists>k' nn. kernelfs_create_node parent name type uid gid mode fs s =
      Inr (0, new, s\<lparr>fc_heap := h, backend := k'\<rparr>) \<and> inserted (backend s) k' parent new xs nn \<and>
      relinked (fresh_knode parent name type uid gid mode fs) nn"
proof -
  let ?m = "knodes (backend s)" and ?n = "fresh_knode parent name type uid gid mode fs"
  have nz: "parent \<noteq> 0" "parent \<noteq> new" using kfs_okD(1) [OF ok p(1)] p(1) h(3) by auto
  have f: "find_child name (k_children pn) ?m = Some (Inr 0)" using k_look_iff(1) [OF ok name(2) p(1) d] free by simp
  have n: "k_name ?n = name" "k_type ?n = type" "k_parent ?n = parent" "k_children ?n = 0" "k_next ?n = 0" "knode_ok ?n"
    using name type by (simp_all add: fresh_knode_def knode_ok_def)
  have ch: "kchain ?m (k_children pn) xs" "distinct (map (kname ?m) xs)" using d by (simp_all add: dir_ok_def)
  show ?thesis
  proof (cases "xs = []")
    case True
    let ?k' = "(backend s)\<lparr>knodes := ?m(new \<mapsto> ?n, parent \<mapsto> pn\<lparr>k_children := new\<rparr>)\<rparr>"
    have "kernelfs_create_node parent name type uid gid mode fs s = Inr (0, new, s\<lparr>fc_heap := h, backend := ?k'\<rparr>)"
      using True ch(1) nz p f h name
      by (simp add: kernelfs_create_node_def kmalloc_next_def knode_at_def returns_def set_knode_def fresh_knode_def)
    moreover have "inserted (backend s) ?k' parent new xs ?n"
      using True nz h n p(1) unfolding inserted_def by (auto simp: relinkedI)
    ultimately show ?thesis using relinkedI(1) by blast
  next
    case False
    let ?l = "last xs"
    have "?l \<in> set xs" using False by simp
    then obtain ln where l: "?m ?l = Some ln" "?l \<noteq> 0" "?l \<noteq> new" using kchain_nodes [OF ch(1)] h(3) by fastforce
    have ps: "new \<notin> set xs" "distinct xs" "?l \<in> set xs"
      using kchain_nodes [OF ch(1), of new] h(3) ch(2) False by (auto simp: distinct_map)
    let ?nn = "?n\<lparr>k_prev := ?l\<rparr>"
    let ?m' = "?m(?l \<mapsto> ln\<lparr>k_next := new\<rparr>, new \<mapsto> ?nn)"
    let ?k' = "(backend s)\<lparr>knodes := ?m'\<rparr>"
    have "kchain (?m(new \<mapsto> ?n)) (k_children pn) xs"
      using kchain_cong [of xs "?m(new \<mapsto> ?n)" ?m] ch(1) ps(1) by auto
    then have lc: "last_child (k_children pn) (?m(new \<mapsto> ?n)) = Some (Inr ?l)" using False by (rule last_child_law)
    have "k_children pn \<noteq> 0" using ch(1) False by (cases xs) auto
    then have "kernelfs_create_node parent name type uid gid mode fs s = Inr (0, new, s\<lparr>fc_heap := h, backend := ?k'\<rparr>)"
      using nz p f h name l lc
      by (simp add: kernelfs_create_node_def kmalloc_next_def knode_at_def returns_def set_knode_def fresh_knode_def
          fun_upd_twist)
    moreover have "kchain ?m' (k_children pn) (xs @ [new])"
      using kchain_snoc [OF ch(1) ps(2) False l(1) ps(1) h(2), of ?nn] n(5) by simp
    moreover have "inserted (backend s) ?k' parent new xs ?nn"
    proof -
      have pl: "knodes ?k' parent = Some (if parent = ?l then ln\<lparr>k_next := new\<rparr> else pn)" using nz p(1) by simp
      have "parent = ?l \<Longrightarrow> ln = pn" using l(1) p(1) by simp
      then have "\<exists>pn'. knodes ?k' parent = Some pn' \<and> kchain (knodes ?k') (k_children pn') (xs @ [new])"
        using pl \<open>kchain ?m' (k_children pn) (xs @ [new])\<close> by auto
      moreover have "\<forall>a n. ?m a = Some n \<longrightarrow> (\<exists>n'. knodes ?k' a = Some n' \<and> relinked n n' \<and>
          (a \<noteq> parent \<longrightarrow> k_children n' = k_children n) \<and> (a \<notin> set xs \<longrightarrow> k_next n' = k_next n))"
        using h(3) l ps(3) by (auto simp: relinkedI)
      ultimately show ?thesis unfolding inserted_def using h(2,3) n l by (auto simp: knode_ok_def)
    qed
    moreover have "relinked ?n ?nn" by (simp add: relinked_def)
    ultimately show ?thesis by blast
  qed
qed

section \<open>The cache after an insertion\<close>

lemma entry_attrs: "entry_ok kview s g l k n \<Longrightarrow> attrs_ok (k_atts (backend s) k)"
  unfolding entry_ok_def kview_simps by metis

lemma entry_knode:
  assumes "entry_ok kview s g l k n"
  obtains kn where "knodes (backend s) k = Some kn"
proof -
  have "a_ops (k_atts (backend s) k) \<noteq> None" using entry_attrs [OF assms] by (simp add: attrs_ok_def)
  then show thesis using that by (cases "knodes (backend s) k") (auto simp: k_atts_def)
qed

lemma inserted_entry:
  assumes c: "cache_ok kview kroot s g lk" and ok: "kfs_ok (backend s)" and p: "knodes (backend s) parent = Some pn"
    and d: "dir_ok (knodes (backend s)) parent pn xs" and i: "inserted (backend s) k' parent new xs nn"
    and fresh: "k_look (backend s) parent (k_name nn) = None" and e: "entry_ok kview s g l k n"
  shows "entry_ok kview (s\<lparr>fc_heap := h, backend := k'\<rparr>) g l k n"
proof -
  let ?s' = "s\<lparr>fc_heap := h, backend := k'\<rparr>"
  obtain kn where kn: "knodes (backend s) k = Some kn" using e by (rule entry_knode)
  note at = inserted_atts [OF i kn]
  obtain cs where cs: "sibs s (first_child n) cs"
    "\<forall>c\<in>set cs. \<exists>kc. g c = Some kc \<and> k_look (backend s) k (name_of s c) = Some kc"
    using e by (auto simp: entry_ok_def)
  have "\<exists>kc. g x = Some kc \<and> k_look k' k (name_of s x) = Some kc" if x: "x \<in> set cs" for x
  proof -
    obtain kc where kc: "g x = Some kc" "k_look (backend s) k (name_of s x) = Some kc" using cs(2) x by blast
    obtain m where m: "fc_nodes s x = Some m" "entry_ok kview s g (lk x) kc m" by (rule cache_okD [OF c kc(1)])
    then have "NUL \<notin> set (name_of s x)" by (simp add: entry_ok_def attrs_ok_def)
    from inserted_look [OF ok p d i fresh this, of k] show ?thesis using kc fresh by auto
  qed
  moreover have "sibs ?s' (first_child n) cs" using cs(1) sibs_cong [of cs ?s' s] by simp
  ultimately have "\<exists>cs. sibs ?s' (first_child n) cs \<and>
      (\<forall>c\<in>set cs. \<exists>kc. g c = Some kc \<and> look kview (backend ?s') k (name_of ?s' c) = Some kc)"
    by auto
  then show ?thesis using e at entry_attrs [OF e] by (cases "parent_node n") (simp_all add: entry_ok_def)
qed

lemma inserted_cache:
  assumes c: "cache_ok kview kroot s g lk" and ok: "kfs_ok (backend s)" and p: "knodes (backend s) parent = Some pn"
    and d: "dir_ok (knodes (backend s)) parent pn xs" and i: "inserted (backend s) k' parent new xs nn"
    and fresh: "k_look (backend s) parent (k_name nn) = None"
  shows "cache_ok kview kroot (s\<lparr>fc_heap := h, backend := k'\<rparr>) g lk"
proof -
  have "\<exists>n. fc_nodes s q = Some n \<and> entry_ok kview (s\<lparr>fc_heap := h, backend := k'\<rparr>) g (lk q) k n" if "g q = Some k" for q k
    by (rule cache_okD [OF c that]) (use inserted_entry [OF c ok p d i fresh] in blast)
  moreover have "\<exists>r. fscache_root_node s = Some r \<and> g r = Some kroot" using c by (simp add: cache_ok_def)
  ultimately show ?thesis by (simp add: cache_ok_def)
qed

section \<open>Listing\<close>

definition dirent_of :: "kernelfs_node \<Rightarrow> plenjos_dirent" where
  "dirent_of n = \<lparr>d_name = k_name n, d_type = k_type n\<rparr>"

lemma skip_children_law:
  "kchain m a xs \<Longrightarrow> skip_children i a m =
    Inr (if i \<le> length xs then Some (if i < length xs then xs ! i else 0) else None)"
proof (induction i arbitrary: a xs)
  case 0
  then show ?case by (cases xs) auto
next
  case (Suc i)
  then show ?case by (cases xs) (auto simp: knode_at_def)
qed

lemma kchain_drop:
  "kchain m a xs \<Longrightarrow> i \<le> length xs \<Longrightarrow> kchain m (if i < length xs then xs ! i else 0) (drop i xs)"
proof (induction i arbitrary: a xs)
  case 0
  then show ?case by (cases xs) auto
next
  case (Suc i)
  then obtain y ys where xs: "xs = y # ys" by (cases xs) auto
  then obtain n :: kernelfs_node where n: "kchain m (k_next n) ys" using Suc.prems(1) by auto
  then show ?case using Suc.IH [OF n] Suc.prems(2) xs by auto
qed

lemma list_children_law:
  "kchain m a xs \<Longrightarrow> \<forall>x\<in>set xs. knode_ok (the (m x)) \<Longrightarrow>
    list_children room a m = Inr (map (\<lambda>x. dirent_of (the (m x))) (take room xs))"
proof (induction room arbitrary: a xs)
  case (Suc room)
  then show ?case by (cases xs) (auto simp: knode_at_def dirent_of_def knode_ok_def)
qed simp

section \<open>Booting\<close>

text \<open>The zeroed globals, with the addresses that the allocator will return.\<close>

definition boot :: "u64 list \<Rightarrow> kernelfs fscache" where
  "boot h = \<lparr>fc_nodes = (\<lambda>_. None), fc_blocks = [], fscache_root_node = None, fc_heap = h,
     backend = \<lparr>knodes = (\<lambda>_. None), root_kernelfs_node = 0\<rparr>\<rparr>"

definition root_knode :: "u64 \<Rightarrow> kernelfs_node" where
  "root_knode c = \<lparr>k_name = [], k_type = DT_DIR, k_uid = 0, k_gid = 0, k_mode = S_DFLT, k_open = 0,
     k_read = fn_kernelfs_default_read_dir, k_write = 0, k_seek = 0, k_func_args = 0, k_parent = 0,
     k_children = c, k_prev = 0, k_next = 0\<rparr>"

definition boot_tree :: "u64 \<Rightarrow> u64 \<Rightarrow> kernelfs" where
  "boot_tree a b = \<lparr>knodes = [a \<mapsto> root_knode b, b \<mapsto> fresh_knode a ''testfs'' DT_DIR 0 0 S_DFLT no_funs],
     root_kernelfs_node = a\<rparr>"

definition booted :: "u64 \<Rightarrow> u64 \<Rightarrow> u64 \<Rightarrow> u64 list \<Rightarrow> kernelfs fscache" where
  "booted a b c h = \<lparr>fc_nodes = (clear_block c FSCACHE_INIT_NODES (\<lambda>_. None))
       (NPtr c 0 \<mapsto> loaded a (root_knode b) rw_lock_init),
     fc_blocks = [(c, FSCACHE_INIT_NODES)], fscache_root_node = Some (NPtr c 0), fc_heap = h, backend = boot_tree a b\<rparr>"

lemma kernelfs_init_law:
  assumes "a \<noteq> 0" "b \<noteq> 0" "a \<noteq> b"
  shows "kernelfs_init (boot (a # b # h)) = Inr ((boot h)\<lparr>backend := boot_tree a b\<rparr>)"
proof -
  have "find_child ''testfs'' 0 m = Some (Inr 0)" for m by (subst find_child.simps) simp
  then show ?thesis using assms
    by (simp add: kernelfs_init_def boot_def kmalloc_next_def kernelfs_create_node_def knode_at_def returns_def set_knode_def
        boot_tree_def root_knode_def fresh_knode_def NAME_MAX_def fun_upd_twist)
qed

lemma boot_tree_ok:
  assumes "a \<noteq> 0" "b \<noteq> 0" "a \<noteq> b"
  shows "kfs_ok (boot_tree a b)"
proof -
  let ?m = "knodes (boot_tree a b)"
  have m: "?m a = Some (root_knode b)" "?m b = Some (fresh_knode a ''testfs'' DT_DIR 0 0 S_DFLT no_funs)"
    using assms by (simp_all add: boot_tree_def)
  have ok: "knode_ok (root_knode b)" "knode_ok (fresh_knode a ''testfs'' DT_DIR 0 0 S_DFLT no_funs)"
    by (simp_all add: knode_ok_def root_knode_def fresh_knode_def DT_DIR_def NAME_MAX_def NUL_def)
  have "dir_ok ?m a (root_knode b) [b]" "dir_ok ?m b (fresh_knode a ''testfs'' DT_DIR 0 0 S_DFLT no_funs) []"
    using assms m by (simp_all add: dir_ok_def root_knode_def fresh_knode_def)
  then have "knode_ok n \<and> (\<exists>xs. dir_ok ?m x n xs)" if "?m x = Some n" for x n
    using that ok by (auto simp: boot_tree_def split: if_splits)
  then show ?thesis using assms m(1)
    by (auto simp: kfs_ok_def boot_tree_def root_knode_def)
qed

text \<open>The addresses that the allocator will return are free in both stores.\<close>

definition kheap_fresh :: "kernelfs fscache \<Rightarrow> bool" where
  "kheap_fresh s \<longleftrightarrow> heap_fresh s \<and> (\<forall>a\<in>set (fc_heap s). knodes (backend s) a = None)"

lemma fscache_init_law:
  assumes "a \<noteq> 0" "b \<noteq> 0" "a \<noteq> b" "c \<noteq> 0" "d \<noteq> 0"
  shows "fscache_init ((boot (c # d # h))\<lparr>backend := boot_tree a b\<rparr>) = Inr (0, booted a b c h)"
proof -
  have pos: "0 < FSCACHE_INIT_NODES" by (simp add: FSCACHE_INIT_NODES_def)
  then have u: "[0..<FSCACHE_INIT_NODES] = 0 # [1..<FSCACHE_INIT_NODES]" using upt_conv_Cons [OF pos] by simp
  let ?s2 = "\<lparr>fc_nodes = (clear_block c FSCACHE_INIT_NODES (\<lambda>_. None))
        (NPtr c 0 \<mapsto> (cleared_node DT_UNKNOWN)\<lparr>rwlock := one_reader\<rparr>),
      fc_blocks = [(c, FSCACHE_INIT_NODES)], fscache_root_node = Some (NPtr c 0), fc_heap = d # h, backend = boot_tree a b\<rparr>"
  have ld: "load_found_node a (Some (NPtr c 0)) ?s2 =
      Inr (0, ?s2\<lparr>fc_nodes := (fc_nodes ?s2)(NPtr c 0 \<mapsto> loaded a (root_knode b) one_reader), fc_heap := h\<rparr>)"
    using load_found_node_law [of ?s2 "NPtr c 0" one_reader d h a "root_knode b"] assms by (simp add: boot_tree_def)
  have "fscache_allocate_node (snd (fscache_create_block FSCACHE_INIT_NODES ((boot (c # d # h))\<lparr>backend := boot_tree a b\<rparr>))) =
      Inr (Some (NPtr c 0), ?s2\<lparr>fscache_root_node := None\<rparr>)"
    using assms(4) pos
    by (simp add: fscache_create_block_def kmalloc_next_def boot_def fscache_allocate_node_def
        find_next_available_node_in_block_def u clear_block_def cleared_node_def lock_found_def
        fscache_wait_for_node_readable_def lock_node_def node_at_def set_node_def)
  moreover have "root_kernelfs_node (boot_tree a b) = a" by (simp add: boot_tree_def)
  ultimately show ?thesis using ld
    by (simp add: fscache_init_def case_prod_unfold kernelfs_load_def fscache_release_node_readable_def
        lock_node_def node_at_def set_node_def booted_def)
qed

lemma booted_ok:
  assumes "a \<noteq> 0" "b \<noteq> 0" "a \<noteq> b" "c \<noteq> 0" "distinct (a # b # c # h)" "0 \<notin> set h"
  shows "kfs_ok (backend (booted a b c h))" "cache_ok kview a (booted a b c h) [NPtr c 0 \<mapsto> a] idle"
    "kheap_fresh (booted a b c h)" "k_look (backend (booted a b c h)) a ''testfs'' = Some b"
proof -
  show ok: "kfs_ok (backend (booted a b c h))" using boot_tree_ok assms by (simp add: booted_def)
  have m: "knodes (boot_tree a b) a = Some (root_knode b)" using assms by (simp add: boot_tree_def)
  have kr: "knode_ok (root_knode b)" by (simp add: knode_ok_def root_knode_def DT_DIR_def)
  have "attrs_ok (k_atts (boot_tree a b) a)" using m kr by (simp add: k_atts_def attrs_ok_def knode_ok_def)
  moreover have "sibs (booted a b c h) None []" by simp
  ultimately have "entry_ok kview (booted a b c h) [NPtr c 0 \<mapsto> a] rw_lock_init a (loaded a (root_knode b) rw_lock_init)"
    using loaded_law [OF m kr, of rw_lock_init] m
    by (auto simp: entry_ok_def booted_def k_up_def root_knode_def loaded_def fscache_node_populate_def cleared_node_def
        intro!: exI [of _ "[]"])
  then show "cache_ok kview a (booted a b c h) [NPtr c 0 \<mapsto> a] idle"
    by (auto simp: cache_ok_def booted_def)
  show "kheap_fresh (booted a b c h)" using assms
    by (auto simp: kheap_fresh_def heap_fresh_def booted_def clear_block_def boot_tree_def)
  have d: "dir_ok (knodes (backend (booted a b c h))) a (root_knode b) [b]"
    using assms by (simp add: booted_def boot_tree_def dir_ok_def root_knode_def fresh_knode_def)
  have m': "knodes (backend (booted a b c h)) a = Some (root_knode b)" using m by (simp add: booted_def)
  show "k_look (backend (booted a b c h)) a ''testfs'' = Some b"
    using k_look_iff(2) [OF ok _ m' d, of "''testfs''" b] by (simp add: NUL_def booted_def boot_tree_def fresh_knode_def)
qed

section \<open>What creation does\<close>

lemma create_node_effect:
  assumes "kfs_ok (backend s)" "knodes (backend s) parent = Some pn" "k_type pn = DT_DIR" "kheap_fresh s"
    "fc_heap s = new # h" "name \<noteq> []" "NUL \<notin> set name" "length name \<le> NAME_MAX" "type \<noteq> 0"
    "k_look (backend s) parent name = None" and s': "s' = s\<lparr>fc_heap := h, backend := k'\<rparr>"
    and k': "kernelfs_create_node parent name type uid gid mode fs s = Inr (0, new, s')"
      "inserted (backend s) k' parent new xs nn" "relinked (fresh_knode parent name type uid gid mode fs) nn"
    and d: "dir_ok (knodes (backend s)) parent pn xs"
  shows "kfs_ok k'" "kheap_fresh s'"
    "NUL \<notin> set t \<Longrightarrow> k_look k' a t = (if a = parent \<and> t = name then Some new else k_look (backend s) a t)"
    "cache_ok kview kroot s g lk \<Longrightarrow> cache_ok kview kroot s' g lk"
    "k_atts k' new = \<lparr>a_type = type, a_name = name, a_uid = uid, a_gid = gid, a_mode = mode,
       a_ops = Some (kernelfs_ops (fresh_knode parent name type uid gid mode fs)), a_data = [new, 0, 0, 0]\<rparr>"
proof -
  have fr: "heap_fresh s" "\<forall>a\<in>set (fc_heap s). knodes (backend s) a = None" using assms(4) by (simp_all add: kheap_fresh_def)
  have nd: "distinct (new # h)" using fr assms(5) by (auto simp: heap_fresh_def)
  have nn: "k_name nn = name" using relinkedD(1) [OF k'(3)] by (simp add: fresh_knode_def)
  have i: "k_look (backend s) parent (k_name nn) = None" using assms(10) nn by simp
  have "heap_fresh s'" unfolding s' by (rule heap_fresh_sub [OF fr(1)]) (auto simp: assms(5) intro: exI [of _ 1])
  moreover have "knodes k' x = None" if "x \<in> set h" for x
    using that fr(2) assms(5) nd insertedD(8) [OF k'(2)] by (metis domIff distinct.simps(2) insertE list.set_intros(2))
  ultimately show "kheap_fresh s'" by (simp add: kheap_fresh_def s')
  show "kfs_ok k'" by (rule inserted_ok [OF assms(1,2) d k'(2) i])
  show "NUL \<notin> set t \<Longrightarrow> k_look k' a t = (if a = parent \<and> t = name then Some new else k_look (backend s) a t)"
    using inserted_look [OF assms(1,2) d k'(2) i] nn by simp
  show "cache_ok kview kroot s g lk \<Longrightarrow> cache_ok kview kroot s' g lk"
    using inserted_cache [OF _ assms(1,2) d k'(2) i] by (simp add: s')
  show "k_atts k' new = \<lparr>a_type = type, a_name = name, a_uid = uid, a_gid = gid, a_mode = mode,
       a_ops = Some (kernelfs_ops (fresh_knode parent name type uid gid mode fs)), a_data = [new, 0, 0, 0]\<rparr>"
    using relinkedD [OF k'(3)] insertedD(3) [OF k'(2)] by (simp add: k_atts_def fresh_knode_def)
qed

lemma create_node_ex:
  assumes "kfs_ok (backend s)" "knodes (backend s) parent = Some pn" "k_type pn = DT_DIR" "kheap_fresh s"
    "fc_heap s = new # h" "name \<noteq> []" "NUL \<notin> set name" "length name \<le> NAME_MAX" "type \<noteq> 0"
    "k_look (backend s) parent name = None"
  obtains k' nn xs where "dir_ok (knodes (backend s)) parent pn xs"
    "kernelfs_create_node parent name type uid gid mode fs s = Inr (0, new, s\<lparr>fc_heap := h, backend := k'\<rparr>)"
    "inserted (backend s) k' parent new xs nn" "relinked (fresh_knode parent name type uid gid mode fs) nn"
proof -
  have new: "new \<noteq> 0" "knodes (backend s) new = None" using assms(4,5) by (auto simp: heap_fresh_def kheap_fresh_def)
  obtain xs where d: "dir_ok (knodes (backend s)) parent pn xs" using kfs_okD(3) [OF assms(1,2)] by blast
  show thesis using create_node_law [OF assms(1-3) d assms(6-8,10,5) new assms(9)] that [OF d] by blast
qed

text \<open>C23. Creating a node under an existing directory, with a name that the directory does not have, succeeds:
  the tree stays well formed, the new name resolves to the new node, every other lookup in every directory is
  unchanged, and a cache that agreed with the tree still agrees with it.\<close>

theorem create_node_inserts:
  assumes "kfs_ok (backend s)" "knodes (backend s) parent = Some pn" "k_type pn = DT_DIR" "kheap_fresh s"
    "fc_heap s \<noteq> []" "name \<noteq> []" "NUL \<notin> set name" "length name \<le> NAME_MAX" "type \<noteq> 0"
    "k_look (backend s) parent name = None"
  shows "\<exists>s'. kernelfs_create_node parent name type uid gid mode fs s = Inr (0, hd (fc_heap s), s') \<and>
    kfs_ok (backend s') \<and> kheap_fresh s' \<and> fc_heap s' = tl (fc_heap s) \<and>
    (\<forall>a t. NUL \<notin> set t \<longrightarrow> k_look (backend s') a t =
       (if a = parent \<and> t = name then Some (hd (fc_heap s)) else k_look (backend s) a t)) \<and>
    (\<forall>kroot g lk. cache_ok kview kroot s g lk \<longrightarrow> cache_ok kview kroot s' g lk)"
proof -
  obtain new h where h: "fc_heap s = new # h" using assms(5) by (cases "fc_heap s") auto
  obtain k' nn xs where k': "dir_ok (knodes (backend s)) parent pn xs"
    "kernelfs_create_node parent name type uid gid mode fs s = Inr (0, new, s\<lparr>fc_heap := h, backend := k'\<rparr>)"
    "inserted (backend s) k' parent new xs nn" "relinked (fresh_knode parent name type uid gid mode fs) nn"
    by (rule create_node_ex [OF assms(1-4) h assms(6-10)])
  show ?thesis
    using create_node_effect [OF assms(1-4) h assms(6-10) refl k'(2-4,1)] k'(2)
    by (intro exI [of _ "s\<lparr>fc_heap := h, backend := k'\<rparr>"] conjI) (simp_all add: h)
qed

theorem create_node_inserts_witness:
  "\<exists>s'. kernelfs_create_node 0x1000 ''dev'' DT_DIR 0 0 S_DFLT no_funs (booted 0x1000 0x2000 0x3000 [0x5000, 0x6000]) =
      Inr (0, 0x5000, s') \<and> k_look (backend s') 0x1000 ''dev'' = Some 0x5000 \<and>
    k_look (backend s') 0x1000 ''testfs'' = Some 0x2000"
proof -
  let ?s = "booted 0x1000 0x2000 0x3000 [0x5000, 0x6000]"
  have b: "kfs_ok (backend ?s)" "kheap_fresh ?s" "k_look (backend ?s) 0x1000 ''testfs'' = Some 0x2000"
    using booted_ok [of "0x1000" "0x2000" "0x3000" "[0x5000, 0x6000]"] by simp_all
  have r: "knodes (backend ?s) 0x1000 = Some (root_knode 0x2000)" "k_type (root_knode 0x2000) = DT_DIR"
    by (simp_all add: booted_def boot_tree_def root_knode_def)
  have "dir_ok (knodes (backend ?s)) 0x1000 (root_knode 0x2000) [0x2000]"
    by (simp add: booted_def boot_tree_def dir_ok_def root_knode_def fresh_knode_def)
  from k_look_iff(2) [OF b(1) _ r(1) this, of "''dev''"] have "k_look (backend ?s) 0x1000 ''dev'' = None"
    by (cases "k_look (backend ?s) 0x1000 ''dev''") (auto simp: NUL_def booted_def boot_tree_def fresh_knode_def)
  from create_node_inserts [OF b(1) r b(2) _ _ _ _ _ this, of DT_DIR 0 0 S_DFLT no_funs] b(3) show ?thesis
    by (auto simp: booted_def NUL_def NAME_MAX_def DT_DIR_def)
qed

text \<open>C24. Reading a directory returns the entries of its children in order, starting at the position of the handle, as
  many as fit in the buffer, and moves the position past them: successive reads return every child exactly
  once, and then 0.\<close>

theorem read_dir_lists:
  assumes "kfs_ok (backend s)" "backing_node h = Some p" "fc_nodes s p = Some fn" "internal_data fn ! 0 = a"
    "knodes (backend s) a = Some n" "k_type n = DT_DIR" "dir_ok (knodes (backend s)) a n xs" "len mod SIZEOF_DIRENT = 0"
    "es = map (\<lambda>x. dirent_of (the (knodes (backend s) x))) (take (unat len div 257) (drop (unat (instance_data h ! 0)) xs))"
  shows "kernelfs_default_read_dir h len s =
    Inr (257 * int (length es), es,
         if unat (instance_data h ! 0) \<le> length xs
         then h\<lparr>instance_data := (instance_data h)[0 := instance_data h ! 0 + of_nat (length es)]\<rparr> else h)"
proof -
  let ?m = "knodes (backend s)" and ?i = "unat (instance_data h ! 0)"
  have c: "kchain ?m (k_children n) xs" using assms(7) by (simp add: dir_ok_def)
  have "knode_ok (the (?m x))" if "x \<in> set xs" for x
    using kchain_nodes [OF c that] kfs_okD(2) [OF assms(1)] by auto
  then have "\<forall>x\<in>set (drop ?i xs). knode_ok (the (?m x))" by (meson in_set_dropD)
  note l = list_children_law [OF kchain_drop [OF c] this]
  have z: "a \<noteq> 0" using kfs_okD(1) [OF assms(1,5)] .
  show ?thesis
    using assms(2-6,8,9) z skip_children_law [OF c, of ?i] l [of "unat len div 257"]
    by (cases "?i \<le> length xs")
      (auto simp: kernelfs_default_read_dir_def kernelfs_get_node_from_handle_def node_at_def knode_at_def Let_def)
qed

definition root_handle :: "u64 \<Rightarrow> vfs_handle" where
  "root_handle pos = \<lparr>h_access = 4, backing_node = Some (NPtr 0x3000 0), instance_data = [pos, 0, 0, 0]\<rparr>"

theorem read_dir_lists_witness:
  "kernelfs_default_read_dir (root_handle 0) 514 (booted 0x1000 0x2000 0x3000 []) =
     Inr (257, [\<lparr>d_name = ''testfs'', d_type = DT_DIR\<rparr>], root_handle 1)"
proof -
  let ?s = "booted 0x1000 0x2000 0x3000 []"
  have ok: "kfs_ok (backend ?s)" using booted_ok(1) [of "0x1000" "0x2000" "0x3000" "[]"] by simp
  have d: "dir_ok (knodes (backend ?s)) 0x1000 (root_knode 0x2000) [0x2000]"
    by (simp add: booted_def boot_tree_def dir_ok_def root_knode_def fresh_knode_def)
  from read_dir_lists [OF ok _ _ _ _ _ d _ refl, of "root_handle 0" "NPtr 0x3000 0" "loaded 0x1000 (root_knode 0x2000) rw_lock_init" 514]
  show ?thesis
    by (simp add: booted_def boot_tree_def root_handle_def loaded_def root_knode_def SIZEOF_DIRENT_def dirent_of_def fresh_knode_def)
qed

end
