(* ===== verification/Vfs.thy ===== *)
theory Vfs
  imports Kernelfs
begin

unbundle bit_operations_syntax

text \<open>
  The virtual file system of \<^verbatim>\<open>src/vfs/vfs.c\<close>: handles, opening with its permission checks, creation of files and
  directories, and the helpers of \<^verbatim>\<open>kernelfs.c\<close> that go through it. The calls through the function pointers of an
  operations block are parameters. Handles are kept by address; a freed handle leaves the store.
\<close>

definition SYSCALL_OPEN_FLAG_EX :: u8 where "SYSCALL_OPEN_FLAG_EX = 1"
definition SYSCALL_OPEN_FLAG_WRITE :: u8 where "SYSCALL_OPEN_FLAG_WRITE = 2"
definition SYSCALL_OPEN_FLAG_READ :: u8 where "SYSCALL_OPEN_FLAG_READ = 4"
definition SYSCALL_OPEN_FLAG_CREATE :: u8 where "SYSCALL_OPEN_FLAG_CREATE = 8"
definition SYSCALL_OPEN_FLAG_EXCL :: u8 where "SYSCALL_OPEN_FLAG_EXCL = 0x10"
definition SYSCALL_OPEN_FLAG_DIRECTORY :: u8 where "SYSCALL_OPEN_FLAG_DIRECTORY = 0x20"

lemmas open_flag_defs = SYSCALL_OPEN_FLAG_EX_def SYSCALL_OPEN_FLAG_WRITE_def SYSCALL_OPEN_FLAG_READ_def
  SYSCALL_OPEN_FLAG_CREATE_def SYSCALL_OPEN_FLAG_EXCL_def SYSCALL_OPEN_FLAG_DIRECTORY_def

record 'm vfs =
  cache :: "'m fscache"
  handles :: "u64 \<Rightarrow> vfs_handle option"

definition handle_at :: "'m vfs \<Rightarrow> u64 \<Rightarrow> vfs_handle kres" where
  "handle_at v f = (case handles v f of None \<Rightarrow> Inl BadAccess | Some h \<Rightarrow> Inr h)"

text \<open>The operations block behind a handle, when it has one.\<close>

definition handle_ops :: "'m vfs \<Rightarrow> vfs_handle \<Rightarrow> vfs_ops_block option kres" where
  "handle_ops v h = (case backing_node h of None \<Rightarrow> Inr None | Some p \<Rightarrow> bindR (node_at (cache v) p) (\<lambda>n. Inr (fsops n)))"

section \<open>Initialisation\<close>

definition vfs_init :: "kernelfs fscache \<Rightarrow> kernelfs fscache kres" where
  "vfs_init s = bindR (kernelfs_init s) (\<lambda>s1. bindR (fscache_init s1) (\<lambda>(res, s2). Inr s2))"

section \<open>Handles\<close>

definition vfs_close :: "(u64 \<Rightarrow> u64 \<Rightarrow> 'm vfs \<Rightarrow> (int \<times> 'm vfs) kres) \<Rightarrow> u64 \<Rightarrow> 'm vfs \<Rightarrow> (int \<times> 'm vfs) kres" where
  "vfs_close call f v =
     (if f = 0 then Inr (- EINVAL, v)
      else bindR (handle_at v f) (\<lambda>h. bindR (handle_ops v h) (\<lambda>ops.
        case ops of
          None \<Rightarrow> Inr (0, v\<lparr>handles := (handles v)(f := None)\<rparr>)
        | Some b \<Rightarrow> if op_close b = 0 then Inr (0, v\<lparr>handles := (handles v)(f := None)\<rparr>)
                     else call (op_close b) f v)))"

definition vfs_read ::
    "(u64 \<Rightarrow> u64 \<Rightarrow> u64 \<Rightarrow> 'm vfs \<Rightarrow> (int \<times> 'r \<times> 'm vfs) kres) \<Rightarrow> 'r \<Rightarrow> u64 \<Rightarrow> u64 \<Rightarrow> 'm vfs \<Rightarrow> (int \<times> 'r \<times> 'm vfs) kres" where
  "vfs_read call buf f len v =
     (if f = 0 then Inr (- EINVAL, buf, v)
      else bindR (handle_at v f) (\<lambda>h.
        if h_access h AND ACCESS_READ = 0 then Inr (- EACCES, buf, v)
        else bindR (handle_ops v h) (\<lambda>ops.
          case ops of
            None \<Rightarrow> Inr (- EIO, buf, v)
          | Some b \<Rightarrow> if op_read b = 0 then Inr (- EIO, buf, v) else call (op_read b) f len v)))"

definition vfs_write ::
    "(u64 \<Rightarrow> u64 \<Rightarrow> 'r \<Rightarrow> 'm vfs \<Rightarrow> (int \<times> 'm vfs) kres) \<Rightarrow> u64 \<Rightarrow> 'r \<Rightarrow> 'm vfs \<Rightarrow> (int \<times> 'm vfs) kres" where
  "vfs_write call f buf v =
     (if f = 0 then Inr (- EINVAL, v)
      else bindR (handle_at v f) (\<lambda>h.
        if h_access h AND ACCESS_WRITE = 0 then Inr (- EACCES, v)
        else bindR (handle_ops v h) (\<lambda>ops.
          case ops of
            None \<Rightarrow> Inr (- EIO, v)
          | Some b \<Rightarrow> if op_write b = 0 then Inr (- EIO, v) else call (op_write b) f buf v)))"

definition vfs_seek ::
    "(u64 \<Rightarrow> u64 \<Rightarrow> int \<Rightarrow> u32 \<Rightarrow> 'm vfs \<Rightarrow> (int \<times> 'm vfs) kres) \<Rightarrow> u64 \<Rightarrow> int \<Rightarrow> u32 \<Rightarrow> 'm vfs \<Rightarrow> (int \<times> 'm vfs) kres" where
  "vfs_seek call f offset whence v =
     (if f = 0 then Inr (- EINVAL, v)
      else bindR (handle_at v f) (\<lambda>h. bindR (handle_ops v h) (\<lambda>ops.
        case ops of
          None \<Rightarrow> Inr (- EIO, v)
        | Some b \<Rightarrow> if op_seek b = 0 then Inr (- EIO, v) else call (op_seek b) f offset whence v)))"

definition INT32_MAX :: "32 word" where "INT32_MAX = 0x7FFFFFFF"

text \<open>A reference is refused when the count is negative or at its maximum; the handle is then freed again.\<close>

definition ref_full :: "fscache_node \<Rightarrow> bool" where
  "ref_full n \<longleftrightarrow> sint (ref_count n) < 0 \<or> ref_count n = INT32_MAX"

definition vfs_helper_create_handle :: "nptr option \<Rightarrow> mode_t \<Rightarrow> 'm vfs \<Rightarrow> (int \<times> u64 \<times> 'm vfs) kres" where
  "vfs_helper_create_handle node access v =
     (case node of
        None \<Rightarrow> Inr (- EINVAL, 0, v)
      | Some p \<Rightarrow>
          (case kmalloc_next (cache v) of (handle, c1) \<Rightarrow>
             let v1 = v\<lparr>cache := c1\<rparr>
             in if handle = 0 then Inr (- ENOMEM, 0, v1)
                else bindR (node_at c1 p) (\<lambda>n.
                  if ref_full n then Inr (- EIO, 0, v1)
                  else Inr (0, handle,
                         v1\<lparr>cache := set_node p (n\<lparr>ref_count := ref_count n + 1\<rparr>) c1,
                            handles := (handles v1)(handle \<mapsto>
                              \<lparr>h_access = access, backing_node = Some p, instance_data = [0, 0, 0, 0]\<rparr>)\<rparr>))))"

section \<open>Creation\<close>

type_synonym 's create_fun =
  "u64 \<Rightarrow> nptr \<Rightarrow> string \<Rightarrow> u8 \<Rightarrow> u32 \<Rightarrow> u32 \<Rightarrow> mode_t \<Rightarrow> nptr \<Rightarrow> 's \<Rightarrow> (int \<times> 's) kres"

text \<open>The mode that is passed on is the unmasked one.\<close>

definition vfs_creatat ::
    "'m fscache create_fun \<Rightarrow> nptr \<Rightarrow> string \<Rightarrow> u32 \<Rightarrow> u32 \<Rightarrow> mode_t \<Rightarrow> bool \<Rightarrow> 'm fscache \<Rightarrow>
     (int \<times> nptr option \<times> 'm fscache) kres" where
  "vfs_creatat create parent name uid gid mode want_out s =
     bindR (node_at s parent) (\<lambda>pn.
       case fsops pn of
         None \<Rightarrow> Inr (- EIO, None, s)
       | Some ops \<Rightarrow>
           if op_create_child ops = 0 then Inr (- EIO, None, s)
           else bindR (fscache_allocate_node s) (\<lambda>(new, s1).
             case new of
               None \<Rightarrow> Inr (- ENOMEM, None, s1)
             | Some node \<Rightarrow>
                 bindR (create (op_create_child ops) parent name DT_REG uid gid mode node s1) (\<lambda>(res, s2).
                   if res < 0 then bindR (fscache_release_node_readable node s2) (\<lambda>s3. Inr (res, None, s3))
                   else if want_out then Inr (res, Some node, s2)
                   else bindR (fscache_release_node_readable node s2) (\<lambda>s3. Inr (res, None, s3)))))"

text \<open>What follows the last slash of a path.\<close>

definition last_component :: "string \<Rightarrow> string" where
  "last_component path = rev (takeWhile (\<lambda>c. c \<noteq> slash) (rev path))"

definition flag_access :: "u8 \<Rightarrow> mode_t" where
  "flag_access flags =
     add_if (flags AND SYSCALL_OPEN_FLAG_EX \<noteq> 0) ACCESS_EXECUTE
       (add_if (flags AND SYSCALL_OPEN_FLAG_WRITE \<noteq> 0) ACCESS_WRITE
         (add_if (flags AND SYSCALL_OPEN_FLAG_READ \<noteq> 0) ACCESS_READ 0))"

definition may_create :: "fscache_node \<Rightarrow> u32 \<Rightarrow> bool" where
  "may_create n uid \<longleftrightarrow>
     (let a = access_check (f_mode n) (f_uid n) (f_gid n) uid in a AND ACCESS_WRITE \<noteq> 0 \<and> a AND ACCESS_EXECUTE \<noteq> 0)"

text \<open>The common end of the functions below.\<close>

definition release :: "nptr \<Rightarrow> 'm vfs \<Rightarrow> 'm vfs kres" where
  "release p v = bindR (fscache_release_node_readable p (cache v)) (\<lambda>c. Inr (v\<lparr>cache := c\<rparr>))"

definition create_and_open ::
    "'m fscache create_fun \<Rightarrow> string \<Rightarrow> u8 \<Rightarrow> mode_t \<Rightarrow> u32 \<Rightarrow> bool \<Rightarrow> nptr \<Rightarrow> 'm vfs \<Rightarrow> (int \<times> u64 \<times> 'm vfs) kres" where
  "create_and_open create path flags mode uid want_out node v =
     bindR (node_at (cache v) node) (\<lambda>n.
       if flags AND SYSCALL_OPEN_FLAG_CREATE = 0 then Inr (- ENOENT, 0, v)
       else if \<not> may_create n uid then Inr (- EACCES, 0, v)
       else bindR (vfs_creatat create node (last_component path) uid 0 mode True (cache v)) (\<lambda>(res, new, c).
         let v1 = v\<lparr>cache := c\<rparr>
         in if res < 0 then Inr (res, 0, v1)
            else bindR (if want_out then vfs_helper_create_handle new (flag_access flags) v1 else Inr (res, 0, v1))
                   (\<lambda>(res2, out, v2).
                     case new of None \<Rightarrow> Inl BadAccess
                     | Some p \<Rightarrow> bindR (release p v2) (\<lambda>v3. Inr (res2, out, v3)))))"

definition open_existing :: "u8 \<Rightarrow> u32 \<Rightarrow> bool \<Rightarrow> nptr \<Rightarrow> 'm vfs \<Rightarrow> (int \<times> u64 \<times> 'm vfs) kres" where
  "open_existing flags uid want_out node v =
     (if flags AND SYSCALL_OPEN_FLAG_CREATE \<noteq> 0 \<and> flags AND SYSCALL_OPEN_FLAG_EXCL \<noteq> 0 then Inr (- EEXIST, 0, v)
      else bindR (node_at (cache v) node) (\<lambda>n.
        let actual = access_check (f_mode n) (f_uid n) (f_gid n) uid
        in if flags AND SYSCALL_OPEN_FLAG_DIRECTORY \<noteq> 0 \<and> f_type n \<noteq> DT_DIR then Inr (- ENOTDIR, 0, v)
           else if flags AND SYSCALL_OPEN_FLAG_READ \<noteq> 0 \<and> actual AND ACCESS_READ = 0 then Inr (- EACCES, 0, v)
           else if flags AND SYSCALL_OPEN_FLAG_WRITE \<noteq> 0 \<and> actual AND ACCESS_WRITE = 0 then Inr (- EACCES, 0, v)
           else if flags AND SYSCALL_OPEN_FLAG_EX \<noteq> 0 \<and> actual AND ACCESS_EXECUTE = 0 then Inr (- EACCES, 0, v)
           else if want_out then vfs_helper_create_handle (Some node) (flag_access flags) v
           else Inr (0, 0, v)))"

definition vfs_open ::
    "'m fscache load_fun \<Rightarrow> 'm fscache create_fun \<Rightarrow> string option \<Rightarrow> u8 \<Rightarrow> mode_t \<Rightarrow> u32 \<Rightarrow> bool \<Rightarrow> 'm vfs \<Rightarrow>
     (int \<times> u64 \<times> 'm vfs) kres" where
  "vfs_open load create path flags mode_if_create uid want_out v =
     (case path of
        None \<Rightarrow> Inr (- EINVAL, 0, v)
      | Some pth \<Rightarrow>
          if pth = [] \<or> hd pth \<noteq> slash then Inr (- EINVAL, 0, v)
          else if flags AND SYSCALL_OPEN_FLAG_CREATE \<noteq> 0 \<and> flags AND SYSCALL_OPEN_FLAG_DIRECTORY \<noteq> 0
          then Inr (- EINVAL, 0, v)
          else bindR (fscache_request_node load (Some pth) uid True (cache v)) (\<lambda>(res, node, c).
            let v1 = v\<lparr>cache := c\<rparr>
            in case node of
                 None \<Rightarrow> if res = FSCACHE_REQUEST_NODE_ONE_LEVEL_AWAY \<or> res = 0 then Inl BadAccess else Inr (res, 0, v1)
               | Some p \<Rightarrow>
                   bindR (if res = FSCACHE_REQUEST_NODE_ONE_LEVEL_AWAY
                          then create_and_open create pth flags mode_if_create uid want_out p v1
                          else if res = 0 then open_existing flags uid want_out p v1
                          else Inr (res, 0, v1)) (\<lambda>(res2, out, v2).
                   bindR (release p v2) (\<lambda>v3. Inr (res2, out, v3)))))"

definition S_ISVTX :: mode_t where "S_ISVTX = 0x200"

definition make_directory ::
    "'m fscache create_fun \<Rightarrow> string \<Rightarrow> u32 \<Rightarrow> u32 \<Rightarrow> mode_t \<Rightarrow> nptr \<Rightarrow> 'm fscache \<Rightarrow> (int \<times> 'm fscache) kres" where
  "make_directory create path uid gid mode parent s =
     bindR (node_at s parent) (\<lambda>pn.
       if \<not> may_create pn uid then Inr (- EACCES, s)
       else (case fsops pn of
               None \<Rightarrow> Inr (- EIO, s)
             | Some ops \<Rightarrow>
                 if op_create_child ops = 0 then Inr (- EIO, s)
                 else bindR (fscache_allocate_node s) (\<lambda>(new, s1).
                   case new of
                     None \<Rightarrow> Inr (- ENOMEM, s1)
                   | Some node \<Rightarrow>
                       bindR (create (op_create_child ops) parent (last_component path) DT_DIR uid gid
                                (mode AND NOT 0x12 AND (0x1FF OR S_ISVTX)) node s1) (\<lambda>(res, s2).
                       bindR (fscache_release_node_readable node s2) (\<lambda>s3. Inr (res, s3))))))"

definition vfs_mkdir ::
    "'m fscache load_fun \<Rightarrow> 'm fscache create_fun \<Rightarrow> string option \<Rightarrow> u32 \<Rightarrow> u32 \<Rightarrow> mode_t \<Rightarrow> 'm fscache \<Rightarrow>
     (int \<times> 'm fscache) kres" where
  "vfs_mkdir load create path uid gid mode s =
     (case path of
        None \<Rightarrow> Inr (- EINVAL, s)
      | Some pth \<Rightarrow>
          if pth = [] \<or> hd pth \<noteq> slash then Inr (- EINVAL, s)
          else bindR (fscache_request_node load (Some pth) uid True s) (\<lambda>(res, parent, s1).
            case parent of
              None \<Rightarrow> if res = FSCACHE_REQUEST_NODE_ONE_LEVEL_AWAY then Inl BadAccess
                       else Inr (if res = 0 then - EEXIST else res, s1)
            | Some p \<Rightarrow>
                bindR (if res = FSCACHE_REQUEST_NODE_ONE_LEVEL_AWAY then make_directory create pth uid gid mode p s1
                       else Inr (if res = 0 then - EEXIST else res, s1)) (\<lambda>(res2, s2).
                bindR (fscache_release_node_readable p s2) (\<lambda>s3. Inr (res2, s3)))))"

section \<open>The kernel file system behind handles\<close>

text \<open>The operations of a handle whose node keeps its functions in the tree: the call goes through the pointer of the
  node, and is refused with -1 without one.\<close>

definition kernelfs_call ::
    "(kernelfs_node \<Rightarrow> u64) \<Rightarrow> (u64 \<Rightarrow> kernelfs vfs \<Rightarrow> 'r kres) \<Rightarrow> 'r \<Rightarrow> u64 \<Rightarrow> kernelfs vfs \<Rightarrow> 'r kres" where
  "kernelfs_call sel call dflt f v =
     bindR (handle_at v f) (\<lambda>h. bindR (kernelfs_get_node_from_handle h (cache v)) (\<lambda>node.
       if node = 0 then Inr dflt
       else bindR (knode_at (knodes (backend (cache v))) node) (\<lambda>n.
         if sel n = 0 then Inr dflt else call (sel n) v)))"

definition kernelfs_read ::
    "(u64 \<Rightarrow> u64 \<Rightarrow> u64 \<Rightarrow> kernelfs vfs \<Rightarrow> (int \<times> 'r \<times> kernelfs vfs) kres) \<Rightarrow> 'r \<Rightarrow> u64 \<Rightarrow> u64 \<Rightarrow> kernelfs vfs \<Rightarrow>
     (int \<times> 'r \<times> kernelfs vfs) kres" where
  "kernelfs_read call buf f len v = kernelfs_call k_read (\<lambda>fn. call fn f len) (- 1, buf, v) f v"

definition kernelfs_write ::
    "(u64 \<Rightarrow> u64 \<Rightarrow> 'r \<Rightarrow> kernelfs vfs \<Rightarrow> (int \<times> kernelfs vfs) kres) \<Rightarrow> u64 \<Rightarrow> 'r \<Rightarrow> kernelfs vfs \<Rightarrow> (int \<times> kernelfs vfs) kres" where
  "kernelfs_write call f buf v = kernelfs_call k_write (\<lambda>fn. call fn f buf) (- 1, v) f v"

definition kernelfs_seek ::
    "(u64 \<Rightarrow> u64 \<Rightarrow> int \<Rightarrow> u32 \<Rightarrow> kernelfs vfs \<Rightarrow> (int \<times> kernelfs vfs) kres) \<Rightarrow> u64 \<Rightarrow> int \<Rightarrow> u32 \<Rightarrow> kernelfs vfs \<Rightarrow>
     (int \<times> kernelfs vfs) kres" where
  "kernelfs_seek call f offset whence v = kernelfs_call k_seek (\<lambda>fn. call fn f offset whence) (- 1, v) f v"

text \<open>No operation of this file system sets a close function, so closing frees the handle.\<close>

definition no_close :: "u64 \<Rightarrow> u64 \<Rightarrow> kernelfs vfs \<Rightarrow> (int \<times> kernelfs vfs) kres" where
  "no_close fn f v = Inl BadAccess"

definition open_parent :: "string \<Rightarrow> kernelfs vfs \<Rightarrow> (int \<times> u64 \<times> kernelfs vfs) kres" where
  "open_parent path v =
     vfs_open call_load call_create_child (Some path) (SYSCALL_OPEN_FLAG_DIRECTORY OR SYSCALL_OPEN_FLAG_WRITE) 0 0 True v"

text \<open>Without a slash in the path the parent's terminator is written before the copy.\<close>

definition kernelfs_helper_mkdir :: "string \<Rightarrow> u32 \<Rightarrow> u32 \<Rightarrow> mode_t \<Rightarrow> kernelfs vfs \<Rightarrow> (int \<times> kernelfs vfs) kres" where
  "kernelfs_helper_mkdir path uid gid mode v =
     (case kmalloc_next (cache v) of (path_copy, c1) \<Rightarrow>
        let v1 = v\<lparr>cache := c1\<rparr>
        in if path_copy = 0 then Inr (- ENOMEM, v1)
           else if slash \<notin> set path then Inl BadAccess
           else
             let last_token = last_component path;
                 parent = take (length path - length last_token - 1) path
             in bindR (open_parent parent v1) (\<lambda>(res, open_handle, v2).
                  if res < 0 then Inr (res, v2)
                  else bindR (handle_at v2 open_handle) (\<lambda>h.
                    bindR (kernelfs_get_node_from_handle h (cache v2)) (\<lambda>parent_node.
                    bindR (if parent_node = 0 then Inr (- EIO, 0, cache v2)
                           else kernelfs_create_node parent_node last_token DT_DIR uid gid mode
                                  (no_funs\<lparr>nf_read := fn_kernelfs_default_read_dir\<rparr>) (cache v2)) (\<lambda>(res2, new, c3).
                    bindR (vfs_close no_close open_handle (v2\<lparr>cache := c3\<rparr>)) (\<lambda>(r, v4). Inr (res2, v4)))))))"

text \<open>On success the handle of the parent stays open.\<close>

definition kernelfs_helper_create_file ::
    "string \<Rightarrow> string \<Rightarrow> u8 \<Rightarrow> u32 \<Rightarrow> u32 \<Rightarrow> mode_t \<Rightarrow> node_funs \<Rightarrow> kernelfs vfs \<Rightarrow> (int \<times> kernelfs vfs) kres" where
  "kernelfs_helper_create_file parent name type uid gid mode fs v =
     bindR (open_parent parent v) (\<lambda>(res, parent_handle, v1).
       if res < 0 then Inr (res, v1)
       else bindR (handle_at v1 parent_handle) (\<lambda>h.
         bindR (kernelfs_get_node_from_handle h (cache v1)) (\<lambda>parent_node.
           if parent_node = 0 then bindR (vfs_close no_close parent_handle v1) (\<lambda>(r, v2). Inr (- EIO, v2))
           else bindR (kernelfs_create_node parent_node name type uid gid mode fs (cache v1)) (\<lambda>(res2, new, c2).
             let v2 = v1\<lparr>cache := c2\<rparr>
             in if res2 < 0 then bindR (vfs_close no_close parent_handle v2) (\<lambda>(r, v3). Inr (res2, v3))
                else Inr (0, v2)))))"

section \<open>Permission bits\<close>

lemma access_shape:
  "\<exists>r w x. access_check m uid gid p = add_if x ACCESS_EXECUTE (add_if w ACCESS_WRITE (add_if r ACCESS_READ 0))"
proof -
  have "0 OR (ACCESS_READ OR ACCESS_WRITE) = add_if True ACCESS_WRITE (add_if True ACCESS_READ 0)"
    by (simp add: add_if_def ACCESS_READ_def ACCESS_WRITE_def)
  then show ?thesis unfolding access_check_def by metis
qed

text \<open>The three checks say that every wanted bit is granted.\<close>

lemma open_checks:
  "flag_access flags AND access_check m u g p = flag_access flags \<longleftrightarrow>
    \<not> (flags AND SYSCALL_OPEN_FLAG_READ \<noteq> 0 \<and> access_check m u g p AND ACCESS_READ = 0) \<and>
    \<not> (flags AND SYSCALL_OPEN_FLAG_WRITE \<noteq> 0 \<and> access_check m u g p AND ACCESS_WRITE = 0) \<and>
    \<not> (flags AND SYSCALL_OPEN_FLAG_EX \<noteq> 0 \<and> access_check m u g p AND ACCESS_EXECUTE = 0)"
proof -
  obtain r w x where a: "access_check m u g p = add_if x ACCESS_EXECUTE (add_if w ACCESS_WRITE (add_if r ACCESS_READ 0))"
    using access_shape by blast
  show ?thesis unfolding a flag_access_def
    by (auto simp: add_if_def ACCESS_READ_def ACCESS_WRITE_def ACCESS_EXECUTE_def split: if_splits)
qed

section \<open>A booted system\<close>

definition demo_heap :: "u64 list" where
  "demo_heap = [0x5000, 0x6000, 0x7000, 0x8000, 0x9000, 0xA000, 0xB000, 0xC000, 0xD000, 0xE000, 0xF000, 0x10000, 0x11000, 0x12000, 0x13000, 0x14000, 0x15000, 0x16000, 0x17000, 0x18000, 0x19000, 0x1A000]"

definition demo :: "kernelfs fscache" where
  "demo = booted 0x1000 0x2000 0x3000 demo_heap"

lemma demo_ok:
  "kfs_ok (backend demo)" "cache_ok kview 0x1000 demo [NPtr 0x3000 0 \<mapsto> 0x1000] idle" "kheap_fresh demo"
  "k_look (backend demo) 0x1000 ''testfs'' = Some 0x2000" "length (fc_heap demo) = 22"
proof -
  have p: "distinct (0x1000 # 0x2000 # 0x3000 # demo_heap)" "0 \<notin> set demo_heap" by (simp_all add: demo_heap_def)
  show "kfs_ok (backend demo)" "cache_ok kview 0x1000 demo [NPtr 0x3000 0 \<mapsto> 0x1000] idle" "kheap_fresh demo"
    "k_look (backend demo) 0x1000 ''testfs'' = Some 0x2000"
    unfolding demo_def using booted_ok [OF _ _ _ _ p] by simp_all
  show "length (fc_heap demo) = 22" by (simp add: demo_def booted_def demo_heap_def)
qed

lemma demo_root:
  "k_atts (backend demo) 0x1000 = \<lparr>a_type = DT_DIR, a_name = [], a_uid = 0, a_gid = 0, a_mode = S_DFLT,
     a_ops = Some (kernelfs_ops (root_knode 0x2000)), a_data = [0x1000, 0, 0, 0]\<rparr>"
  "k_up (backend demo) 0x1000 = None"
  by (simp_all add: demo_def booted_def boot_tree_def k_atts_def k_up_def root_knode_def)

lemma demo_dev: "k_look (backend demo) 0x1000 ''dev'' = None"
proof -
  have r: "knodes (backend demo) 0x1000 = Some (root_knode 0x2000)" by (simp add: demo_def booted_def boot_tree_def)
  have "dir_ok (knodes (backend demo)) 0x1000 (root_knode 0x2000) [0x2000]"
    by (simp add: demo_def booted_def boot_tree_def dir_ok_def root_knode_def fresh_knode_def)
  from k_look_iff(2) [OF demo_ok(1) _ r this, of "''dev''"] show ?thesis
    by (cases "k_look (backend demo) 0x1000 ''dev''") (auto simp: NUL_def demo_def booted_def boot_tree_def fresh_knode_def)
qed

lemma demo_access:
  "access_check S_DFLT 0 0 0 = 7" "access_check S_DFLT 0 0 5 = 5" "ACCESS_EXECUTE = 1" "ACCESS_WRITE = 2" "ACCESS_READ = 4"
  by (simp_all add: access_check_def S_DFLT_def add_if_def ACCESS_READ_def ACCESS_WRITE_def ACCESS_EXECUTE_def
      S_IXUSR_def S_IXGRP_def S_IXOTH_def S_IROTH_def S_IWOTH_def)

lemma demo_resolve:
  "resolve_path kview (backend demo) uid ''/'' 0x1000 = (0, 0x1000, False)"
  "resolve_path kview (backend demo) 0 ''/dev'' 0x1000 = (FSCACHE_REQUEST_NODE_ONE_LEVEL_AWAY, 0x1000, False)"
  by (simp add: resolve_path_def resolve.simps [of _ _ _ "''/''"] DT_DIR_def demo_root)
    (simp add: resolve_path_def resolve.simps [of _ _ _ "''/dev''"] resolve_step_def demo_root demo_access demo_dev Let_def
      FSCACHE_REQUEST_NODE_ONE_LEVEL_AWAY_def)

section \<open>Opening\<close>

lemma cache_ref:
  assumes c: "cache_ok v kroot s g lk" and n: "fc_nodes s p = Some n"
  shows "cache_ok v kroot (set_node p (n\<lparr>ref_count := r\<rparr>) s) g lk"
proof -
  let ?s = "set_node p (n\<lparr>ref_count := r\<rparr>) s"
  have fr: "sibs ?s q cs = sibs s q cs" "name_of ?s x = name_of s x" for q cs x
    using n by (auto simp: set_node_def intro!: sibs_cong)
  have bk: "backend ?s = backend s" by (simp add: set_node_def)
  have e: "entry_ok v ?s g l' k m = entry_ok v s g l' k m" for l' k m
    unfolding entry_ok_def fr bk ..
  have "\<exists>m. fc_nodes ?s q = Some m \<and> entry_ok v s g (lk q) k m" if gq: "g q = Some k" for q k
  proof -
    obtain m where "fc_nodes s q = Some m" "entry_ok v s g (lk q) k m" using c gq by (rule cache_okD)
    then show ?thesis using n by (cases "q = p") (auto simp: set_node_def entry_ok_def attrs_def)
  qed
  then show ?thesis using c unfolding cache_ok_def e by (auto simp: set_node_def)
qed

lemma release_ok:
  assumes "cache_ok w kroot (cache v) g (idle(p := one_reader))" "g p = Some k"
  obtains n where "fc_nodes (cache v) p = Some n"
    "release p v = Inr (v\<lparr>cache := set_node p (n\<lparr>rwlock := rw_lock_init\<rparr>) (cache v)\<rparr>)"
    "cache_ok w kroot (set_node p (n\<lparr>rwlock := rw_lock_init\<rparr>) (cache v)) g idle"
proof -
  have f: "(\<lambda>l. Some (rd_unlock l)) ((idle(p := one_reader)) p) = Some rw_lock_init" by simp
  obtain n where n: "fc_nodes (cache v) p = Some n"
    "lock_node (\<lambda>l. Some (rd_unlock l)) p (cache v) = Inr (set_node p (n\<lparr>rwlock := rw_lock_init\<rparr>) (cache v))"
    "cache_ok w kroot (set_node p (n\<lparr>rwlock := rw_lock_init\<rparr>) (cache v)) g ((idle(p := one_reader))(p := rw_lock_init))"
    by (rule lock_node_ok [where f = "\<lambda>l. Some (rd_unlock l)", OF assms f])
  moreover have "(idle(p := one_reader))(p := rw_lock_init) = idle" by auto
  ultimately show thesis using that by (simp add: release_def fscache_release_node_readable_def)
qed

text \<open>What opening an existing object returns, from its attributes alone.\<close>

definition open_verdict :: "u8 \<Rightarrow> u32 \<Rightarrow> node_attrs \<Rightarrow> int" where
  "open_verdict flags uid a =
     (if flags AND SYSCALL_OPEN_FLAG_CREATE \<noteq> 0 \<and> flags AND SYSCALL_OPEN_FLAG_EXCL \<noteq> 0 then - EEXIST
      else if flags AND SYSCALL_OPEN_FLAG_DIRECTORY \<noteq> 0 \<and> a_type a \<noteq> DT_DIR then - ENOTDIR
      else if flag_access flags AND access_check (a_mode a) (a_uid a) (a_gid a) uid \<noteq> flag_access flags then - EACCES
      else 0)"

lemma open_existing_law:
  assumes n: "fc_nodes (cache v) p = Some n" and h: "heap_fresh (cache v)" "fc_heap (cache v) = a # h"
  shows "open_existing flags uid True p v =
    (if open_verdict flags uid (attrs n) \<noteq> 0 then Inr (open_verdict flags uid (attrs n), 0, v)
     else if ref_full n then Inr (- EIO, 0, v\<lparr>cache := (cache v)\<lparr>fc_heap := h\<rparr>\<rparr>)
     else Inr (0, a, v\<lparr>cache := set_node p (n\<lparr>ref_count := ref_count n + 1\<rparr>) ((cache v)\<lparr>fc_heap := h\<rparr>),
       handles := (handles v)(a \<mapsto>
         \<lparr>h_access = flag_access flags, backing_node = Some p, instance_data = [0, 0, 0, 0]\<rparr>)\<rparr>))"
proof -
  have nz: "a \<noteq> 0" using h by (auto simp: heap_fresh_def)
  have ch: "vfs_helper_create_handle (Some p) acc v =
    (if ref_full n then Inr (- EIO, 0, v\<lparr>cache := (cache v)\<lparr>fc_heap := h\<rparr>\<rparr>)
     else Inr (0, a, v\<lparr>cache := set_node p (n\<lparr>ref_count := ref_count n + 1\<rparr>) ((cache v)\<lparr>fc_heap := h\<rparr>),
       handles := (handles v)(a \<mapsto> \<lparr>h_access = acc, backing_node = Some p, instance_data = [0, 0, 0, 0]\<rparr>)\<rparr>))" for acc
    using n h nz by (simp add: vfs_helper_create_handle_def kmalloc_next_def node_at_def)
  show ?thesis unfolding open_existing_def open_verdict_def attrs_fields ch open_checks
    using n by (auto simp: node_at_def Let_def errno_defs)
qed

definition fresh_handle :: "u8 \<Rightarrow> nptr \<Rightarrow> vfs_handle" where
  "fresh_handle flags p = \<lparr>h_access = flag_access flags, backing_node = Some p, instance_data = [0, 0, 0, 0]\<rparr>"

text \<open>What opening without creation returns, from the resolution of the path.\<close>

definition path_verdict :: "u8 \<Rightarrow> u32 \<Rightarrow> int \<Rightarrow> node_attrs \<Rightarrow> int" where
  "path_verdict flags uid r a =
     (if r = FSCACHE_REQUEST_NODE_ONE_LEVEL_AWAY then - ENOENT else if r \<noteq> 0 then r else open_verdict flags uid a)"

lemma open_node_law:
  assumes c: "cache_ok w kroot (cache v) g (idle(p := one_reader))" "g p = Some k" "atts w (backend (cache v)) k = a"
    and h: "heap_fresh (cache v)" "fc_heap (cache v) \<noteq> []" and cr: "flags AND SYSCALL_OPEN_FLAG_CREATE = 0"
    and e: "opened = (if r = FSCACHE_REQUEST_NODE_ONE_LEVEL_AWAY then create_and_open create path flags m uid True p v
                  else if r = 0 then open_existing flags uid True p v else Inr (r, 0, v))"
  shows "\<exists>res out v'. opened = Inr (res, out, v') \<and> backend (cache v') = backend (cache v) \<and>
    cache_ok w kroot (cache v') g (idle(p := one_reader)) \<and>
    (if path_verdict flags uid r a \<noteq> 0 then res = path_verdict flags uid r a \<and> handles v' = handles v
     else if res = 0 then out \<in> set (fc_heap (cache v)) \<and> handles v' = (handles v)(out \<mapsto> fresh_handle flags p)
     else res = - EIO \<and> handles v' = handles v \<and> ref_full (the (fc_nodes (cache v') p)))"
proof -
  obtain n where n: "fc_nodes (cache v) p = Some n" "entry_ok w (cache v) g ((idle(p := one_reader)) p) k n"
    by (rule cache_okD [OF c(1,2)])
  have at: "attrs n = a" using n(2) c(3) by (simp add: entry_ok_def)
  obtain x xs where x: "fc_heap (cache v) = x # xs" using h(2) by (cases "fc_heap (cache v)") auto
  have c': "cache_ok w kroot ((cache v)\<lparr>fc_heap := xs\<rparr>) g (idle(p := one_reader))"
    by (rule cache_frame [OF c(1)]) auto
  have cref: "cache_ok w kroot (set_node p (n\<lparr>ref_count := i\<rparr>) ((cache v)\<lparr>fc_heap := xs\<rparr>)) g (idle(p := one_reader))" for i
    by (rule cache_ref [OF c']) (simp add: n(1))
  show ?thesis
  proof (cases "r = 0")
    case True
    then have "opened = open_existing flags uid True p v" using e by (simp add: FSCACHE_REQUEST_NODE_ONE_LEVEL_AWAY_def)
    then show ?thesis
      unfolding open_existing_law [OF n(1) h(1) x] at path_verdict_def fresh_handle_def
      using True c(1) c' cref n(1) x by (auto simp: FSCACHE_REQUEST_NODE_ONE_LEVEL_AWAY_def errno_defs)
  next
    case False
    then show ?thesis
      using e c(1) cr n(1) by (auto simp: path_verdict_def create_and_open_def node_at_def errno_defs)
  qed
qed

lemma open_law:
  assumes "cache_ok kview kroot (cache v) g idle" "kfs_ok (backend (cache v))" "heap_fresh (cache v)"
    "2 * length path + 1 < length (fc_heap (cache v))" "NUL \<notin> set path" "path \<noteq> []" "hd path = slash"
    "flags AND SYSCALL_OPEN_FLAG_CREATE = 0" "resolve_path kview (backend (cache v)) uid path kroot = (r, k, False)"
    "verdict = path_verdict flags uid r (k_atts (backend (cache v)) k)"
  shows "\<exists>res out v' g' p. vfs_open call_load call_create_child (Some path) flags m uid True v = Inr (res, out, v') \<and>
    cache_ok kview kroot (cache v') g' idle \<and> g \<subseteq>\<^sub>m g' \<and> g' p = Some k \<and> backend (cache v') = backend (cache v) \<and>
    (if verdict \<noteq> 0 then res = verdict \<and> handles v' = handles v
     else if res = 0 then out \<in> set (fc_heap (cache v)) \<and> handles v' = (handles v)(out \<mapsto> fresh_handle flags p)
     else res = - EIO \<and> handles v' = handles v \<and> ref_full (the (fc_nodes (cache v') p)))"
proof -
  have len: "2 * length path < length (fc_heap (cache v))" using assms(4) by simp
  obtain p c g' where rq: "fscache_request_node call_load (Some path) uid True (cache v) = Inr (r, Some p, c)"
    "kept (2 * length path + 1) (cache v) c" "cache_ok kview kroot c g' (idle(p := one_reader))" "g' p = Some k" "g \<subseteq>\<^sub>m g'"
    using kf.request_node_law [OF assms(1-3) len assms(5,6,9)] by auto
  let ?v = "v\<lparr>cache := c\<rparr>"
  have heap: "set (fc_heap c) \<subseteq> set (fc_heap (cache v))" using rq(2) by (simp add: kept_def)
  have k: "backend c = backend (cache v)" "heap_fresh c" "fc_heap c \<noteq> []"
    using rq(2) assms(4) by (auto simp: kept_def)
  have k': "cache_ok kview kroot (cache ?v) g' (idle(p := one_reader))" "heap_fresh (cache ?v)" "fc_heap (cache ?v) \<noteq> []"
    using rq(3) k by simp_all
  have vd: "path_verdict flags uid r (atts kview (backend (cache v)) k) = verdict" "handles ?v = handles v" "fc_heap (cache ?v) = fc_heap c"
    "backend (cache ?v) = backend (cache v)" using assms(10) k(1) by simp_all
  note law = open_node_law [where g = g' and p = p and r = r and uid = uid and create = call_create_child and path = path and m = m,
      OF k'(1) rq(4) refl k'(2,3) assms(8) refl]
  obtain res out v2 where o: "(if r = FSCACHE_REQUEST_NODE_ONE_LEVEL_AWAY then create_and_open call_create_child path flags m uid True p ?v
      else if r = 0 then open_existing flags uid True p ?v else Inr (r, 0, ?v)) = Inr (res, out, v2)"
    "backend (cache v2) = backend (cache v)" "cache_ok kview kroot (cache v2) g' (idle(p := one_reader))"
    "if verdict \<noteq> 0 then res = verdict \<and> handles v2 = handles v
     else if res = 0 then out \<in> set (fc_heap c) \<and> handles v2 = (handles v)(out \<mapsto> fresh_handle flags p)
     else res = - EIO \<and> handles v2 = handles v \<and> ref_full (the (fc_nodes (cache v2) p))"
    using law unfolding vd by (elim exE conjE) (rule that; assumption)
  obtain n where n: "fc_nodes (cache v2) p = Some n" "release p v2 = Inr (v2\<lparr>cache := set_node p (n\<lparr>rwlock := rw_lock_init\<rparr>) (cache v2)\<rparr>)"
    "cache_ok kview kroot (set_node p (n\<lparr>rwlock := rw_lock_init\<rparr>) (cache v2)) g' idle"
    by (rule release_ok [OF o(3) rq(4)])
  have "vfs_open call_load call_create_child (Some path) flags m uid True v =
      Inr (res, out, v2\<lparr>cache := set_node p (n\<lparr>rwlock := rw_lock_init\<rparr>) (cache v2)\<rparr>)"
    using assms(6-8) rq(1) o(1) n(2) by (simp add: vfs_open_def)
  moreover have "ref_full (the (fc_nodes (set_node p (n\<lparr>rwlock := rw_lock_init\<rparr>) (cache v2)) p)) = ref_full (the (fc_nodes (cache v2) p))"
    using n(1) by (simp add: ref_full_def)
  ultimately show ?thesis using n(3) o(2,4) rq(4,5) heap
    by (intro exI [of _ res] exI [of _ out] exI [of _ "v2\<lparr>cache := set_node p (n\<lparr>rwlock := rw_lock_init\<rparr>) (cache v2)\<rparr>"]
        exI [of _ g'] exI [of _ p]) auto
qed

text \<open>C25. Opening a path, without the creation flag, on the kernel file system behind the cache. The result is the one
  the path and the object it names determine: the error of the resolution, or, for an existing object, the
  directory check and the permission check, so that a handle is given exactly when every access asked for is
  granted by the object's mode, is a block the allocator returned, and carries that access and no other. The one other outcome is a refusal when
  the reference count of the node is exhausted. Every lock is released again and the tree is untouched.\<close>

theorem open_checked:
  assumes "cache_ok kview kroot (cache v) g idle" "kfs_ok (backend (cache v))" "heap_fresh (cache v)"
    "2 * length path + 1 < length (fc_heap (cache v))" "NUL \<notin> set path" "path \<noteq> []" "hd path = slash"
    "flags AND SYSCALL_OPEN_FLAG_CREATE = 0" "resolve_path kview (backend (cache v)) uid path kroot = (r, k, False)"
    "verdict = path_verdict flags uid r (k_atts (backend (cache v)) k)"
  shows "\<exists>res out v' g' p. vfs_open call_load call_create_child (Some path) flags m uid True v = Inr (res, out, v') \<and>
    cache_ok kview kroot (cache v') g' idle \<and> g \<subseteq>\<^sub>m g' \<and> g' p = Some k \<and> backend (cache v') = backend (cache v) \<and>
    (if verdict \<noteq> 0 then res = verdict \<and> handles v' = handles v
     else if res = 0 then out \<in> set (fc_heap (cache v)) \<and> handles v' = (handles v)(out \<mapsto> fresh_handle flags p)
     else res = - EIO \<and> handles v' = handles v \<and> ref_full (the (fc_nodes (cache v') p)))"
  using assms by (rule open_law)

theorem open_checked_witness:
  "\<exists>res out v'. vfs_open call_load call_create_child (Some ''/'') SYSCALL_OPEN_FLAG_WRITE 0 5 True \<lparr>cache = demo, handles = \<lambda>_. None\<rparr> =
     Inr (res, out, v') \<and> res = - EACCES \<and> handles v' = (\<lambda>_. None)"
proof -
  let ?v = "\<lparr>cache = demo, handles = \<lambda>_. None\<rparr>"
  have hf: "heap_fresh demo" using demo_ok(3) by (simp add: kheap_fresh_def)
  have vd: "path_verdict SYSCALL_OPEN_FLAG_WRITE 5 0 (k_atts (backend demo) 0x1000) = - EACCES"
    by (simp add: path_verdict_def open_verdict_def demo_root demo_access open_flag_defs flag_access_def add_if_def
        FSCACHE_REQUEST_NODE_ONE_LEVEL_AWAY_def errno_defs)
  from open_checked [of "0x1000" ?v "[NPtr 0x3000 0 \<mapsto> 0x1000]" "''/''" SYSCALL_OPEN_FLAG_WRITE 5 0 "0x1000" "- EACCES" 0]
  show ?thesis using demo_ok demo_resolve(1) hf vd by (auto simp: NUL_def open_flag_defs errno_defs)
qed

section \<open>Making a directory\<close>

lemma last_component_simps:
  "slash \<notin> set xs \<Longrightarrow> last_component (slash # xs) = xs"
  "slash \<notin> set xs \<Longrightarrow> last_component xs = xs"
  "slash \<in> set ys \<Longrightarrow> last_component (xs @ ys) = last_component ys"
proof -
  show "last_component xs = xs" if "slash \<notin> set xs"
  proof -
    have e: "takeWhile (\<lambda>c. c \<noteq> slash) (rev xs) = rev xs" using that by (auto simp: takeWhile_eq_all_conv)
    show ?thesis unfolding last_component_def e by simp
  qed
  show "last_component (slash # xs) = xs" if "slash \<notin> set xs"
  proof -
    have e: "takeWhile (\<lambda>c. c \<noteq> slash) (rev xs @ [slash]) = rev xs" by (subst takeWhile_append2) (use that in auto)
    show ?thesis unfolding last_component_def rev.simps e by simp
  qed
  show "last_component (xs @ ys) = last_component ys" if "slash \<in> set ys"
    using that takeWhile_append1 [of slash "rev ys" "\<lambda>c. c \<noteq> slash" "rev xs"] by (simp add: last_component_def)
qed

text \<open>When only the last component is missing, it is what follows the last slash.\<close>

lemma resolve_missing:
  "resolve w m uid path k = (FSCACHE_REQUEST_NODE_ONE_LEVEL_AWAY, k', over) \<Longrightarrow>
    a_type (atts w m k') = DT_DIR \<and> look w m k' (last_component path) = None \<and> last_component path \<noteq> [] \<and> \<not> over"
proof (induction w m uid path k rule: resolve.induct)
  case (1 w m uid rest k)
  define start where "start = dropWhile (\<lambda>c. c = slash) rest"
  define token where "token = takeWhile (\<lambda>c. c \<noteq> slash) start"
  define after where "after = dropWhile (\<lambda>c. c \<noteq> slash) start"
  have rest: "rest = takeWhile (\<lambda>c. c = slash) rest @ token @ after"
    by (simp add: token_def after_def start_def)
  have tok: "slash \<notin> set token" using set_takeWhileD [of slash "\<lambda>c. c \<noteq> slash" start] by (auto simp: token_def)
  have ne: "token \<noteq> []" using "1.prems" by (subst (asm) resolve.simps)
    (auto simp: Let_def token_def start_def FSCACHE_REQUEST_NODE_ONE_LEVEL_AWAY_def)
  have r: "resolve w m uid rest k = (case resolve_step w m uid token (after = []) k of
      Inl (r, over) \<Rightarrow> (r, k, over) | Inr k' \<Rightarrow> resolve w m uid after k')"
    using ne by (simp only: resolve.simps [of w m uid rest] Let_def start_def [symmetric] token_def [symmetric]
        after_def [symmetric] if_False)
  show ?case
  proof (cases "resolve_step w m uid token (after = []) k")
    case (Inl e)
    then have e: "e = (FSCACHE_REQUEST_NODE_ONE_LEVEL_AWAY, over)" "k' = k" using "1.prems" r by (auto split: prod.splits)
    then have af: "after = []" "a_type (atts w m k) = DT_DIR" "look w m k token = None" "\<not> over"
      using Inl by (auto simp: resolve_step_def Let_def FSCACHE_REQUEST_NODE_ONE_LEVEL_AWAY_def errno_defs
          split: if_splits option.splits)
    have "last_component rest = token"
    proof (cases "takeWhile (\<lambda>c. c = slash) rest" rule: rev_cases)
      case Nil
      then show ?thesis using rest af(1) tok last_component_simps(2) by simp
    next
      case (snoc ss c)
      then have "c = slash" by (metis in_set_conv_decomp set_takeWhileD)
      then have "rest = ss @ slash # token" using rest af(1) snoc by simp
      then show ?thesis using last_component_simps(1,3) [of _] tok by simp
    qed
    then show ?thesis using af e ne by simp
  next
    case (Inr k1)
    have af: "after \<noteq> []"
    proof
      assume "after = []"
      then have "resolve w m uid after k1 = (0, k1, False)" by (subst resolve.simps) simp
      then show False using "1.prems" r Inr by (simp add: FSCACHE_REQUEST_NODE_ONE_LEVEL_AWAY_def)
    qed
    then have "slash \<in> set after" using hd_dropWhile [of "\<lambda>c. c \<noteq> slash" start] by (metis after_def hd_in_set)
    then have "last_component rest = last_component after"
      using rest last_component_simps(3) [of after] by (metis append.assoc)
    moreover have "resolve w m uid after k1 = (FSCACHE_REQUEST_NODE_ONE_LEVEL_AWAY, k', over)" using "1.prems" r Inr by simp
    ultimately show ?thesis using "1.IH" [OF start_def token_def after_def ne Inr] by simp
  qed
qed

text \<open>Creating a directory in the cache's parent node, with a fresh node for it.\<close>

lemma create_child_law:
  assumes c: "cache_ok kview kroot s g lk" "g p = Some k" "fc_nodes s p = Some pn" "a_type (k_atts (backend s) k) = DT_DIR"
    and ok: "kfs_ok (backend s)" "kheap_fresh s" "2 \<le> length (fc_heap s)"
    and name: "name \<noteq> []" "NUL \<notin> set name" "length name \<le> NAME_MAX" "k_look (backend s) k name = None"
    and ch: "fc_nodes s ch = Some ((cleared_node DT_UNKNOWN)\<lparr>rwlock := l\<rparr>)" "g ch = None"
  obtains n' k' where "kernelfs_create_child p name DT_DIR uid gid mode ch s =
      Inr (0, s\<lparr>fc_nodes := (fc_nodes s)(ch \<mapsto> n'), fc_heap := tl (tl (fc_heap s)), backend := k'\<rparr>)" "rwlock n' = l"
    "kfs_ok k'" "kheap_fresh (s\<lparr>fc_heap := tl (tl (fc_heap s)), backend := k'\<rparr>)"
    "\<forall>a t. NUL \<notin> set t \<longrightarrow> k_look k' a t = (if a = k \<and> t = name then Some (hd (fc_heap s)) else k_look (backend s) a t)"
    "cache_ok kview kroot (s\<lparr>fc_heap := tl (tl (fc_heap s)), backend := k'\<rparr>) g lk"
    "k_atts k' (hd (fc_heap s)) = \<lparr>a_type = DT_DIR, a_name = name, a_uid = uid, a_gid = gid, a_mode = mode,
       a_ops = Some (kernelfs_ops (fresh_knode k name DT_DIR uid gid mode (no_funs\<lparr>nf_read := fn_kernelfs_default_read_dir\<rparr>))),
       a_data = [hd (fc_heap s), 0, 0, 0]\<rparr>"
proof -
  let ?fs = "no_funs\<lparr>nf_read := fn_kernelfs_default_read_dir\<rparr>"
  obtain new a h where h: "fc_heap s = new # a # h" using ok(3) by (cases "fc_heap s"; cases "tl (fc_heap s)") auto
  obtain pn' where pn': "fc_nodes s p = Some pn'" "entry_ok kview s g (lk p) k pn'" by (rule cache_okD [OF c(1,2)])
  then have at: "attrs pn = k_atts (backend s) k" using c(3) by (simp add: entry_ok_def)
  obtain kn where kn: "knodes (backend s) k = Some kn" using pn'(2) by (rule entry_knode)
  have pf: "f_type pn = DT_DIR" "fsops pn = Some (kernelfs_ops kn)" "internal_data pn = [k, 0, 0, 0]" "k_type kn = DT_DIR"
    using at c(4) kn by (simp_all add: k_atts_def attrs_def)
  have nz: "k \<noteq> 0" by (rule kfs_okD(1) [OF ok(1) kn])
  have dt: "DT_DIR \<noteq> (0 :: u8)" by (simp add: DT_DIR_def)
  obtain k' nn xs where k': "dir_ok (knodes (backend s)) k kn xs"
    "kernelfs_create_node k name DT_DIR uid gid mode ?fs s = Inr (0, new, s\<lparr>fc_heap := a # h, backend := k'\<rparr>)"
    "inserted (backend s) k' k new xs nn" "relinked (fresh_knode k name DT_DIR uid gid mode ?fs) nn"
    by (rule create_node_ex [OF ok(1) kn pf(4) ok(2) h name(1-3) dt name(4)])
  let ?s1 = "s\<lparr>fc_heap := a # h, backend := k'\<rparr>"
  note ef = create_node_effect [OF ok(1) kn pf(4) ok(2) h name(1-3) dt name(4) refl k'(2-4,1)]
  have ne: "p \<noteq> ch" using c(2) ch(2) by auto
  have l1: "k_look k' k name = Some new" using ef(3) [of name k] name(2) by simp
  have at1: "attrs pn = k_atts k' k" using at inserted_atts(1) [OF k'(3) kn] by simp
  have hf: "heap_fresh ?s1" "a \<noteq> 0" using ef(2) by (auto simp: kheap_fresh_def heap_fresh_def)
  obtain n' where n': "call_load (op_load_node (kernelfs_ops kn)) p name ch ?s1 =
      Inr (0, ?s1\<lparr>fc_nodes := (fc_nodes ?s1)(ch \<mapsto> n'), fc_heap := h\<rparr>)" "rwlock n' = l"
    using kf.load_found [of ?s1 p pn k "kernelfs_ops kn" ch l name new a h] ef(1) c(3) at1 pf(2) ch(1) ne name(2) l1 hf(2)
    by auto
  have "kernelfs_create_child p name DT_DIR uid gid mode ch s =
      Inr (0, s\<lparr>fc_nodes := (fc_nodes s)(ch \<mapsto> n'), fc_heap := h, backend := k'\<rparr>)"
    using c(3) pf nz k'(2) n'(1) by (simp add: kernelfs_create_child_def node_at_def fn_kernelfs_load_def)
  moreover have "kheap_fresh (s\<lparr>fc_heap := h, backend := k'\<rparr>)"
    using ef(2) by (auto simp: kheap_fresh_def heap_fresh_def)
  moreover have "cache_ok kview kroot (s\<lparr>fc_heap := h, backend := k'\<rparr>) g lk"
    by (rule cache_frame [OF ef(4) [OF c(1)]]) auto
  ultimately show thesis using that [of k' n'] n'(2) ef(1,3,5) h by simp
qed

lemma resolve_path_missing:
  assumes "resolve_path w m uid path kroot = (FSCACHE_REQUEST_NODE_ONE_LEVEL_AWAY, k, over)"
  shows "a_type (atts w m k) = DT_DIR" "look w m k (last_component path) = None" "last_component path \<noteq> []" "\<not> over"
proof -
  have "resolve w m uid path kroot = (FSCACHE_REQUEST_NODE_ONE_LEVEL_AWAY, k, over)"
    using assms by (auto simp: resolve_path_def FSCACHE_REQUEST_NODE_ONE_LEVEL_AWAY_def errno_defs split: prod.splits if_splits)
  from resolve_missing [OF this] show "a_type (atts w m k) = DT_DIR" "look w m k (last_component path) = None"
    "last_component path \<noteq> []" "\<not> over" by simp_all
qed

definition dir_mode :: "mode_t \<Rightarrow> mode_t" where
  "dir_mode mode = mode AND NOT 0x12 AND (0x1FF OR S_ISVTX)"

lemma dir_mode_mask: "dir_mode mode = mode AND 0x3ED"
  by (simp add: dir_mode_def S_ISVTX_def and.assoc)

lemma make_directory_law:
  assumes c: "cache_ok kview kroot c g (idle(p := one_reader))" "g p = Some k" and ok: "kfs_ok (backend c)" "kheap_fresh c"
      "3 < length (fc_heap c)"
    and name: "name = last_component path" "name \<noteq> []" "NUL \<notin> set name" "length name \<le> NAME_MAX" "k_look (backend c) k name = None"
    and k: "k_atts (backend c) k = at" "a_type at = DT_DIR" "access_check (a_mode at) (a_uid at) (a_gid at) uid = acc"
      "acc AND ACCESS_WRITE \<noteq> 0" "acc AND ACCESS_EXECUTE \<noteq> 0"
  obtains s3 new where "make_directory call_create_child path uid gid mode p c = Inr (0, s3)"
    "cache_ok kview kroot s3 g (idle(p := one_reader))" "kfs_ok (backend s3)" "kheap_fresh s3"
    "\<forall>a t. NUL \<notin> set t \<longrightarrow> k_look (backend s3) a t = (if a = k \<and> t = name then Some new else k_look (backend c) a t)"
    "a_type (k_atts (backend s3) new) = DT_DIR" "a_uid (k_atts (backend s3) new) = uid"
    "a_gid (k_atts (backend s3) new) = gid" "a_mode (k_atts (backend s3) new) = dir_mode mode"
proof -
  let ?cl = "(cleared_node DT_UNKNOWN)\<lparr>rwlock := one_reader\<rparr>"
  have kc: "heap_fresh c" "fc_heap c \<noteq> []" using ok(2,3) by (auto simp: kheap_fresh_def)
  obtain ch s1 where al: "fresh_from c ch s1" "fscache_allocate_node c = Inr (Some ch, set_node ch ?cl s1)"
    by (rule allocate_node_law [OF kc])
  let ?s2 = "set_node ch ?cl s1"
  have gch: "g ch = None" by (rule fresh_not_cached [OF c(1) al(1)])
  have c2: "cache_ok kview kroot ?s2 g (idle(p := one_reader))" by (rule fresh_cache [OF c(1) al(1)])
  have f: "fc_nodes s1 ch = Some (cleared_node DT_UNKNOWN)" "heap_fresh s1" "backend s1 = backend c"
    "fc_heap s1 = fc_heap c \<or> fc_heap s1 = tl (fc_heap c)" "\<forall>q n. q \<noteq> ch \<longrightarrow> fc_nodes c q = Some n \<longrightarrow> fc_nodes s1 q = Some n"
    using al(1) by (simp_all add: fresh_from_def)
  have hs: "set (fc_heap s1) \<subseteq> set (fc_heap c)" "2 \<le> length (fc_heap ?s2)"
    using f(4) ok(3) kc(2) by (auto dest: list.set_sel(2))
  have kh: "kheap_fresh ?s2" using heap_fresh_node [OF f(2,1)] hs(1) f(3) ok(2) by (auto simp: kheap_fresh_def)
  obtain pn where pn: "fc_nodes c p = Some pn" "entry_ok kview c g ((idle(p := one_reader)) p) k pn"
    by (rule cache_okD [OF c])
  have ne: "p \<noteq> ch" using c(2) gch by auto
  have pn2: "fc_nodes ?s2 p = Some pn" using f(5) ne pn(1) by (simp add: set_node_def)
  have at: "attrs pn = at" using pn(2) k(1) by (simp add: entry_ok_def)
  obtain kn where kn: "knodes (backend c) k = Some kn" using pn(2) by (rule entry_knode)
  have ops: "fsops pn = Some (kernelfs_ops kn)" "k_type kn = DT_DIR"
    using at k(1,2) kn by (auto simp: k_atts_def attrs_def)
  have pre: "a_type (k_atts (backend ?s2) k) = DT_DIR" "kfs_ok (backend ?s2)" "k_look (backend ?s2) k name = None"
    using k(1,2) ok(1) name(5) f(3) by simp_all
  have chn: "fc_nodes ?s2 ch = Some ?cl" by (simp add: set_node_def)
  obtain n' k' where cr: "kernelfs_create_child p name DT_DIR uid gid (dir_mode mode) ch ?s2 =
      Inr (0, ?s2\<lparr>fc_nodes := (fc_nodes ?s2)(ch \<mapsto> n'), fc_heap := tl (tl (fc_heap ?s2)), backend := k'\<rparr>)" "rwlock n' = one_reader"
    "kfs_ok k'" "kheap_fresh (?s2\<lparr>fc_heap := tl (tl (fc_heap ?s2)), backend := k'\<rparr>)"
    "\<forall>a t. NUL \<notin> set t \<longrightarrow> k_look k' a t = (if a = k \<and> t = name then Some (hd (fc_heap ?s2)) else k_look (backend ?s2) a t)"
    "cache_ok kview kroot (?s2\<lparr>fc_heap := tl (tl (fc_heap ?s2)), backend := k'\<rparr>) g (idle(p := one_reader))"
    "k_atts k' (hd (fc_heap ?s2)) = \<lparr>a_type = DT_DIR, a_name = name, a_uid = uid, a_gid = gid, a_mode = dir_mode mode,
       a_ops = Some (kernelfs_ops (fresh_knode k name DT_DIR uid gid (dir_mode mode) (no_funs\<lparr>nf_read := fn_kernelfs_default_read_dir\<rparr>))),
       a_data = [hd (fc_heap ?s2), 0, 0, 0]\<rparr>"
    by (rule create_child_law [OF c2 c(2) pn2 pre(1,2) kh hs(2) name(2-4) pre(3) chn gch])
  let ?s3 = "?s2\<lparr>fc_nodes := (fc_nodes ?s2)(ch \<mapsto> n'\<lparr>rwlock := rw_lock_init\<rparr>), fc_heap := tl (tl (fc_heap ?s2)), backend := k'\<rparr>"
  have "may_create pn uid" using at k(3-5) by (auto simp: may_create_def attrs_def Let_def)
  then have "make_directory call_create_child path uid gid mode p c = Inr (0, ?s3)"
    using pn(1) ops al(2) cr(1,2)
    by (simp add: make_directory_def node_at_def kernelfs_ops_def fn_kernelfs_create_child_def call_create_child_def name(1)
        dir_mode_def fscache_release_node_readable_def lock_node_def set_node_def)
  moreover have "cache_ok kview kroot ?s3 g (idle(p := one_reader))" by (rule cache_frame [OF cr(6)]) (use gch in auto)
  moreover have "heap_fresh (set_node ch (n'\<lparr>rwlock := rw_lock_init\<rparr>) (?s2\<lparr>fc_heap := tl (tl (fc_heap ?s2)), backend := k'\<rparr>))"
    by (rule heap_fresh_node [where n = ?cl]) (use cr(4) chn in \<open>simp_all add: kheap_fresh_def\<close>)
  then have "kheap_fresh ?s3" using cr(4) by (simp add: kheap_fresh_def set_node_def heap_fresh_def)
  ultimately show thesis using that [of ?s3 "hd (fc_heap ?s2)"] cr(3,5,7) f(3) by simp
qed

text \<open>C26. Making a directory. When everything but the last component of the path exists, and the parent grants write and
  execute access, the directory is created: the name resolves to a new object with the masked mode and the
  owner given, no other lookup in any directory changes, and the tree and the cache stay consistent with every
  lock released.\<close>

theorem mkdir_creates:
  assumes "cache_ok kview kroot s g idle" "kfs_ok (backend s)" "kheap_fresh s" "2 * length path + 4 < length (fc_heap s)"
    "NUL \<notin> set path" "path \<noteq> []" "hd path = slash" "length (last_component path) \<le> NAME_MAX"
    "resolve_path kview (backend s) uid path kroot = (FSCACHE_REQUEST_NODE_ONE_LEVEL_AWAY, k, over)"
    "access_check (a_mode (k_atts (backend s) k)) (a_uid (k_atts (backend s) k)) (a_gid (k_atts (backend s) k)) uid = acc"
    "acc AND ACCESS_WRITE \<noteq> 0" "acc AND ACCESS_EXECUTE \<noteq> 0"
  shows "\<exists>s' g' new. vfs_mkdir call_load call_create_child (Some path) uid gid mode s = Inr (0, s') \<and>
    cache_ok kview kroot s' g' idle \<and> g \<subseteq>\<^sub>m g' \<and> kfs_ok (backend s') \<and> kheap_fresh s' \<and>
    (\<forall>a t. NUL \<notin> set t \<longrightarrow> k_look (backend s') a t =
       (if a = k \<and> t = last_component path then Some new else k_look (backend s) a t)) \<and>
    a_type (k_atts (backend s') new) = DT_DIR \<and> a_uid (k_atts (backend s') new) = uid \<and>
    a_gid (k_atts (backend s') new) = gid \<and> a_mode (k_atts (backend s') new) = mode AND 0x3ED"
proof -
  let ?name = "last_component path"
  note ms = resolve_path_missing [OF assms(9), unfolded kview_simps]
  have hf: "heap_fresh s" using assms(3) by (simp add: kheap_fresh_def)
  have len: "2 * length path < length (fc_heap s)" using assms(4) by simp
  obtain p c g' where rq: "fscache_request_node call_load (Some path) uid True s = Inr (FSCACHE_REQUEST_NODE_ONE_LEVEL_AWAY, Some p, c)"
    "kept (2 * length path + 1) s c" "cache_ok kview kroot c g' (idle(p := one_reader))" "g' p = Some k" "g \<subseteq>\<^sub>m g'"
    using kf.request_node_law [OF assms(1,2) hf len assms(5,6,9)] ms(4) by auto
  have kc: "kfs_ok (backend c)" "kheap_fresh c" "3 < length (fc_heap c)" "backend c = backend s"
    using rq(2) assms(2-4) by (auto simp: kept_def kheap_fresh_def)
  have nul: "NUL \<notin> set ?name" using assms(5) set_takeWhileD [of NUL _ "rev path"] by (auto simp: last_component_def)
  have pre: "k_look (backend c) k ?name = None" "a_type (k_atts (backend c) k) = DT_DIR"
    "access_check (a_mode (k_atts (backend c) k)) (a_uid (k_atts (backend c) k)) (a_gid (k_atts (backend c) k)) uid = acc"
    using ms(1,2) assms(10) kc(4) by simp_all
  obtain s3 new where s3: "make_directory call_create_child path uid gid mode p c = Inr (0, s3)"
    "cache_ok kview kroot s3 g' (idle(p := one_reader))" "kfs_ok (backend s3)" "kheap_fresh s3"
    "\<forall>a t. NUL \<notin> set t \<longrightarrow> k_look (backend s3) a t = (if a = k \<and> t = ?name then Some new else k_look (backend c) a t)"
    "a_type (k_atts (backend s3) new) = DT_DIR" "a_uid (k_atts (backend s3) new) = uid"
    "a_gid (k_atts (backend s3) new) = gid" "a_mode (k_atts (backend s3) new) = dir_mode mode"
    by (rule make_directory_law [OF rq(3,4) kc(1-3) refl ms(3) nul assms(8) pre(1) refl pre(2,3) assms(11,12)])
  obtain n where n: "fc_nodes s3 p = Some n" "release p \<lparr>cache = s3, handles = \<lambda>_. None\<rparr> =
      Inr (\<lparr>cache = set_node p (n\<lparr>rwlock := rw_lock_init\<rparr>) s3, handles = \<lambda>_. None\<rparr>)"
    "cache_ok kview kroot (set_node p (n\<lparr>rwlock := rw_lock_init\<rparr>) s3) g' idle"
    using release_ok [of kview kroot "\<lparr>cache = s3, handles = \<lambda>_. None\<rparr>" g' p k] s3(2) rq(4) by auto
  have fr: "heap_fresh (set_node p (n\<lparr>rwlock := rw_lock_init\<rparr>) s3)"
    using heap_fresh_node [OF _ n(1)] s3(4) by (simp add: kheap_fresh_def)
  have "vfs_mkdir call_load call_create_child (Some path) uid gid mode s = Inr (0, set_node p (n\<lparr>rwlock := rw_lock_init\<rparr>) s3)"
    using assms(6,7) rq(1) s3(1) n(1,2)
    by (auto simp: vfs_mkdir_def release_def bindR_def split: sum.splits)
  then show ?thesis
    using n(3) rq(5) s3(3-9) fr kc(4)
    by (intro exI [of _ "set_node p (n\<lparr>rwlock := rw_lock_init\<rparr>) s3"] exI [of _ g'] exI [of _ new])
      (simp add: kheap_fresh_def dir_mode_mask)
qed

theorem mkdir_creates_witness:
  "\<exists>s' new. vfs_mkdir call_load call_create_child (Some ''/dev'') 0 0 0x1FF demo = Inr (0, s') \<and>
     k_look (backend s') 0x1000 ''dev'' = Some new \<and> a_mode (k_atts (backend s') new) = 0x1ED"
proof -
  have lc: "last_component ''/dev'' = ''dev''" by (simp add: last_component_def)
  from mkdir_creates [of "0x1000" demo "[NPtr 0x3000 0 \<mapsto> 0x1000]" "''/dev''" 0 "0x1000" False 7 0 "0x1FF"]
  show ?thesis using demo_ok demo_resolve(2) lc by (auto simp: NUL_def NAME_MAX_def demo_root demo_access)
qed

section \<open>Booting\<close>

text \<open>After initialisation with enough memory, the tree is well formed and holds the test directory, the cache holds
  exactly its root, unlocked, and agrees with the tree.\<close>

lemma vfs_init_ok:
  assumes "distinct (0 # a # b # c # d # h)"
  shows "\<exists>s. vfs_init (boot (a # b # c # d # h)) = Inr s \<and> kfs_ok (backend s) \<and>
    cache_ok kview (root_kernelfs_node (backend s)) s [the (fscache_root_node s) \<mapsto> root_kernelfs_node (backend s)] idle \<and>
    kheap_fresh s \<and> fc_heap s = h \<and> k_look (backend s) (root_kernelfs_node (backend s)) ''testfs'' = Some b"
proof -
  have nz: "a \<noteq> 0" "b \<noteq> 0" "a \<noteq> b" "c \<noteq> 0" "d \<noteq> 0" using assms by auto
  have "vfs_init (boot (a # b # c # d # h)) = Inr (booted a b c h)"
    using kernelfs_init_law [OF nz(1-3)] fscache_init_law [OF nz] by (simp add: vfs_init_def)
  moreover have "root_kernelfs_node (backend (booted a b c h)) = a" "fscache_root_node (booted a b c h) = Some (NPtr c 0)"
    "fc_heap (booted a b c h) = h"
    by (simp_all add: booted_def boot_tree_def)
  moreover have "distinct (a # b # c # h)" "0 \<notin> set h" using assms by auto
  ultimately show ?thesis using booted_ok [OF nz(1-4)] by simp
qed

section \<open>Stepping above the root\<close>

text \<open>C27. Opening the parent of the root. The lookup releases the root when it finds no parent, and the caller releases it
  again: the call reports that there is no such file, and leaves the lock of the root in the state of a writer,
  so that every later lookup of an absolute path waits forever.\<close>

theorem open_above_root_wedges:
  assumes "cache_ok kview kroot (cache v) g idle" "kfs_ok (backend (cache v))" "k_up (backend (cache v)) kroot = None"
    "a_type (k_atts (backend (cache v)) kroot) = DT_DIR" "heap_fresh (cache v)" "3 \<le> length (fc_heap (cache v))"
    "access_check (a_mode (k_atts (backend (cache v)) kroot)) (a_uid (k_atts (backend (cache v)) kroot))
       (a_gid (k_atts (backend (cache v)) kroot)) uid AND ACCESS_EXECUTE \<noteq> 0"
    "flags AND SYSCALL_OPEN_FLAG_CREATE = 0" "path \<noteq> []" "hd path = slash" "flags' AND SYSCALL_OPEN_FLAG_CREATE = 0"
  shows "\<exists>v'. vfs_open call_load call_create_child (Some ''/..'') flags m uid True v = Inr (- ENOENT, 0, v') \<and>
    vfs_open call_load call_create_child (Some path) flags' m' uid' True v' = Inl Deadlock"
proof -
  obtain r where r: "fscache_root_node (cache v) = Some r" "g r = Some kroot" using assms(1) by (auto simp: cache_ok_def)
  obtain n where n: "fc_nodes (cache v) r = Some n" "entry_ok kview (cache v) g (idle r) kroot n"
    by (rule cache_okD [OF assms(1) r(2)])
  have at: "attrs n = k_atts (backend (cache v)) kroot" "rwlock n = rw_lock_init" "parent_node n = None"
    using n(2) assms(3) by (auto simp: entry_ok_def split: option.splits)
  have f: "f_type n = DT_DIR" "access_check (f_mode n) (f_uid n) (f_gid n) uid AND ACCESS_EXECUTE \<noteq> 0"
    using assms(4,7) unfolding at(1) [symmetric] by simp_all
  obtain a b h where h: "fc_heap (cache v) = a # b # h" using assms(6)
    by (cases "fc_heap (cache v)"; cases "tl (fc_heap (cache v))") auto
  then have nz: "a \<noteq> 0" "b \<noteq> 0" using assms(5) by (auto simp: heap_fresh_def)
  let ?c1 = "(cache v)\<lparr>fc_heap := b # h\<rparr>"
  have tok: "dropWhile (\<lambda>c. c = slash) ''/..'' = ''..''" by simp
  have rl: "request_loop call_load uid ''/..'' r (set_node r (n\<lparr>rwlock := one_reader\<rparr>) ?c1) =
      Inr (- ENOENT, r, set_node r (n\<lparr>rwlock := rw_lock_init\<rparr>) ?c1)"
    using at(3) f by (subst request_loop.simps)
      (simp add: Let_def request_step_def node_at_def set_node_def fscache_release_node_readable_def lock_node_def)
  let ?c2 = "set_node r (n\<lparr>rwlock := rd_unlock rw_lock_init\<rparr>) ?c1"
  have "fscache_request_node call_load (Some ''/..'') uid True (cache v) = Inr (- ENOENT, Some r, set_node r (n\<lparr>rwlock := rw_lock_init\<rparr>) ?c1)"
    using r(1) h nz n(1) at(2) rl
    by (simp add: fscache_request_node_def kmalloc_next_def fscache_wait_for_node_readable_def lock_node_def node_at_def
        set_node_def errno_defs)
  then have "vfs_open call_load call_create_child (Some ''/..'') flags m uid True v = Inr (- ENOENT, 0, v\<lparr>cache := ?c2\<rparr>)"
    using assms(8) by (simp add: vfs_open_def release_def fscache_release_node_readable_def lock_node_def node_at_def set_node_def
        FSCACHE_REQUEST_NODE_ONE_LEVEL_AWAY_def errno_defs)
  moreover have "rd_lock (rd_unlock rw_lock_init) = None" by (simp add: rw_fun_defs lock_state_defs)
  then have "fscache_request_node call_load (Some path) uid' True ?c2 = Inl Deadlock"
    using r(1) h nz n(1) assms(9)
    by (simp add: fscache_request_node_def kmalloc_next_def fscache_wait_for_node_readable_def lock_node_def node_at_def set_node_def)
  then have "vfs_open call_load call_create_child (Some path) flags' m' uid' True (v\<lparr>cache := ?c2\<rparr>) = Inl Deadlock"
    using assms(9-11) by (simp add: vfs_open_def)
  ultimately show ?thesis by blast
qed

theorem open_above_root_wedges_witness:
  "\<exists>v'. vfs_open call_load call_create_child (Some ''/..'') SYSCALL_OPEN_FLAG_READ 0 0 True \<lparr>cache = demo, handles = \<lambda>_. None\<rparr> =
     Inr (- ENOENT, 0, v') \<and> vfs_open call_load call_create_child (Some ''/'') SYSCALL_OPEN_FLAG_READ 0 0 True v' = Inl Deadlock"
proof -
  have hf: "heap_fresh demo" using demo_ok(3) by (simp add: kheap_fresh_def)
  from open_above_root_wedges [of "0x1000" "\<lparr>cache = demo, handles = \<lambda>_. None\<rparr>" "[NPtr 0x3000 0 \<mapsto> 0x1000]" 0 SYSCALL_OPEN_FLAG_READ
      "''/''" SYSCALL_OPEN_FLAG_READ 0 0 0]
  show ?thesis using demo_ok hf by (auto simp: demo_root demo_access open_flag_defs)
qed

end
