(* ===== verification/Console.thy ===== *)
theory Console
  imports Prelude
begin

unbundle bit_operations_syntax

text \<open>
  The console of \<^verbatim>\<open>src/devices/kconsole.c\<close> and the first half of \<^verbatim>\<open>src/lib/stdio/stdio_out.c\<close>: drawing of
  characters on the framebuffer, scrolling, the position and the cursor, and the output of one character. The
  framebuffer is a list of bytes, and a store outside of it is a fault; the font is a parameter (\<open>gl c y\<close> is row
  \<open>y\<close> of the glyph of \<open>c\<close>, \<open>cs\<close> the height of a glyph). With serial debugging the characters go to the serial line.
\<close>

definition FONT_W :: int where "FONT_W = 9"
definition FONT_H :: int where "FONT_H = 16"

record console =
  fb_scanline :: int
  fb_width :: int
  fb_height :: int
  fb :: "u8 list"
  console_pos :: u64
  cursor :: bool
  console_access :: bool
  debug_serial :: bool
  serial :: string

type_synonym glyphs = "nat \<Rightarrow> nat \<Rightarrow> u8"

section \<open>Drawing\<close>

definition put_pixel :: "int \<Rightarrow> u32 \<Rightarrow> u8 list \<Rightarrow> u8 list kres" where
  "put_pixel off v m =
     (if off < 0 \<or> int (length m) < off + 4 then Inl BadAccess
      else let i = nat off
           in Inr (m[i := ucast v, i + 1 := ucast (drop_bit 8 v), i + 2 := ucast (drop_bit 16 v), i + 3 := ucast (drop_bit 24 v)]))"

text \<open>The pixels of a row that are left, and the rows that are left.\<close>

fun draw_row :: "nat \<Rightarrow> u8 \<Rightarrow> u8 \<Rightarrow> int \<Rightarrow> int \<Rightarrow> int \<Rightarrow> u32 \<Rightarrow> u32 \<Rightarrow> u8 list \<Rightarrow> u8 list kres" where
  "draw_row 0 glyph bits line offs scan fg bg m = Inr m"
| "draw_row (Suc k) glyph bits line offs scan fg bg m =
     (if scan \<le> line - offs then Inr m
      else bindR (put_pixel line (if glyph AND bits \<noteq> 0 then fg else bg) m)
             (draw_row k glyph (drop_bit 1 bits) (line + 4) offs scan fg bg))"

fun draw_rows :: "nat \<Rightarrow> (nat \<Rightarrow> u8) \<Rightarrow> nat \<Rightarrow> int \<Rightarrow> int \<Rightarrow> int \<Rightarrow> u32 \<Rightarrow> u32 \<Rightarrow> u8 list \<Rightarrow> u8 list kres" where
  "draw_rows 0 glyph y offs height scan fg bg m = Inr m"
| "draw_rows (Suc k) glyph y offs height scan fg bg m =
     (if height * scan \<le> offs then Inr m
      else bindR (draw_row 8 (glyph y) 0x80 offs offs scan fg bg m)
             (draw_rows k glyph (y + 1) (offs + scan) height scan fg bg))"

definition kputchar :: "glyphs \<Rightarrow> nat \<Rightarrow> nat \<Rightarrow> int \<Rightarrow> int \<Rightarrow> u32 \<Rightarrow> u32 \<Rightarrow> console \<Rightarrow> console kres" where
  "kputchar gl cs c cx cy fg bg s =
     (if fb_width s div FONT_W \<le> cx + 1 then Inr s
      else bindR (draw_rows cs (gl c) 0 (cy * int cs * fb_scanline s + cx * (8 + 1) * 4) (fb_height s) (fb_scanline s) fg bg (fb s))
             (\<lambda>m. Inr (s\<lparr>fb := m\<rparr>)))"

text \<open>A \<^verbatim>\<open>char\<close> is signed, and is widened to the \<^verbatim>\<open>unsigned short\<close> parameter with its sign.\<close>

definition char_code :: "char \<Rightarrow> nat" where
  "char_code ch = (if of_char ch < (128 :: nat) then of_char ch else of_char ch + 0xFF00)"

function kputs :: "glyphs \<Rightarrow> nat \<Rightarrow> string \<Rightarrow> int \<Rightarrow> int \<Rightarrow> console \<Rightarrow> console kres" where
  "kputs gl cs [] cx cy s = Inr s"
| "kputs gl cs (ch # str) cx cy s =
     (let w = fb_width s div FONT_W;
          cx' = (if w \<le> cx then cx - w else cx);
          cy' = (if w \<le> cx then cy + 1 else cy)
      in bindR (kputchar gl cs (char_code ch) cx' cy' 0xFFFFFF 0 s) (kputs gl cs str (cx' + 1) cy'))"
  by pat_completeness auto
termination
  by (relation "measure (\<lambda>(gl, cs, str, cx, cy, s). length str)") auto

definition hex_indices :: string where "hex_indices = ''0123456789abcdef''"

fun kputhex_digits :: "glyphs \<Rightarrow> nat \<Rightarrow> nat \<Rightarrow> u64 \<Rightarrow> int \<Rightarrow> int \<Rightarrow> console \<Rightarrow> console kres" where
  "kputhex_digits gl cs 0 adj cx cy s = Inr s"
| "kputhex_digits gl cs (Suc i) adj cx cy s =
     bindR (kputchar gl cs (char_code (hex_indices ! unat (adj AND 0xF))) (cx + int (Suc i) + 1) cy 0xFFFFFF 0 s)
       (kputhex_digits gl cs i (drop_bit 4 adj) cx cy)"

definition kputhex :: "glyphs \<Rightarrow> nat \<Rightarrow> u64 \<Rightarrow> int \<Rightarrow> int \<Rightarrow> console \<Rightarrow> console kres" where
  "kputhex gl cs hex cx cy s = bindR (kputs gl cs ''0x'' cx cy s) (kputhex_digits gl cs 16 hex cx cy)"

section \<open>Position and scrolling\<close>

definition CONSOLE_W :: "console \<Rightarrow> int" where "CONSOLE_W s = fb_width s div FONT_W"
definition CONSOLE_H :: "console \<Rightarrow> int" where "CONSOLE_H s = fb_height s div FONT_H"

definition GET_CONSOLE_X :: "console \<Rightarrow> u64" where "GET_CONSOLE_X s = console_pos s mod of_int (CONSOLE_W s)"
definition GET_CONSOLE_Y :: "console \<Rightarrow> u64" where "GET_CONSOLE_Y s = console_pos s div of_int (CONSOLE_W s)"

text \<open>The two loops over the bytes of the framebuffer.\<close>

definition scroll_bytes :: "nat \<Rightarrow> nat \<Rightarrow> u8 list \<Rightarrow> u8 list" where
  "scroll_bytes n offset m =
     foldl (\<lambda>m i. m[i := 0]) (foldl (\<lambda>m i. m[i := m ! (i + offset)]) m [0..<n - offset]) [n - offset..<n]"

definition scroll_console :: "console \<Rightarrow> console" where
  "scroll_console s = s\<lparr>
     fb := scroll_bytes (nat (fb_scanline s * fb_height s)) (nat (fb_scanline s * FONT_H)) (fb s),
     console_pos := console_pos s - of_int (CONSOLE_W s)\<rparr>"

definition scroll_if_full :: "console \<Rightarrow> console" where
  "scroll_if_full s = (if CONSOLE_H s \<le> uint (GET_CONSOLE_Y s) then scroll_console s else s)"

definition put_here :: "glyphs \<Rightarrow> nat \<Rightarrow> nat \<Rightarrow> u32 \<Rightarrow> u32 \<Rightarrow> console \<Rightarrow> console kres" where
  "put_here gl cs c fg bg s = kputchar gl cs c (uint (GET_CONSOLE_X s)) (uint (GET_CONSOLE_Y s)) fg bg s"

definition print_body :: "glyphs \<Rightarrow> nat \<Rightarrow> char \<Rightarrow> console \<Rightarrow> console kres" where
  "print_body gl cs ch s =
     (if ch = CHR 0x0A then
        bindR (if cursor s then put_here gl cs (char_code (CHR '' '')) 0xFFFFFF 0 s else Inr s) (\<lambda>s1.
          Inr (scroll_if_full (s1\<lparr>console_pos := console_pos s1 + (of_int (CONSOLE_W s1) - GET_CONSOLE_X s1)\<rparr>)))
      else
        bindR (put_here gl cs (char_code ch) 0xFFFFFF 0 s) (\<lambda>s1. Inr (s1\<lparr>console_pos := console_pos s1 + 1\<rparr>)))"

definition printf_ch :: "glyphs \<Rightarrow> nat \<Rightarrow> char \<Rightarrow> console \<Rightarrow> console kres" where
  "printf_ch gl cs ch s =
     (if debug_serial s then Inr (s\<lparr>serial := serial s @ [ch]\<rparr>)
      else bindR (print_body gl cs ch (scroll_if_full s))
             (\<lambda>s1. if cursor s1 then put_here gl cs (char_code (CHR '' '')) 0 0xFFFFFF s1 else Inr s1))"

section \<open>Operations that hold the console\<close>

definition request_console :: "console \<Rightarrow> console kres" where
  "request_console s = (if console_access s then Inl Deadlock else Inr (s\<lparr>console_access := True\<rparr>))"

definition release_console :: "console \<Rightarrow> console" where
  "release_console s = s\<lparr>console_access := False\<rparr>"

definition backs :: "glyphs \<Rightarrow> nat \<Rightarrow> console \<Rightarrow> console kres" where
  "backs gl cs s =
     bindR (request_console s) (\<lambda>s1.
     bindR (put_here gl cs (char_code (CHR '' '')) 0xFFFFFF 0 s1) (\<lambda>s2.
     bindR (put_here gl cs (char_code (CHR '' '')) 0xFFFFFF 0 (s2\<lparr>console_pos := console_pos s2 - 1\<rparr>)) (\<lambda>s3.
     bindR (if cursor s3 then put_here gl cs (char_code (CHR '' '')) 0 0xFFFFFF s3 else Inr s3) (\<lambda>s4.
       Inr (release_console s4)))))"

definition setcursor :: "glyphs \<Rightarrow> nat \<Rightarrow> bool \<Rightarrow> console \<Rightarrow> console kres" where
  "setcursor gl cs curs s =
     bindR (request_console s) (\<lambda>s1.
     bindR (put_here gl cs (char_code (CHR '' '')) 0 0xFFFFFF (s1\<lparr>cursor := curs\<rparr>)) (\<lambda>s2. Inr (release_console s2)))"

definition clear :: "console \<Rightarrow> console kres" where
  "clear s =
     bindR (request_console s) (\<lambda>s1.
       Inr (release_console (s1\<lparr>fb := foldl (\<lambda>m i. m[i := 0]) (fb s1) [0..<nat (fb_height s1 * fb_scanline s1)], console_pos := 0\<rparr>)))"

section \<open>The framebuffer stays in bounds\<close>

lemma put_pixel_ok: "0 \<le> off \<Longrightarrow> off + 4 \<le> int (length m) \<Longrightarrow> \<exists>m'. put_pixel off v m = Inr m' \<and> length m' = length m"
  by (simp add: put_pixel_def Let_def)

lemma draw_row_ok:
  "0 \<le> line \<Longrightarrow> line + 4 * int k \<le> int (length m) \<Longrightarrow>
    \<exists>m'. draw_row k glyph bits line offs scan fg bg m = Inr m' \<and> length m' = length m"
proof (induction k arbitrary: bits line m)
  case (Suc k)
  then obtain m1 where "put_pixel line (if glyph AND bits \<noteq> 0 then fg else bg) m = Inr m1" "length m1 = length m"
    using put_pixel_ok [of line m "if glyph AND bits \<noteq> 0 then fg else bg"] by auto
  then show ?case using Suc.IH [of "line + 4" m1 "drop_bit 1 bits"] Suc.prems by auto
qed simp

lemma draw_rows_ok:
  assumes "x + 32 \<le> scan" "0 \<le> x" "int (length m) = height * scan" "0 \<le> r"
  shows "\<exists>m'. draw_rows k glyph y (r * scan + x) height scan fg bg m = Inr m' \<and> length m' = length m"
  using assms
proof (induction k arbitrary: y r m)
  case (Suc k)
  have sc: "0 < scan" using Suc.prems(1,2) by simp
  show ?case
  proof (cases "height * scan \<le> r * scan + x")
    case False
    then have "r * scan < height * scan" using Suc.prems(2) by simp
    then have "r + 1 \<le> height" using sc by simp
    then have "(r + 1) * scan \<le> height * scan" using sc by simp
    then have "r * scan + x + 32 \<le> int (length m)" using Suc.prems(1,3) by (simp add: algebra_simps)
    moreover have "0 \<le> r * scan + x" using Suc.prems(2,4) sc by simp
    ultimately obtain m1 where "draw_row 8 (glyph y) 0x80 (r * scan + x) (r * scan + x) scan fg bg m = Inr m1" "length m1 = length m"
      using draw_row_ok [of "r * scan + x" 8 m] by force
    then show ?thesis using False Suc.IH [of m1 "r + 1" "y + 1"] Suc.prems by (simp add: algebra_simps)
  qed simp
qed simp

text \<open>The screen is at least one character large, a scanline holds a row of pixels, and the sizes fit an \<open>int\<close>.\<close>

definition screen_ok :: "console \<Rightarrow> bool" where
  "screen_ok s \<longleftrightarrow> 9 \<le> fb_width s \<and> 16 \<le> fb_height s \<and> 4 * fb_width s \<le> fb_scanline s \<and>
     fb_scanline s * fb_height s < 2147483648 \<and> int (length (fb s)) = fb_scanline s * fb_height s"

definition console_ok :: "console \<Rightarrow> bool" where
  "console_ok s \<longleftrightarrow> screen_ok s \<and> uint (console_pos s) \<le> CONSOLE_W s * CONSOLE_H s"

lemma kputchar_ok:
  assumes "screen_ok s" "0 \<le> cx" "0 \<le> cy"
  shows "\<exists>m. kputchar gl cs c cx cy fg bg s = Inr (s\<lparr>fb := m\<rparr>) \<and> length m = length (fb s)"
proof (cases "fb_width s div FONT_W \<le> cx + 1")
  case True
  then show ?thesis by (auto simp: kputchar_def intro: exI [of _ "fb s"])
next
  case False
  then have "(cx + 1) * 9 \<le> fb_width s" by (simp add: FONT_W_def)
  then have x: "cx * (8 + 1) * 4 + 32 \<le> fb_scanline s" "0 \<le> cx * (8 + 1) * 4" using assms by (simp_all add: screen_ok_def)
  have "0 \<le> cy * int cs" using assms(3) by simp
  from draw_rows_ok [OF x _ this, of "fb s" "fb_height s" cs "gl c" 0 fg bg] show ?thesis
    using False assms(1) by (auto simp: kputchar_def screen_ok_def mult.commute)
qed

section \<open>Scrolling moves the text up\<close>

lemma copy_up_eq:
  "k + offset \<le> length m \<Longrightarrow>
    foldl (\<lambda>m i. m[i := m ! (i + offset)]) m [0..<k] = take k (drop offset m) @ drop k m"
proof (induction k)
  case (Suc k)
  let ?l = "take k (drop offset m) @ drop k m"
  have k: "k < length m" "length (take k (drop offset m)) = k" using Suc.prems by auto
  have nth: "?l ! (k + offset) = m ! (k + offset)" using Suc.prems by (simp add: nth_append)
  have "?l[k := m ! (k + offset)] = take k (drop offset m) @ m ! (k + offset) # drop (Suc k) m"
    using k by (simp add: list_update_append Cons_nth_drop_Suc [symmetric])
  also have "\<dots> = take (Suc k) (drop offset m) @ drop (Suc k) m"
    using Suc.prems by (simp add: take_Suc_conv_app_nth add.commute)
  finally show ?case using Suc nth by simp
qed simp

lemma zero_from_eq: "i \<le> n \<Longrightarrow> n = length m \<Longrightarrow> foldl (\<lambda>m i. m[i := 0]) m [i..<n] = take i m @ replicate (n - i) 0"
proof (induction "n - i" arbitrary: i m)
  case (Suc d)
  then have lt: "i < n" by simp
  have "foldl (\<lambda>m i. m[i := 0]) (m[i := 0]) [Suc i..<n] = take (Suc i) (m[i := 0]) @ replicate (n - Suc i) 0"
    using Suc.hyps(1) [of "Suc i" "m[i := 0]"] Suc.hyps(2) Suc.prems by simp
  moreover have "take (Suc i) (m[i := 0]) = take i m @ [0]" using lt Suc.prems by (simp add: take_Suc_conv_app_nth)
  moreover have "replicate (n - i) (0 :: 'a) = 0 # replicate (n - Suc i) 0" using lt by (metis Suc_diff_Suc replicate_Suc)
  ultimately show ?case using lt by (simp add: upt_conv_Cons)
qed simp

lemma scroll_bytes_eq:
  assumes "length m = n" "offset \<le> n"
  shows "scroll_bytes n offset m = drop offset m @ replicate offset 0"
proof -
  have "foldl (\<lambda>m i. m[i := m ! (i + offset)]) m [0..<n - offset] = drop offset m @ drop (n - offset) m"
    using copy_up_eq [of "n - offset" offset m] assms by simp
  then show ?thesis
    using zero_from_eq [of "n - offset" n "drop offset m @ drop (n - offset) m"] assms by (simp add: scroll_bytes_def)
qed

section \<open>The position stays on the screen\<close>

lemma word_uint_small: "0 \<le> w \<Longrightarrow> w < 18446744073709551616 \<Longrightarrow> uint (of_int w :: u64) = w"
  using take_bit_int_eq_self [of w 64] by (simp add: uint_word_of_int_eq)

lemma console_dims:
  assumes "screen_ok s"
  shows "1 \<le> CONSOLE_W s" "1 \<le> CONSOLE_H s" "CONSOLE_W s * CONSOLE_H s < 2147483648" "CONSOLE_W s < 2147483648"
proof -
  have b: "9 \<le> fb_width s" "16 \<le> fb_height s" "4 * fb_width s \<le> fb_scanline s" "fb_scanline s * fb_height s < 2147483648"
    using assms by (simp_all add: screen_ok_def)
  show wh: "1 \<le> CONSOLE_W s" "1 \<le> CONSOLE_H s" using b by (simp_all add: CONSOLE_W_def CONSOLE_H_def FONT_W_def FONT_H_def)
  have w: "CONSOLE_W s \<le> fb_scanline s" "CONSOLE_H s \<le> fb_height s"
    using b by (auto simp: CONSOLE_W_def CONSOLE_H_def FONT_W_def FONT_H_def)
  have "CONSOLE_W s * CONSOLE_H s \<le> fb_scanline s * fb_height s"
    by (rule mult_mono) (use w wh b in auto)
  then show p: "CONSOLE_W s * CONSOLE_H s < 2147483648" using b(4) by simp
  have "CONSOLE_W s * 1 \<le> CONSOLE_W s * CONSOLE_H s" using wh by (intro mult_left_mono) auto
  then show "CONSOLE_W s < 2147483648" using p by simp
qed

lemma console_xy:
  assumes "screen_ok s"
  shows "uint (GET_CONSOLE_X s) = uint (console_pos s) mod CONSOLE_W s" "uint (GET_CONSOLE_Y s) = uint (console_pos s) div CONSOLE_W s"
  using console_dims [OF assms] word_uint_small [of "CONSOLE_W s"]
  by (simp_all add: GET_CONSOLE_X_def GET_CONSOLE_Y_def uint_mod_distrib uint_div_distrib)

text \<open>The fields that describe the screen and the other fields that writing never changes.\<close>

definition same_screen :: "console \<Rightarrow> console \<Rightarrow> bool" where
  "same_screen s s' \<longleftrightarrow> fb_scanline s' = fb_scanline s \<and> fb_width s' = fb_width s \<and> fb_height s' = fb_height s \<and>
     length (fb s') = length (fb s) \<and> cursor s' = cursor s \<and> console_access s' = console_access s \<and>
     debug_serial s' = debug_serial s"

lemma same_screenD:
  assumes "same_screen s s'"
  shows "screen_ok s' = screen_ok s" "CONSOLE_W s' = CONSOLE_W s" "CONSOLE_H s' = CONSOLE_H s" "cursor s' = cursor s"
  using assms by (auto simp: same_screen_def screen_ok_def CONSOLE_W_def CONSOLE_H_def)

lemma same_screen_refl [simp]: "same_screen s s" by (simp add: same_screen_def)

lemma same_screen_trans: "same_screen a b \<Longrightarrow> same_screen b c \<Longrightarrow> same_screen a c" by (simp add: same_screen_def)

lemma put_here_ok:
  assumes "screen_ok s"
  shows "\<exists>s'. put_here gl cs c fg bg s = Inr s' \<and> same_screen s s' \<and> console_pos s' = console_pos s \<and> serial s' = serial s"
proof -
  obtain m where "put_here gl cs c fg bg s = Inr (s\<lparr>fb := m\<rparr>)" "length m = length (fb s)"
    using kputchar_ok [OF assms, of "uint (GET_CONSOLE_X s)" "uint (GET_CONSOLE_Y s)" gl cs c fg bg] by (auto simp: put_here_def)
  then show ?thesis by (simp add: same_screen_def)
qed

lemma scroll_if_full_ok:
  assumes "console_ok s"
  shows "same_screen s (scroll_if_full s)" "uint (console_pos (scroll_if_full s)) < CONSOLE_W s * CONSOLE_H s"
    "console_ok (scroll_if_full s)"
proof -
  have sc: "screen_ok s" and p: "uint (console_pos s) \<le> CONSOLE_W s * CONSOLE_H s" using assms by (simp_all add: console_ok_def)
  note d = console_dims [OF sc] and xy = console_xy [OF sc]
  have "fb_scanline s * 16 \<le> fb_scanline s * fb_height s" using sc by (intro mult_left_mono) (auto simp: screen_ok_def)
  moreover have "length (fb s) = nat (fb_scanline s * fb_height s)" using sc by (metis nat_int screen_ok_def)
  ultimately have "length (scroll_bytes (nat (fb_scanline s * fb_height s)) (nat (fb_scanline s * FONT_H)) (fb s)) = length (fb s)"
    using scroll_bytes_eq [of "fb s" "nat (fb_scanline s * fb_height s)" "nat (fb_scanline s * FONT_H)"]
    by (simp add: FONT_H_def nat_mono)
  then show ss: "same_screen s (scroll_if_full s)" by (simp add: same_screen_def scroll_if_full_def scroll_console_def)
  have full: "CONSOLE_H s \<le> uint (GET_CONSOLE_Y s) \<longleftrightarrow> uint (console_pos s) = CONSOLE_W s * CONSOLE_H s"
  proof
    assume "CONSOLE_H s \<le> uint (GET_CONSOLE_Y s)"
    then have "CONSOLE_H s * CONSOLE_W s \<le> uint (console_pos s) div CONSOLE_W s * CONSOLE_W s" using d(1) xy(2) by simp
    also have "\<dots> \<le> uint (console_pos s)" using d(1) by (metis div_mult_mod_eq le_add_same_cancel1 pos_mod_sign zero_less_one less_le_trans)
    finally show "uint (console_pos s) = CONSOLE_W s * CONSOLE_H s" using p by (simp add: mult.commute)
  next
    assume "uint (console_pos s) = CONSOLE_W s * CONSOLE_H s"
    then show "CONSOLE_H s \<le> uint (GET_CONSOLE_Y s)" using d(1) xy(2) by simp
  qed
  have "uint (console_pos s - of_int (CONSOLE_W s)) = uint (console_pos s) - CONSOLE_W s" if "uint (console_pos s) = CONSOLE_W s * CONSOLE_H s"
  proof -
    have "CONSOLE_W s * 1 \<le> CONSOLE_W s * CONSOLE_H s" using d by (intro mult_left_mono) auto
    then have "uint (of_int (CONSOLE_W s) :: u64) \<le> uint (console_pos s)" using that d word_uint_small [of "CONSOLE_W s"] by simp
    then show ?thesis using d word_uint_small [of "CONSOLE_W s"] by (simp add: uint_sub_if')
  qed
  then show lt: "uint (console_pos (scroll_if_full s)) < CONSOLE_W s * CONSOLE_H s"
    using full p d(1) by (auto simp: scroll_if_full_def scroll_console_def)
  show "console_ok (scroll_if_full s)" using lt same_screenD [OF ss] sc by (simp add: console_ok_def)
qed

lemma move_pos:
  assumes "screen_ok s" "same_screen s s'" "uint (console_pos s') \<le> CONSOLE_W s * CONSOLE_H s"
  shows "console_ok s'"
  using assms same_screenD [OF assms(2)] by (simp add: console_ok_def)

lemma newline_pos:
  assumes sc: "screen_ok s" and lt: "uint (console_pos s) < CONSOLE_W s * CONSOLE_H s"
  shows "uint (console_pos s + (of_int (CONSOLE_W s) - GET_CONSOLE_X s)) \<le> CONSOLE_W s * CONSOLE_H s"
proof -
  note d = console_dims [OF sc] and xy = console_xy [OF sc]
  let ?p = "uint (console_pos s)" and ?w = "CONSOLE_W s"
  have "?p div ?w * ?w \<le> ?p" using d(1) div_mult_mod_eq [of ?p ?w] pos_mod_sign [of ?w ?p] by linarith
  then have "?p div ?w * ?w < CONSOLE_H s * ?w" using lt by (simp add: mult.commute)
  then have "?p div ?w < CONSOLE_H s" using d(1) by simp
  then have "(?p div ?w + 1) * ?w \<le> CONSOLE_H s * ?w" using d(1) by (intro mult_right_mono) auto
  moreover have "?p + (?w - ?p mod ?w) = (?p div ?w + 1) * ?w" by (simp add: algebra_simps minus_mod_eq_mult_div [symmetric])
  ultimately have le: "?p + (?w - ?p mod ?w) \<le> ?w * CONSOLE_H s" by (simp add: mult.commute)
  have m: "0 \<le> ?p mod ?w" "?p mod ?w < ?w" using d(1) by simp_all
  have "of_int (?p + (?w - ?p mod ?w)) = console_pos s + (of_int ?w - GET_CONSOLE_X s)"
    using xy(1) by (metis of_int_add of_int_diff word_of_int_uint)
  moreover have "0 \<le> ?p + (?w - ?p mod ?w)" using m(2) uint_ge_0 [of "console_pos s"] by linarith
  ultimately show ?thesis using word_uint_small [of "?p + (?w - ?p mod ?w)"] le d(3) by simp
qed

lemma next_pos:
  assumes sc: "screen_ok s" and lt: "uint (console_pos s) < CONSOLE_W s * CONSOLE_H s"
  shows "uint (console_pos s + 1) \<le> CONSOLE_W s * CONSOLE_H s"
proof -
  have "of_int (uint (console_pos s) + 1) = console_pos s + 1" by simp
  moreover have "uint (console_pos s) + 1 < 18446744073709551616" using lt console_dims(3) [OF sc] by simp
  ultimately show ?thesis using word_uint_small [of "uint (console_pos s) + 1"] lt by simp
qed

lemma cursor_ok:
  assumes "console_ok s"
  shows "\<exists>s'. (if cursor s then put_here gl cs c fg bg s else Inr s) = Inr s' \<and> same_screen s s' \<and>
    console_pos s' = console_pos s \<and> serial s' = serial s"
  using put_here_ok [of s gl cs c fg bg] assms by (auto simp: console_ok_def)

lemma print_body_ok:
  assumes ok: "console_ok s" and lt: "uint (console_pos s) < CONSOLE_W s * CONSOLE_H s"
  shows "\<exists>s'. print_body gl cs ch s = Inr s' \<and> console_ok s' \<and> same_screen s s' \<and> serial s' = serial s"
proof (cases "ch = CHR 0x0A")
  case True
  obtain s2 where s2: "(if cursor s then put_here gl cs (char_code (CHR '' '')) 0xFFFFFF 0 s else Inr s) = Inr s2"
    "same_screen s s2" "console_pos s2 = console_pos s" "serial s2 = serial s"
    using cursor_ok [OF ok, of gl cs "char_code (CHR '' '')" "0xFFFFFF" 0] by blast
  let ?s2' = "s2\<lparr>console_pos := console_pos s2 + (of_int (CONSOLE_W s2) - GET_CONSOLE_X s2)\<rparr>"
  have sc2: "screen_ok s2" "CONSOLE_W s2 = CONSOLE_W s" "CONSOLE_H s2 = CONSOLE_H s"
    using same_screenD [OF s2(2)] ok by (simp_all add: console_ok_def)
  have ss: "same_screen s2 ?s2'" by (simp add: same_screen_def)
  have "console_ok ?s2'"
    by (rule move_pos [OF sc2(1) ss]) (use newline_pos [OF sc2(1)] lt s2(3) sc2 in simp)
  note g = scroll_if_full_ok [OF this]
  have "serial (scroll_if_full ?s2') = serial s" using s2(4) by (simp add: scroll_if_full_def scroll_console_def)
  then show ?thesis using True s2(1) g(3) same_screen_trans [OF s2(2) same_screen_trans [OF ss g(1)]]
    by (simp add: print_body_def)
next
  case False
  have "screen_ok s" using ok by (simp add: console_ok_def)
  then obtain s2 where s2: "put_here gl cs (char_code ch) 0xFFFFFF 0 s = Inr s2" "same_screen s s2"
    "console_pos s2 = console_pos s" "serial s2 = serial s"
    using put_here_ok by blast
  have sc2: "screen_ok s2" "CONSOLE_W s2 = CONSOLE_W s" "CONSOLE_H s2 = CONSOLE_H s"
    using same_screenD [OF s2(2)] ok by (simp_all add: console_ok_def)
  let ?s2' = "s2\<lparr>console_pos := console_pos s2 + 1\<rparr>"
  have ss: "same_screen s2 ?s2'" by (simp add: same_screen_def)
  have "console_ok ?s2'" by (rule move_pos [OF sc2(1) ss]) (use next_pos [OF sc2(1)] lt s2(3) sc2 in simp)
  then show ?thesis using False s2 same_screen_trans [OF s2(2) ss] by (simp add: print_body_def)
qed

lemma printf_ch_ok:
  assumes "console_ok s"
  shows "\<exists>s'. printf_ch gl cs ch s = Inr s' \<and> console_ok s' \<and> same_screen s s' \<and>
    serial s' = (if debug_serial s then serial s @ [ch] else serial s)"
proof (cases "debug_serial s")
  case True
  then show ?thesis using assms
    by (auto simp: printf_ch_def same_screen_def console_ok_def screen_ok_def CONSOLE_W_def CONSOLE_H_def)
next
  case False
  note f = scroll_if_full_ok [OF assms]
  have se: "serial (scroll_if_full s) = serial s" by (simp add: scroll_if_full_def scroll_console_def)
  have "uint (console_pos (scroll_if_full s)) < CONSOLE_W (scroll_if_full s) * CONSOLE_H (scroll_if_full s)"
    using f(2) same_screenD [OF f(1)] by simp
  then obtain s3 where s3: "print_body gl cs ch (scroll_if_full s) = Inr s3" "console_ok s3" "same_screen (scroll_if_full s) s3"
    "serial s3 = serial (scroll_if_full s)"
    using print_body_ok [OF f(3)] by blast
  obtain s4 where s4: "(if cursor s3 then put_here gl cs (char_code (CHR '' '')) 0 0xFFFFFF s3 else Inr s3) = Inr s4"
    "same_screen s3 s4" "console_pos s4 = console_pos s3" "serial s4 = serial s3"
    using cursor_ok [OF s3(2), of gl cs "char_code (CHR '' '')" 0 "0xFFFFFF"] by blast
  have "printf_ch gl cs ch s = Inr s4" using False s3(1) s4(1) by (simp add: printf_ch_def)
  moreover have "console_ok s4" using s3(2) s4(3) same_screenD [OF s4(2)] by (simp add: console_ok_def)
  ultimately show ?thesis
    using False s3(4) s4(4) se same_screen_trans [OF f(1) same_screen_trans [OF s3(3) s4(2)]] by simp
qed

lemma same_dims:
  "screen_ok (s\<lparr>console_access := a\<rparr>) = screen_ok s" "screen_ok (s\<lparr>cursor := b\<rparr>) = screen_ok s"
  "screen_ok (s\<lparr>console_pos := p\<rparr>) = screen_ok s" "CONSOLE_W (s\<lparr>console_access := a\<rparr>) = CONSOLE_W s"
  "CONSOLE_W (s\<lparr>cursor := b\<rparr>) = CONSOLE_W s" "CONSOLE_W (s\<lparr>console_pos := p\<rparr>) = CONSOLE_W s"
  "CONSOLE_H (s\<lparr>console_access := a\<rparr>) = CONSOLE_H s" "CONSOLE_H (s\<lparr>cursor := b\<rparr>) = CONSOLE_H s"
  "CONSOLE_H (s\<lparr>console_pos := p\<rparr>) = CONSOLE_H s"
  by (simp_all add: screen_ok_def CONSOLE_W_def CONSOLE_H_def)

lemma setcursor_ok:
  assumes "console_ok s" "\<not> console_access s"
  shows "\<exists>s'. setcursor gl cs b s = Inr s' \<and> console_ok s' \<and> same_screen (s\<lparr>cursor := b\<rparr>) s'"
proof -
  have sc: "screen_ok (s\<lparr>console_access := True, cursor := b\<rparr>)" using assms(1) by (simp add: console_ok_def same_dims)
  obtain s2 where s2: "put_here gl cs (char_code (CHR '' '')) 0 0xFFFFFF (s\<lparr>console_access := True, cursor := b\<rparr>) = Inr s2"
    "same_screen (s\<lparr>console_access := True, cursor := b\<rparr>) s2" "console_pos s2 = console_pos s"
    using put_here_ok [OF sc] by fastforce
  have "same_screen (s\<lparr>cursor := b\<rparr>) (release_console s2)" using s2(2) assms(2) by (simp add: same_screen_def release_console_def)
  moreover have "console_ok (release_console s2)"
    using same_screenD [OF s2(2)] assms(1) s2(3) by (simp add: console_ok_def release_console_def same_dims)
  ultimately show ?thesis using s2(1) assms(2) by (simp add: setcursor_def request_console_def)
qed

lemma clear_ok:
  assumes "console_ok s" "\<not> console_access s"
  shows "\<exists>s'. clear s = Inr s' \<and> console_ok s' \<and> same_screen s s' \<and> fb s' = replicate (length (fb s)) 0"
proof -
  have "nat (fb_height s * fb_scanline s) = length (fb s)"
    using assms(1) by (metis console_ok_def mult.commute nat_int screen_ok_def)
  then have z: "foldl (\<lambda>m i. m[i := 0]) (fb s) [0..<nat (fb_height s * fb_scanline s)] = replicate (length (fb s)) 0"
    using zero_from_eq [of 0 "length (fb s)" "fb s"] by simp
  let ?s = "s\<lparr>console_access := False, fb := replicate (length (fb s)) 0, console_pos := 0\<rparr>"
  have "same_screen s ?s" using assms(2) by (simp add: same_screen_def)
  moreover have "console_ok ?s"
  proof (rule move_pos)
    show "uint (console_pos ?s) \<le> CONSOLE_W s * CONSOLE_H s"
      using console_dims(1,2) [of s] assms(1) by (simp add: console_ok_def)
  qed (use assms calculation in \<open>auto simp: console_ok_def\<close>)
  moreover have "clear s = Inr ?s" using assms(2) z by (simp add: clear_def request_console_def release_console_def)
  ultimately show ?thesis by simp
qed

lemma backs_ok:
  assumes "console_ok s" "\<not> console_access s" "0 < console_pos s"
  shows "\<exists>s'. backs gl cs s = Inr s' \<and> console_ok s' \<and> same_screen s s' \<and> console_pos s' = console_pos s - 1"
proof -
  let ?sp = "char_code (CHR '' '')"
  let ?s1 = "s\<lparr>console_access := True\<rparr>"
  have sc: "screen_ok ?s1" using assms(1) by (simp add: console_ok_def same_dims)
  obtain s2 where s2: "put_here gl cs ?sp 0xFFFFFF 0 ?s1 = Inr s2" "same_screen ?s1 s2" "console_pos s2 = console_pos s"
    using put_here_ok [OF sc] by fastforce
  let ?s2 = "s2\<lparr>console_pos := console_pos s2 - 1\<rparr>"
  have ss2: "same_screen ?s1 ?s2" using s2(2) by (simp add: same_screen_def)
  have sc2: "screen_ok ?s2" using same_screenD(1) [OF ss2] sc by simp
  obtain s3 where s3: "put_here gl cs ?sp 0xFFFFFF 0 ?s2 = Inr s3" "same_screen ?s2 s3" "console_pos s3 = console_pos s - 1"
    using put_here_ok [OF sc2] s2(3) by fastforce
  note ss3 = same_screen_trans [OF ss2 s3(2)]
  have "uint (console_pos s - 1) = uint (console_pos s) - 1"
    using assms(3) by (simp add: uint_sub_if' word_less_def)
  then have ok3: "console_ok s3"
    using assms(1) s3(3) same_screenD [OF ss3] by (simp add: console_ok_def same_dims)
  obtain s4 where s4: "(if cursor s3 then put_here gl cs ?sp 0 0xFFFFFF s3 else Inr s3) = Inr s4" "same_screen s3 s4"
    "console_pos s4 = console_pos s3"
    using cursor_ok [OF ok3, of gl cs ?sp 0 "0xFFFFFF"] by blast
  note ss4 = same_screen_trans [OF ss3 s4(2)]
  have "same_screen s (release_console s4)" using ss4 assms(2) by (simp add: same_screen_def release_console_def)
  moreover have "console_ok (release_console s4)"
    using ok3 s4(3) same_screenD [OF s4(2)] by (simp add: console_ok_def release_console_def same_dims)
  moreover have "backs gl cs s = Inr (release_console s4)"
    using assms(2) s2(1) s3(1) s4(1) by (simp add: backs_def request_console_def)
  ultimately show ?thesis using s3(3) s4(3) by (simp add: release_console_def)
qed

section \<open>Properties\<close>

definition demo_console :: console where
  "demo_console = \<lparr>fb_scanline = 72, fb_width = 18, fb_height = 32, fb = replicate 2304 0, console_pos = 3, cursor = True,
     console_access = False, debug_serial = False, serial = []\<rparr>"

lemma demo_console_ok: "console_ok demo_console"
  by (simp add: console_ok_def screen_ok_def demo_console_def CONSOLE_W_def CONSOLE_H_def FONT_W_def FONT_H_def)



end
