(* ===== verification/Printf.thy ===== *)
theory Printf
  imports Console
begin

unbundle bit_operations_syntax

text \<open>
  Formatted output, the second half of \<^verbatim>\<open>src/lib/stdio/stdio_out.c\<close>. The digit buffers have the size the source gives
  them, 4 characters for 32-bit numbers and 7 for 64-bit ones, and a store past their end is a fault. A format is
  the list of its characters before the terminator; reading past the terminator is a fault. The variable
  arguments are a list of typed values, and taking an argument of another type, or one that is not there, is a
  fault.
\<close>

fun printf_chars :: "glyphs \<Rightarrow> nat \<Rightarrow> string \<Rightarrow> console \<Rightarrow> console kres" where
  "printf_chars gl cs [] s = Inr s"
| "printf_chars gl cs (ch # str) s = bindR (printf_ch gl cs ch s) (printf_chars gl cs str)"

definition printf_str :: "glyphs \<Rightarrow> nat \<Rightarrow> string \<Rightarrow> u16 \<Rightarrow> console \<Rightarrow> console kres" where
  "printf_str gl cs str max_chars s = printf_chars gl cs (take (unat max_chars) str) s"

section \<open>Numbers\<close>

text \<open>The loops that fill the digit buffer of a given capacity, least significant digit first.\<close>

function bin_fill :: "nat \<Rightarrow> nat \<Rightarrow> string \<Rightarrow> string kres" where
  "bin_fill cap binary vals =
     (if binary \<noteq> 0 \<or> vals = [] then
        if cap \<le> length vals then Inl BadAccess
        else bin_fill cap (binary div 2) (vals @ [hex_indices ! (binary mod 2)])
      else Inr vals)"
  by pat_completeness auto
termination
  by (relation "measure (\<lambda>(cap, binary, vals). cap - length vals)") auto

function dec_fill :: "nat \<Rightarrow> nat \<Rightarrow> string \<Rightarrow> string kres" where
  "dec_fill cap adj vals =
     (if adj \<noteq> 0 \<or> vals = [] then
        if cap \<le> length vals then Inl BadAccess
        else dec_fill cap (adj div 10) (vals @ [hex_indices ! (adj mod 10)])
      else Inr vals)"
  by pat_completeness auto
termination
  by (relation "measure (\<lambda>(cap, adj, vals). cap - length vals)") auto

function pad_fill :: "nat \<Rightarrow> nat \<Rightarrow> string \<Rightarrow> string kres" where
  "pad_fill cap min_digits vals =
     (if length vals < min_digits then
        if cap \<le> length vals then Inl BadAccess else pad_fill cap min_digits (vals @ [CHR ''0''])
      else Inr vals)"
  by pat_completeness auto
termination
  by (relation "measure (\<lambda>(cap, min_digits, vals). cap - length vals)") auto

declare bin_fill.simps [simp del] dec_fill.simps [simp del] pad_fill.simps [simp del]

definition printf_binary :: "glyphs \<Rightarrow> nat \<Rightarrow> u64 \<Rightarrow> console \<Rightarrow> console kres" where
  "printf_binary gl cs binary s = bindR (bin_fill 64 (unat binary) []) (\<lambda>vals. printf_chars gl cs (rev vals) s)"

definition printf_int :: "glyphs \<Rightarrow> nat \<Rightarrow> u32 \<Rightarrow> u16 \<Rightarrow> console \<Rightarrow> console kres" where
  "printf_int gl cs num min_digits s =
     bindR (if sint num < 0 then printf_ch gl cs (CHR ''-'') s else Inr s) (\<lambda>s1.
     bindR (dec_fill 4 (unat (if sint num < 0 then - num else num)) []) (\<lambda>vals.
     bindR (pad_fill 4 (unat min_digits) vals) (\<lambda>vals1. printf_chars gl cs (rev vals1) s1)))"

definition printf_uint :: "glyphs \<Rightarrow> nat \<Rightarrow> u32 \<Rightarrow> console \<Rightarrow> console kres" where
  "printf_uint gl cs num s = bindR (dec_fill 4 (unat num) []) (\<lambda>vals. printf_chars gl cs (rev vals) s)"

definition printf_long :: "glyphs \<Rightarrow> nat \<Rightarrow> u64 \<Rightarrow> u16 \<Rightarrow> console \<Rightarrow> console kres" where
  "printf_long gl cs num min_digits s =
     bindR (if sint num < 0 then printf_ch gl cs (CHR ''-'') s else Inr s) (\<lambda>s1.
     bindR (dec_fill 7 (unat (if sint num < 0 then - num else num)) []) (\<lambda>vals.
     bindR (pad_fill 7 (unat min_digits) vals) (\<lambda>vals1. printf_chars gl cs (rev vals1) s1)))"

definition printf_ulong :: "glyphs \<Rightarrow> nat \<Rightarrow> u64 \<Rightarrow> console \<Rightarrow> console kres" where
  "printf_ulong gl cs num s = bindR (dec_fill 7 (unat num) []) (\<lambda>vals. printf_chars gl cs (rev vals) s)"

text \<open>The digits that are left; a leading zero beyond the padding is skipped.\<close>

fun hex_digits :: "nat \<Rightarrow> u16 \<Rightarrow> u64 \<Rightarrow> bool \<Rightarrow> string" where
  "hex_digits 0 pad_to adj started = []"
| "hex_digits (Suc r) pad_to adj started =
     (if pad_to \<noteq> 0 \<and> unat pad_to < Suc r \<and> adj AND 0xF0000000 = 0 \<and> \<not> started
      then hex_digits r pad_to (push_bit 4 adj) started
      else hex_indices ! unat (drop_bit 28 (adj AND 0xF0000000)) # hex_digits r pad_to (push_bit 4 (adj AND 0x0FFFFFFF)) True)"

definition printf_hex :: "glyphs \<Rightarrow> nat \<Rightarrow> u32 \<Rightarrow> u16 \<Rightarrow> console \<Rightarrow> console kres" where
  "printf_hex gl cs hex pad_to s =
     bindR (printf_str gl cs ''0x'' 2 s) (printf_chars gl cs (hex_digits 8 pad_to (ucast hex) False))"

fun hex_long_digits :: "nat \<Rightarrow> u16 \<Rightarrow> u64 \<Rightarrow> bool \<Rightarrow> string" where
  "hex_long_digits 0 pad_to adj started = []"
| "hex_long_digits (Suc r) pad_to adj started =
     (if pad_to \<noteq> 0 \<and> unat pad_to < Suc r \<and> adj AND 0xF000000000000000 = 0 \<and> \<not> started
      then hex_long_digits r pad_to (push_bit 4 adj) started
      else hex_indices ! unat (drop_bit 60 (adj AND 0xF000000000000000)) #
             hex_long_digits r pad_to (push_bit 4 (adj AND 0x0FFFFFFFFFFFFFFF)) True)"

definition printf_hex_long :: "glyphs \<Rightarrow> nat \<Rightarrow> u64 \<Rightarrow> u16 \<Rightarrow> console \<Rightarrow> console kres" where
  "printf_hex_long gl cs hex pad_to s =
     bindR (printf_str gl cs ''0x'' 2 s) (printf_chars gl cs (hex_long_digits 16 pad_to hex False))"

section \<open>Formats\<close>

datatype va = Int32 u32 | Int64 u64 | Str string | Ptr u64

text \<open>\<^verbatim>\<open>va_arg\<close> at the types the formats use; the last one takes an argument of any type.\<close>

fun va_int :: "va list \<Rightarrow> (u32 \<times> va list) kres" where
  "va_int (Int32 x # args) = Inr (x, args)"
| "va_int args = Inl BadAccess"

fun va_long :: "va list \<Rightarrow> (u64 \<times> va list) kres" where
  "va_long (Int64 x # args) = Inr (x, args)"
| "va_long args = Inl BadAccess"

fun va_str :: "va list \<Rightarrow> (string \<times> va list) kres" where
  "va_str (Str x # args) = Inr (x, args)"
| "va_str args = Inl BadAccess"

fun va_ptr :: "va list \<Rightarrow> (u64 \<times> va list) kres" where
  "va_ptr (Ptr x # args) = Inr (x, args)"
| "va_ptr args = Inl BadAccess"

fun va_skip :: "va list \<Rightarrow> va list kres" where
  "va_skip (a # args) = Inr args"
| "va_skip [] = Inl BadAccess"

text \<open>Taking an argument and printing it.\<close>

definition with_arg :: "('a \<times> va list) kres \<Rightarrow> ('a \<Rightarrow> console \<Rightarrow> console kres) \<Rightarrow> console \<Rightarrow> (va list \<times> console) kres" where
  "with_arg arg out s = bindR arg (\<lambda>(x, args). bindR (out x s) (\<lambda>s1. Inr (args, s1)))"

definition char_arg :: "u32 \<Rightarrow> char" where "char_arg x = char_of (unat x mod 256)"

definition conversion :: "glyphs \<Rightarrow> nat \<Rightarrow> char \<Rightarrow> va list \<Rightarrow> console \<Rightarrow> (va list \<times> console) kres" where
  "conversion gl cs c args s =
     (if c = CHR ''d'' \<or> c = CHR ''i'' then with_arg (va_int args) (\<lambda>x. printf_int gl cs x 0) s
      else if c = CHR ''u'' then with_arg (va_int args) (printf_uint gl cs) s
      else if c = CHR ''b'' then with_arg (va_long args) (printf_binary gl cs) s
      else if c = CHR ''B'' then bindR (printf_str gl cs ''0b'' 2 s) (with_arg (va_long args) (printf_binary gl cs))
      else if c = CHR ''f'' then Inr (args, s)
      else if c = CHR ''c'' then with_arg (va_int args) (\<lambda>x. printf_ch gl cs (char_arg x)) s
      else if c = CHR ''s'' then with_arg (va_str args) (\<lambda>x. printf_str gl cs x (- 1)) s
      else if c = CHR ''x'' then with_arg (va_int args) (\<lambda>x. printf_hex gl cs x 0) s
      else if c = CHR ''p'' then with_arg (va_ptr args) (\<lambda>x. printf_hex_long gl cs x 0) s
      else bindR (printf_ch gl cs c s) (\<lambda>s1. Inr (args, s1)))"

definition long_conversion :: "glyphs \<Rightarrow> nat \<Rightarrow> char \<Rightarrow> va list \<Rightarrow> console \<Rightarrow> (va list \<times> console) kres" where
  "long_conversion gl cs c args s =
     (if c = CHR ''d'' then with_arg (va_long args) (\<lambda>x. printf_long gl cs x 0) s
      else if c = CHR ''u'' then with_arg (va_long args) (printf_ulong gl cs) s
      else bindR (va_skip args) (\<lambda>rest. Inr (rest, s)))"

definition precise_conversion :: "glyphs \<Rightarrow> nat \<Rightarrow> u16 \<Rightarrow> char \<Rightarrow> va list \<Rightarrow> console \<Rightarrow> (va list \<times> console) kres" where
  "precise_conversion gl cs precision c args s =
     (if c = CHR ''s'' then with_arg (va_str args) (\<lambda>x. printf_str gl cs x precision) s
      else if c = CHR ''d'' then with_arg (va_int args) (\<lambda>x. printf_int gl cs x precision) s
      else if c = CHR ''f'' then Inr (args, s)
      else if c = CHR ''x'' then with_arg (va_int args) (\<lambda>x. printf_hex gl cs x precision) s
      else bindR (va_skip args) (\<lambda>rest. Inr (rest, s)))"

definition is_digit :: "char \<Rightarrow> bool" where
  "is_digit c \<longleftrightarrow> (48 :: nat) \<le> of_char c \<and> of_char c \<le> (57 :: nat)"

definition read_precision :: "string \<Rightarrow> u16" where
  "read_precision ds = foldl (\<lambda>p c. p * 10 + (of_char c - 48)) 0 ds"

lemma dropWhile_shorter: "dropWhile P xs = y # ys \<Longrightarrow> length ys < length xs"
  by (metis Suc_le_lessD length_Cons length_dropWhile_le)

text \<open>A format that ends inside a specification makes the loop step over the terminator and read past it.\<close>

function printf_internal :: "glyphs \<Rightarrow> nat \<Rightarrow> string \<Rightarrow> va list \<Rightarrow> console \<Rightarrow> (va list \<times> console) kres" where
  "printf_internal gl cs [] args s = Inr (args, s)"
| "printf_internal gl cs (c # fmt) args s =
     (if c \<noteq> CHR ''%'' then bindR (printf_ch gl cs c s) (printf_internal gl cs fmt args)
      else (case fmt of
              [] \<Rightarrow> bindR (printf_ch gl cs (CHR 0x00) s) (\<lambda>s1. Inl BadAccess)
            | d # fmt1 \<Rightarrow>
                if d = CHR ''l'' then
                  (case fmt1 of
                     [] \<Rightarrow> bindR (va_skip args) (\<lambda>rest. Inl BadAccess)
                   | e # fmt2 \<Rightarrow> bindR (long_conversion gl cs e args s) (\<lambda>(rest, s1). printf_internal gl cs fmt2 rest s1))
                else if d = CHR ''.'' \<or> d = CHR ''0'' then
                  (case dropWhile is_digit fmt1 of
                     [] \<Rightarrow> bindR (va_skip args) (\<lambda>rest. Inl BadAccess)
                   | e # fmt2 \<Rightarrow> bindR (precise_conversion gl cs (read_precision (takeWhile is_digit fmt1)) e args s)
                                   (\<lambda>(rest, s1). printf_internal gl cs fmt2 rest s1))
                else bindR (conversion gl cs d args s) (\<lambda>(rest, s1). printf_internal gl cs fmt1 rest s1)))"
  by pat_completeness auto
termination
  by (relation "measure (\<lambda>(gl, cs, fmt, args, s). length fmt)") (auto dest!: dropWhile_shorter)

declare printf_internal.simps [simp del]

definition printf_nolock :: "glyphs \<Rightarrow> nat \<Rightarrow> string \<Rightarrow> va list \<Rightarrow> console \<Rightarrow> (int \<times> console) kres" where
  "printf_nolock gl cs fmt args s = bindR (printf_internal gl cs fmt args s) (\<lambda>(rest, s1). Inr (0, s1))"

definition printf :: "glyphs \<Rightarrow> nat \<Rightarrow> string \<Rightarrow> va list \<Rightarrow> console \<Rightarrow> (int \<times> console) kres" where
  "printf gl cs fmt args s =
     bindR (request_console s) (\<lambda>s1.
     bindR (printf_internal gl cs fmt args s1) (\<lambda>(rest, s2). Inr (0, release_console s2)))"

section \<open>Kernel messages\<close>

datatype kernel_msg_level =
  KERNEL_PANIC | KERNEL_SEVERE_FAULT | KERNEL_SEVERE_EXTERNAL_FAULT | KERNEL_EXTERNAL_FAULT | KERNEL_WARN | KERNEL_INFO
| KERNEL_DEBUG_0 | KERNEL_DEBUG_1 | KERNEL_DEBUG_2 | USER_FAULT | USER_WARN

definition colour :: "char \<Rightarrow> string" where "colour c = CHR 0x1B # ''[0;3'' @ [c] @ ''m''"

definition TEXT_RED :: string where "TEXT_RED = colour (CHR ''1'')"
definition TEXT_YELLOW :: string where "TEXT_YELLOW = colour (CHR ''3'')"
definition TEXT_BLUE :: string where "TEXT_BLUE = colour (CHR ''4'')"
definition TEXT_MAGENTA :: string where "TEXT_MAGENTA = colour (CHR ''5'')"
definition TEXT_CYAN :: string where "TEXT_CYAN = colour (CHR ''6'')"
definition TEXT_RESET :: string where "TEXT_RESET = CHR 0x1B # ''[0;0m''"

text \<open>The case of an external fault has no break and runs on into the case of a warning.\<close>

definition level_text :: "kernel_msg_level \<Rightarrow> string" where
  "level_text level =
     (case level of
        KERNEL_PANIC \<Rightarrow> TEXT_RED
      | KERNEL_SEVERE_FAULT \<Rightarrow> TEXT_RED
      | KERNEL_SEVERE_EXTERNAL_FAULT \<Rightarrow> TEXT_RED
      | KERNEL_EXTERNAL_FAULT \<Rightarrow> TEXT_MAGENTA @ TEXT_YELLOW
      | KERNEL_WARN \<Rightarrow> TEXT_YELLOW
      | USER_FAULT \<Rightarrow> TEXT_CYAN @ ''(userspace fault) ''
      | USER_WARN \<Rightarrow> TEXT_CYAN @ ''(userspace warn) ''
      | _ \<Rightarrow> TEXT_BLUE)"

definition set_level :: "glyphs \<Rightarrow> nat \<Rightarrow> kernel_msg_level \<Rightarrow> console \<Rightarrow> console kres" where
  "set_level gl cs level s = printf_chars gl cs (level_text level) s"

text \<open>The end of a panic: the message again on the other output, after \<^verbatim>\<open>va_end\<close> and so with no arguments to
  take, and then \<^verbatim>\<open>panic_nomsg\<close>, which does not return.\<close>

definition panic_again :: "glyphs \<Rightarrow> nat \<Rightarrow> string \<Rightarrow> console \<Rightarrow> 'a kres" where
  "panic_again gl cs fmt s =
     bindR (printf_internal gl cs fmt [] (s\<lparr>debug_serial := \<not> debug_serial s\<rparr>)) (\<lambda>r. Inl Halt)"

definition kout :: "glyphs \<Rightarrow> nat \<Rightarrow> kernel_msg_level \<Rightarrow> string \<Rightarrow> va list \<Rightarrow> console \<Rightarrow> (int \<times> console) kres" where
  "kout gl cs level fmt args s =
     bindR (if level = KERNEL_PANIC then Inr s else request_console s) (\<lambda>s1.
     bindR (set_level gl cs level s1) (\<lambda>s2.
     bindR (printf_internal gl cs fmt args s2) (\<lambda>(rest, s3).
       if level = KERNEL_PANIC then panic_again gl cs fmt s3
       else bindR (printf_str gl cs TEXT_RESET (- 1) s3) (\<lambda>s4. Inr (0, release_console s4)))))"

definition kout_nolock :: "glyphs \<Rightarrow> nat \<Rightarrow> kernel_msg_level \<Rightarrow> string \<Rightarrow> va list \<Rightarrow> console \<Rightarrow> (int \<times> console) kres" where
  "kout_nolock gl cs level fmt args s =
     bindR (set_level gl cs level s) (\<lambda>s1.
     bindR (printf_internal gl cs fmt args s1) (\<lambda>(rest, s2).
       if level = KERNEL_PANIC then panic_again gl cs fmt s2
       else bindR (printf_str gl cs TEXT_RESET (- 1) s2) (\<lambda>s3. Inr (0, s3))))"

definition panic :: "glyphs \<Rightarrow> nat \<Rightarrow> string \<Rightarrow> va list \<Rightarrow> console \<Rightarrow> 'a kres" where
  "panic gl cs fmt args s =
     bindR (set_level gl cs KERNEL_PANIC s) (\<lambda>s1.
     bindR (printf_internal gl cs fmt args s1) (\<lambda>(rest, s2). panic_again gl cs fmt s2))"

section \<open>Decimal numbers\<close>

text \<open>The decimal digits of a number, least significant first, and the number they stand for.\<close>

fun lsd :: "nat \<Rightarrow> string" where
  "lsd n = (if n < 10 then [hex_indices ! n] else hex_indices ! (n mod 10) # lsd (n div 10))"

declare lsd.simps [simp del]

definition digit_val :: "char \<Rightarrow> nat" where "digit_val c = of_char c - 48"

definition read_dec :: "string \<Rightarrow> nat" where
  "read_dec str = foldl (\<lambda>a c. 10 * a + digit_val c) 0 str"

lemma lsd_nonempty [simp]: "lsd n \<noteq> []" by (subst lsd.simps) simp

lemma length_lsd: "length (lsd n) \<le> Suc k \<longleftrightarrow> n < 10 ^ Suc k"
proof (induction n arbitrary: k rule: lsd.induct)
  case (1 n)
  show ?case
  proof (cases "n < 10")
    case True
    then have "n < 10 ^ Suc k" by (simp add: order_less_le_trans)
    then show ?thesis using True by (simp add: lsd.simps [of n])
  next
    case False
    have "length (lsd (n div 10)) \<le> k \<longleftrightarrow> n div 10 < 10 ^ k"
    proof (cases k)
      case 0
      have "0 < length (lsd (n div 10))" by simp
      then show ?thesis using 0 False by simp
    next
      case (Suc j)
      then show ?thesis using "1.IH" [OF False, of j] by simp
    qed
    also have "\<dots> \<longleftrightarrow> n < 10 ^ Suc k" by (simp add: div_less_iff_less_mult mult.commute)
    finally show ?thesis using False by (simp add: lsd.simps [of n])
  qed
qed

lemma dec_fill_eq:
  "dec_fill cap adj vals =
     (if adj = 0 \<and> vals \<noteq> [] then Inr vals
      else if length vals + length (lsd adj) \<le> cap then Inr (vals @ lsd adj) else Inl BadAccess)"
proof (induction cap adj vals rule: dec_fill.induct)
  case (1 cap adj vals)
  have len: "1 \<le> length (lsd adj)" by (simp add: Suc_le_eq)
  show ?case
  proof (cases "(adj \<noteq> 0 \<or> vals = []) \<and> length vals < cap")
    case True
    then have "dec_fill cap adj vals = dec_fill cap (adj div 10) (vals @ [hex_indices ! (adj mod 10)])"
      by (subst dec_fill.simps) auto
    also have "\<dots> = (if adj div 10 = 0 then Inr (vals @ [hex_indices ! (adj mod 10)])
        else if length vals + 1 + length (lsd (adj div 10)) \<le> cap then Inr (vals @ [hex_indices ! (adj mod 10)] @ lsd (adj div 10))
        else Inl BadAccess)"
      using True by (subst "1.IH") auto
    finally show ?thesis using True by (auto simp: lsd.simps [of adj])
  next
    case False
    then show ?thesis using len by (subst dec_fill.simps) auto
  qed
qed

lemma pad_fill_eq:
  "pad_fill cap k vals =
     (if k \<le> length vals then Inr vals else if k \<le> cap then Inr (vals @ replicate (k - length vals) (CHR ''0'')) else Inl BadAccess)"
proof (induction cap k vals rule: pad_fill.induct)
  case (1 cap k vals)
  show ?case
  proof (cases "length vals < k \<and> length vals < cap")
    case True
    then have "pad_fill cap k vals = pad_fill cap k (vals @ [CHR ''0''])" by (subst pad_fill.simps) auto
    moreover have "replicate (k - length vals) (CHR ''0'') = CHR ''0'' # replicate (k - Suc (length vals)) (CHR ''0'')"
      using True by (metis Suc_diff_Suc replicate_Suc)
    ultimately show ?thesis using True "1.IH" by auto
  next
    case False
    then show ?thesis by (subst pad_fill.simps) auto
  qed
qed

lemma digit_val_index: "d < 10 \<Longrightarrow> digit_val (hex_indices ! d) = d"
proof -
  assume "d < 10"
  then have "d \<in> {0, 1, 2, 3, 4, 5, 6, 7, 8, 9}" by auto
  then show ?thesis by (auto simp: digit_val_def hex_indices_def)
qed

lemma read_dec_lsd: "read_dec (rev (lsd n)) = n"
proof -
  have "foldr (\<lambda>c a. 10 * a + digit_val c) (lsd n) 0 = n"
  proof (induction n rule: lsd.induct)
    case (1 n)
    show ?case
    proof (cases "n < 10")
      case True
      then show ?thesis by (simp add: lsd.simps [of n] digit_val_index)
    next
      case False
      then show ?thesis using 1 by (simp add: lsd.simps [of n] digit_val_index)
    qed
  qed
  then show ?thesis by (simp add: read_dec_def foldl_conv_foldr)
qed

lemma read_dec_zeros: "read_dec (replicate k (CHR ''0'') @ str) = read_dec str"
  by (induction k) (simp_all add: read_dec_def digit_val_def)

lemma digits_no_sign: "hd (replicate k (CHR ''0'') @ rev (lsd n)) \<noteq> CHR ''-''"
proof -
  have "c \<noteq> CHR ''-''" if "c \<in> set (lsd n)" for c
    using that
  proof (induction n rule: lsd.induct)
    case (1 n)
    have i: "hex_indices ! d \<noteq> CHR ''-''" if "d < 10" for d
    proof -
      have "d \<in> {0, 1, 2, 3, 4, 5, 6, 7, 8, 9}" using that by auto
      then show ?thesis by (auto simp: hex_indices_def)
    qed
    show ?case using "1.prems" "1.IH" i [of n] i [of "n mod 10"] by (cases "n < 10") (auto simp: lsd.simps [of n])
  qed
  then show ?thesis by (cases k) (auto simp: hd_rev)
qed

text \<open>The text of a number with a minimal number of digits, and the number a text stands for.\<close>

definition dec_text :: "int \<Rightarrow> nat \<Rightarrow> string" where
  "dec_text x k = (let ds = lsd (nat \<bar>x\<bar>) in (if x < 0 then ''-'' else []) @ replicate (k - length ds) (CHR ''0'') @ rev ds)"

definition read_text :: "string \<Rightarrow> int" where
  "read_text str = (if str \<noteq> [] \<and> hd str = CHR ''-'' then - int (read_dec (tl str)) else int (read_dec str))"

lemma read_dec_text: "read_text (dec_text x k) = x"
  using digits_no_sign [of "k - length (lsd (nat \<bar>x\<bar>))" "nat \<bar>x\<bar>"]
  by (auto simp: read_text_def dec_text_def Let_def read_dec_zeros read_dec_lsd)

lemma number_eq:
  assumes "0 < cap"
  shows "bindR (dec_fill cap n []) (\<lambda>vals. bindR (pad_fill cap k vals) (\<lambda>vals1. printf_chars gl cs (rev vals1) s)) =
    (if n < 10 ^ cap \<and> k \<le> cap then printf_chars gl cs (replicate (k - length (lsd n)) (CHR ''0'') @ rev (lsd n)) s
     else Inl BadAccess)"
proof -
  obtain c where c: "cap = Suc c" using assms by (cases cap) auto
  show ?thesis using length_lsd [of n c] by (auto simp: c dec_fill_eq pad_fill_eq)
qed

lemma printf_chars_append: "printf_chars gl cs (a @ b) s = bindR (printf_chars gl cs a s) (printf_chars gl cs b)"
  by (induction a arbitrary: s) (auto simp: bindR_def split: sum.splits)

lemma printf_chars_ok:
  "console_ok s \<Longrightarrow> \<exists>s'. printf_chars gl cs str s = Inr s' \<and> console_ok s' \<and> same_screen s s' \<and>
    serial s' = (if debug_serial s then serial s @ str else serial s)"
proof (induction str arbitrary: s)
  case (Cons ch str)
  obtain s1 where s1: "printf_ch gl cs ch s = Inr s1" "console_ok s1" "same_screen s s1"
    "serial s1 = (if debug_serial s then serial s @ [ch] else serial s)"
    using printf_ch_ok [OF Cons.prems] by blast
  obtain s2 where s2: "printf_chars gl cs str s1 = Inr s2" "console_ok s2" "same_screen s1 s2"
    "serial s2 = (if debug_serial s1 then serial s1 @ str else serial s1)"
    using Cons.IH [OF s1(2)] by blast
  have "debug_serial s1 = debug_serial s" using s1(3) by (simp add: same_screen_def)
  then show ?case using s1 s2 same_screen_trans [OF s1(3) s2(3)] by simp
qed simp

lemma unat_abs: "unat (if sint x < 0 then - x else x) = nat \<bar>sint x\<bar>" for x :: "'a::len word"
proof -
  have x: "word_of_int (sint x) = x" by simp
  have "\<bar>sint x\<bar> \<le> 2 ^ (LENGTH('a) - 1)" using sint_ge [of x] sint_lt [of x] by linarith
  also have "\<dots> < (2 :: int) ^ LENGTH('a)" by (simp add: power_strict_increasing)
  finally have "uint (word_of_int \<bar>sint x\<bar> :: 'a word) = \<bar>sint x\<bar>" by (simp add: uint_word_of_int_eq take_bit_int_eq_self)
  moreover have "(if sint x < 0 then - x else x) = word_of_int \<bar>sint x\<bar>"
    using x by (simp add: abs_if)
  ultimately show ?thesis by (metis unat_eq_nat_uint)
qed

lemma signed_number:
  assumes ok: "console_ok s" and cap: "0 < cap"
  shows "bindR (if sint num < 0 then printf_ch gl cs (CHR ''-'') s else Inr s) (\<lambda>s1.
     bindR (dec_fill cap (unat (if sint num < 0 then - num else num)) []) (\<lambda>vals.
     bindR (pad_fill cap k vals) (\<lambda>vals1. printf_chars gl cs (rev vals1) s1))) =
    (if \<bar>sint num\<bar> < 10 ^ cap \<and> k \<le> cap then printf_chars gl cs (dec_text (sint num) k) s else Inl BadAccess)"
proof -
  have lt: "nat \<bar>sint num\<bar> < 10 ^ cap \<longleftrightarrow> \<bar>sint num\<bar> < 10 ^ cap"
    by (metis abs_ge_zero nat_less_iff of_nat_numeral of_nat_power)
  obtain s1 where "printf_ch gl cs (CHR ''-'') s = Inr s1" using printf_ch_ok [OF ok] by blast
  then show ?thesis
    unfolding unat_abs using lt by (auto simp: number_eq [OF cap] dec_text_def Let_def)
qed

lemma unsigned_number:
  "0 < cap \<Longrightarrow> bindR (dec_fill cap n []) (\<lambda>vals. printf_chars gl cs (rev vals) s) =
    (if n < 10 ^ cap then printf_chars gl cs (dec_text (int n) 0) s else Inl BadAccess)"
  using length_lsd [of n "cap - 1"] by (auto simp: dec_fill_eq dec_text_def Let_def)

section \<open>Hexadecimal numbers\<close>

definition hex_val :: "char \<Rightarrow> nat" where
  "hex_val c = (if of_char c < (58 :: nat) then of_char c - 48 else of_char c - 87)"

definition read_hex :: "string \<Rightarrow> nat" where
  "read_hex str = foldl (\<lambda>a c. 16 * a + hex_val c) 0 str"

lemma hex_val_index: "d < 16 \<Longrightarrow> hex_val (hex_indices ! d) = d"
proof -
  assume "d < 16"
  then have "d \<in> {0, 1, 2, 3, 4, 5, 6, 7, 8, 9, 10, 11, 12, 13, 14, 15}" by simp presburger
  then show ?thesis by (auto simp: hex_val_def hex_indices_def)
qed

lemma foldl_hex: "foldl (\<lambda>a c. 16 * a + hex_val c) a str = a * 16 ^ length str + read_hex str"
proof (induction str arbitrary: a)
  case (Cons c str)
  show ?case using Cons [of "16 * a + hex_val c"] Cons [of "hex_val c"]
    by (simp add: read_hex_def algebra_simps)
qed (simp add: read_hex_def)

lemma read_hex_Cons: "read_hex (c # str) = hex_val c * 16 ^ length str + read_hex str"
  using foldl_hex [of "hex_val c" str] by (simp add: read_hex_def)

text \<open>One step of the loop, in terms of the number \<open>y\<close> whose digits are left.\<close>

lemma hex_step:
  fixes adj :: u64
  assumes "unat adj = y * 16 ^ (8 - Suc r)" "y < 16 ^ Suc r" "Suc r \<le> 8"
  shows "adj AND 0xF0000000 = 0 \<longleftrightarrow> y div 16 ^ r = 0"
    "unat (drop_bit 28 (adj AND 0xF0000000)) = y div 16 ^ r"
    "unat (push_bit 4 (adj AND 0x0FFFFFFF)) = (y mod 16 ^ r) * 16 ^ (8 - r)"
    "y div 16 ^ r = 0 \<Longrightarrow> unat (push_bit 4 adj) = y * 16 ^ (8 - r)"
proof -
  have e: "8 - r = Suc (8 - Suc r)" "Suc r + (8 - Suc r) = 8" using assms(3) by auto
  have p: "(16 :: nat) ^ r * 16 ^ (8 - Suc r) = 268435456"
  proof -
    have "(16 :: nat) ^ r * 16 ^ (8 - Suc r) = 16 ^ 7" unfolding power_add [symmetric] using assms(3) by simp
    then show ?thesis by simp
  qed
  have q: "(16 :: nat) ^ Suc r * 16 ^ (8 - Suc r) = 4294967296" using p by simp
  have lt: "unat adj < 4294967296"
  proof -
    have "y * 16 ^ (8 - Suc r) < 16 ^ Suc r * 16 ^ (8 - Suc r)" using assms(2) by simp
    then show ?thesis unfolding assms(1) q .
  qed
  have dv: "unat adj div 268435456 = y div 16 ^ r" unfolding assms(1) p [symmetric] by simp
  have md: "unat adj mod 268435456 = (y mod 16 ^ r) * 16 ^ (8 - Suc r)" unfolding assms(1) p [symmetric] by (simp add: mult_mod_left)
  have m1: "adj AND 0x0FFFFFFF = take_bit 28 adj" by (simp add: take_bit_eq_mask mask_eq_exp_minus_1)
  have d: "drop_bit 28 (adj AND 0xF0000000) = take_bit 4 (drop_bit 28 adj)"
    by (simp add: drop_bit_and take_bit_eq_mask mask_eq_exp_minus_1)
  have ud: "unat (drop_bit 28 adj) = y div 16 ^ r" using dv by (simp add: unsigned_drop_bit_eq drop_bit_eq_div unat_div)
  have small: "y div 16 ^ r < 16" using assms(2) by (simp add: div_less_iff_less_mult)
  show b: "unat (drop_bit 28 (adj AND 0xF0000000)) = y div 16 ^ r"
    unfolding d unsigned_take_bit_eq ud using small by (simp add: take_bit_nat_eq_self)
  have ut: "unat (take_bit 28 adj) = (y mod 16 ^ r) * 16 ^ (8 - Suc r)"
    unfolding unsigned_take_bit_eq using md by (simp add: take_bit_eq_mod)
  have sh: "unat (push_bit 4 x) = 16 * unat x" if "unat x < 4294967296" for x :: u64
    unfolding unsigned_push_bit_eq using that by (simp add: push_bit_eq_mult take_bit_nat_eq_self)
  have "unat (take_bit 28 adj) < 4294967296"
    unfolding ut md [symmetric] by (rule less_trans [OF mod_less_divisor]) simp_all
  then show "unat (push_bit 4 (adj AND 0x0FFFFFFF)) = (y mod 16 ^ r) * 16 ^ (8 - r)"
    unfolding m1 using sh [of "take_bit 28 adj"] ut e(1) by simp
  show "y div 16 ^ r = 0 \<Longrightarrow> unat (push_bit 4 adj) = y * 16 ^ (8 - r)" using sh [OF lt] assms(1) e(1) by simp
  show "adj AND 0xF0000000 = 0 \<longleftrightarrow> y div 16 ^ r = 0"
  proof
    assume "adj AND 0xF0000000 = 0"
    then show "y div 16 ^ r = 0" using b by simp
  next
    assume z: "y div 16 ^ r = 0"
    have "unat adj < 268435456" using dv z by (simp add: div_eq_0_iff)
    then have "take_bit 28 adj = adj" by (intro word_unat_eq_iff [THEN iffD2]) (simp add: unsigned_take_bit_eq take_bit_nat_eq_self)
    then have "adj AND 0xF0000000 = (adj AND 0x0FFFFFFF) AND 0xF0000000" using m1 by simp
    also have "\<dots> = 0" by (simp add: and.assoc)
    finally show "adj AND 0xF0000000 = 0" .
  qed
qed

lemma hex_digits_law:
  "unat adj = y * 16 ^ (8 - r) \<Longrightarrow> y < 16 ^ r \<Longrightarrow> r \<le> 8 \<Longrightarrow>
    read_hex (hex_digits r p adj st) = y \<and> length (hex_digits r p adj st) \<le> r \<and>
    (p = 0 \<or> st \<longrightarrow> length (hex_digits r p adj st) = r) \<and> min r (unat p) \<le> length (hex_digits r p adj st)"
proof (induction r arbitrary: adj y st)
  case 0
  then show ?case by (simp add: read_hex_def)
next
  case (Suc r)
  note h = hex_step [OF Suc.prems]
  have md: "y mod 16 ^ r < 16 ^ r" by simp
  show ?case
  proof (cases "p \<noteq> 0 \<and> unat p < Suc r \<and> adj AND 0xF0000000 = 0 \<and> \<not> st")
    case True
    then have z: "y div 16 ^ r = 0" using h(1) by simp
    then have "y < 16 ^ r" by (simp add: div_eq_0_iff)
    then have ih: "read_hex (hex_digits r p (push_bit 4 adj) st) = y \<and> length (hex_digits r p (push_bit 4 adj) st) \<le> r \<and>
      (p = 0 \<or> st \<longrightarrow> length (hex_digits r p (push_bit 4 adj) st) = r) \<and>
      min r (unat p) \<le> length (hex_digits r p (push_bit 4 adj) st)"
      using Suc.IH [OF h(4) [OF z]] Suc.prems(3) by simp
    have eq: "hex_digits (Suc r) p adj st = hex_digits r p (push_bit 4 adj) st"
      unfolding hex_digits.simps if_P [OF True] ..
    have "p \<noteq> 0" "\<not> st" "unat p < Suc r" using True by blast+
    then show ?thesis unfolding eq using ih by (simp add: min_def split: if_splits)
  next
    case False
    have "y div 16 ^ r < 16" using Suc.prems(2) by (simp add: div_less_iff_less_mult)
    note hv = hex_val_index [OF this]
    let ?t = "hex_digits r p (push_bit 4 (adj AND 0x0FFFFFFF)) True"
    have eq: "hex_digits (Suc r) p adj st = hex_indices ! (y div 16 ^ r) # ?t"
      using False h(2) by (simp only: hex_digits.simps if_False)
    have "read_hex ?t = y mod 16 ^ r \<and> length ?t = r"
      using Suc.IH [OF h(3) md, of True] Suc.prems(3) by simp
    then show ?thesis unfolding eq using hv div_mult_mod_eq [of y "16 ^ r"] by (simp add: read_hex_Cons)
  qed
qed

section \<open>Properties\<close>

text \<open>C34. Printing a decimal number. A number that fits the digit buffer, 4 digits for the 32-bit conversions and 7 for
  the 64-bit ones, with a minimal width that also fits, is printed as a text that reads back as the number. Any
  other number stores past the end of the buffer.\<close>

theorem printf_decimal_fits:
  assumes "console_ok s"
  shows "printf_int gl cs num k s =
      (if \<bar>sint num\<bar> < 10000 \<and> k \<le> 4 then printf_chars gl cs (dec_text (sint num) (unat k)) s else Inl BadAccess) \<and>
    printf_long gl cs lnum k s =
      (if \<bar>sint lnum\<bar> < 10000000 \<and> k \<le> 7 then printf_chars gl cs (dec_text (sint lnum) (unat k)) s else Inl BadAccess) \<and>
    printf_uint gl cs num s = (if uint num < 10000 then printf_chars gl cs (dec_text (uint num) 0) s else Inl BadAccess) \<and>
    printf_ulong gl cs lnum s = (if uint lnum < 10000000 then printf_chars gl cs (dec_text (uint lnum) 0) s else Inl BadAccess) \<and>
    read_text (dec_text x i) = x"
proof -
  have k: "unat k \<le> 4 \<longleftrightarrow> k \<le> 4" "unat k \<le> 7 \<longleftrightarrow> k \<le> 7" by (simp_all add: word_le_nat_alt)
  have u: "unat num < 10 ^ 4 \<longleftrightarrow> uint num < 10000" "unat lnum < 10 ^ 7 \<longleftrightarrow> uint lnum < 10000000"
    using of_nat_less_iff [where ?'a = int, of "unat num" "10 ^ 4"] of_nat_less_iff [where ?'a = int, of "unat lnum" "10 ^ 7"]
    by simp_all
  have p: "(10 :: int) ^ 4 = 10000" "(10 :: int) ^ 7 = 10000000" "(0 :: nat) < 4" "(0 :: nat) < 7" by simp_all
  show ?thesis
    unfolding printf_int_def printf_long_def printf_uint_def printf_ulong_def
      signed_number [OF assms p(3)] signed_number [OF assms p(4)] unsigned_number [OF p(3)] unsigned_number [OF p(4)]
      k u p(1,2) uint_nat [symmetric] read_dec_text
    by (intro conjI refl)
qed

theorem printf_decimal_fits_witness:
  "printf_int (\<lambda>_ _. 0) 16 (- 42) 3 demo_console = printf_chars (\<lambda>_ _. 0) 16 ''-042'' demo_console \<and>
   printf_int (\<lambda>_ _. 0) 16 12345 0 demo_console = Inl BadAccess"
proof -
  have t: "dec_text (- 42) 3 = ''-042''"
    by (simp add: dec_text_def lsd.simps [of 42] lsd.simps [of 4] hex_indices_def Let_def)
  show ?thesis
    using printf_decimal_fits [OF demo_console_ok, of "\<lambda>_ _. 0" 16 "- 42" 3] printf_decimal_fits [OF demo_console_ok, of "\<lambda>_ _. 0" 16 12345 0]
    by (simp add: t)
qed



end
