(* ===== verification/Keyboard.thy ===== *)
theory Keyboard
  imports Prelude
begin

unbundle bit_operations_syntax

text \<open>
  The keyboard interface: the key codes and character tables of \<^verbatim>\<open>include/plenjos/dev/keycodes.h\<close>, the
  translation of a key event to a character of \<^verbatim>\<open>include/plenjos/dev/kbd.h\<close>, and the ring buffer of events of
  \<^verbatim>\<open>src/devices/input/keyboard/keyboard.c\<close>. The drivers push events and the clients pop them; what they rely
  on is the locale \<open>lossy_queue\<close>: a queue of bounded length that drops its oldest element when it is full.
\<close>

section \<open>Key codes\<close>

abbreviation KEY_NONE :: u16 where "KEY_NONE \<equiv> 0"
abbreviation KEY_ESC :: u16 where "KEY_ESC \<equiv> 0x01"
abbreviation KEY_F1 :: u16 where "KEY_F1 \<equiv> 0x02"
abbreviation KEY_F2 :: u16 where "KEY_F2 \<equiv> 0x03"
abbreviation KEY_F3 :: u16 where "KEY_F3 \<equiv> 0x04"
abbreviation KEY_F4 :: u16 where "KEY_F4 \<equiv> 0x05"
abbreviation KEY_F5 :: u16 where "KEY_F5 \<equiv> 0x06"
abbreviation KEY_F6 :: u16 where "KEY_F6 \<equiv> 0x07"
abbreviation KEY_F7 :: u16 where "KEY_F7 \<equiv> 0x08"
abbreviation KEY_F8 :: u16 where "KEY_F8 \<equiv> 0x09"
abbreviation KEY_F9 :: u16 where "KEY_F9 \<equiv> 0x0A"
abbreviation KEY_F10 :: u16 where "KEY_F10 \<equiv> 0x0B"
abbreviation KEY_F11 :: u16 where "KEY_F11 \<equiv> 0x0C"
abbreviation KEY_F12 :: u16 where "KEY_F12 \<equiv> 0x0D"
abbreviation KEY_PRINT_SCREEN :: u16 where "KEY_PRINT_SCREEN \<equiv> 0x0E"
abbreviation KEY_SCROLL_LOCK :: u16 where "KEY_SCROLL_LOCK \<equiv> 0x0F"
abbreviation KEY_PAUSE :: u16 where "KEY_PAUSE \<equiv> 0x10"
abbreviation KEY_INSERT :: u16 where "KEY_INSERT \<equiv> 0x11"
abbreviation KEY_HOME :: u16 where "KEY_HOME \<equiv> 0x12"
abbreviation KEY_PAGE_UP :: u16 where "KEY_PAGE_UP \<equiv> 0x13"
abbreviation KEY_DELETE :: u16 where "KEY_DELETE \<equiv> 0x14"
abbreviation KEY_END :: u16 where "KEY_END \<equiv> 0x15"
abbreviation KEY_PAGE_DOWN :: u16 where "KEY_PAGE_DOWN \<equiv> 0x16"
abbreviation KEY_UP :: u16 where "KEY_UP \<equiv> 0x17"
abbreviation KEY_LEFT :: u16 where "KEY_LEFT \<equiv> 0x18"
abbreviation KEY_DOWN :: u16 where "KEY_DOWN \<equiv> 0x19"
abbreviation KEY_RIGHT :: u16 where "KEY_RIGHT \<equiv> 0x1A"
abbreviation KEY_NUM_LOCK :: u16 where "KEY_NUM_LOCK \<equiv> 0x1B"
abbreviation KEY_KP_SLASH :: u16 where "KEY_KP_SLASH \<equiv> 0x1C"
abbreviation KEY_KP_ASTERISK :: u16 where "KEY_KP_ASTERISK \<equiv> 0x1D"
abbreviation KEY_KP_MINUS :: u16 where "KEY_KP_MINUS \<equiv> 0x1E"
abbreviation KEY_KP_PLUS :: u16 where "KEY_KP_PLUS \<equiv> 0x1F"
abbreviation KEY_KP_ENTER :: u16 where "KEY_KP_ENTER \<equiv> 0x20"
abbreviation KEY_KP_PERIOD :: u16 where "KEY_KP_PERIOD \<equiv> 0x21"
abbreviation KEY_KP_CENTER :: u16 where "KEY_KP_CENTER \<equiv> 0x22"
abbreviation KEY_KP_0 :: u16 where "KEY_KP_0 \<equiv> 0x23"
abbreviation KEY_KP_1 :: u16 where "KEY_KP_1 \<equiv> 0x24"
abbreviation KEY_KP_2 :: u16 where "KEY_KP_2 \<equiv> 0x25"
abbreviation KEY_KP_3 :: u16 where "KEY_KP_3 \<equiv> 0x26"
abbreviation KEY_KP_4 :: u16 where "KEY_KP_4 \<equiv> 0x27"
abbreviation KEY_KP_5 :: u16 where "KEY_KP_5 \<equiv> 0x28"
abbreviation KEY_KP_6 :: u16 where "KEY_KP_6 \<equiv> 0x29"
abbreviation KEY_KP_7 :: u16 where "KEY_KP_7 \<equiv> 0x2A"
abbreviation KEY_KP_8 :: u16 where "KEY_KP_8 \<equiv> 0x2B"
abbreviation KEY_KP_9 :: u16 where "KEY_KP_9 \<equiv> 0x2C"
abbreviation KEY_LEFT_CTRL :: u16 where "KEY_LEFT_CTRL \<equiv> 0x2D"
abbreviation KEY_LEFT_SHIFT :: u16 where "KEY_LEFT_SHIFT \<equiv> 0x2E"
abbreviation KEY_LEFT_ALT :: u16 where "KEY_LEFT_ALT \<equiv> 0x2F"
abbreviation KEY_LEFT_META :: u16 where "KEY_LEFT_META \<equiv> 0x30"
abbreviation KEY_RIGHT_CTRL :: u16 where "KEY_RIGHT_CTRL \<equiv> 0x31"
abbreviation KEY_RIGHT_SHIFT :: u16 where "KEY_RIGHT_SHIFT \<equiv> 0x32"
abbreviation KEY_RIGHT_ALT :: u16 where "KEY_RIGHT_ALT \<equiv> 0x33"
abbreviation KEY_RIGHT_META :: u16 where "KEY_RIGHT_META \<equiv> 0x34"
abbreviation KEY_MENU :: u16 where "KEY_MENU \<equiv> 0x35"
abbreviation KEY_CAPS_LOCK :: u16 where "KEY_CAPS_LOCK \<equiv> 0x36"
abbreviation KEY_TAB :: u16 where "KEY_TAB \<equiv> 0x37"
abbreviation KEY_ENTER :: u16 where "KEY_ENTER \<equiv> 0x38"
abbreviation KEY_BACKSPACE :: u16 where "KEY_BACKSPACE \<equiv> 0x39"
abbreviation KEY_BACKTICK :: u16 where "KEY_BACKTICK \<equiv> 0x3A"
abbreviation KEY_MINUS :: u16 where "KEY_MINUS \<equiv> 0x3B"
abbreviation KEY_EQUALS :: u16 where "KEY_EQUALS \<equiv> 0x3C"
abbreviation KEY_LBRACK :: u16 where "KEY_LBRACK \<equiv> 0x3D"
abbreviation KEY_RBRACK :: u16 where "KEY_RBRACK \<equiv> 0x3E"
abbreviation KEY_BACKSLASH :: u16 where "KEY_BACKSLASH \<equiv> 0x3F"
abbreviation KEY_SEMICOLON :: u16 where "KEY_SEMICOLON \<equiv> 0x40"
abbreviation KEY_QUOTE :: u16 where "KEY_QUOTE \<equiv> 0x41"
abbreviation KEY_COMMA :: u16 where "KEY_COMMA \<equiv> 0x42"
abbreviation KEY_PERIOD :: u16 where "KEY_PERIOD \<equiv> 0x43"
abbreviation KEY_SLASH :: u16 where "KEY_SLASH \<equiv> 0x44"
abbreviation KEY_SPACE :: u16 where "KEY_SPACE \<equiv> 0x45"
abbreviation KEY_A :: u16 where "KEY_A \<equiv> 0x80"
abbreviation KEY_B :: u16 where "KEY_B \<equiv> 0x81"
abbreviation KEY_C :: u16 where "KEY_C \<equiv> 0x82"
abbreviation KEY_D :: u16 where "KEY_D \<equiv> 0x83"
abbreviation KEY_E :: u16 where "KEY_E \<equiv> 0x84"
abbreviation KEY_F :: u16 where "KEY_F \<equiv> 0x85"
abbreviation KEY_G :: u16 where "KEY_G \<equiv> 0x86"
abbreviation KEY_H :: u16 where "KEY_H \<equiv> 0x87"
abbreviation KEY_I :: u16 where "KEY_I \<equiv> 0x88"
abbreviation KEY_J :: u16 where "KEY_J \<equiv> 0x89"
abbreviation KEY_K :: u16 where "KEY_K \<equiv> 0x8A"
abbreviation KEY_L :: u16 where "KEY_L \<equiv> 0x8B"
abbreviation KEY_M :: u16 where "KEY_M \<equiv> 0x8C"
abbreviation KEY_N :: u16 where "KEY_N \<equiv> 0x8D"
abbreviation KEY_O :: u16 where "KEY_O \<equiv> 0x8E"
abbreviation KEY_P :: u16 where "KEY_P \<equiv> 0x8F"
abbreviation KEY_Q :: u16 where "KEY_Q \<equiv> 0x90"
abbreviation KEY_R :: u16 where "KEY_R \<equiv> 0x91"
abbreviation KEY_S :: u16 where "KEY_S \<equiv> 0x92"
abbreviation KEY_T :: u16 where "KEY_T \<equiv> 0x93"
abbreviation KEY_U :: u16 where "KEY_U \<equiv> 0x94"
abbreviation KEY_V :: u16 where "KEY_V \<equiv> 0x95"
abbreviation KEY_W :: u16 where "KEY_W \<equiv> 0x96"
abbreviation KEY_X :: u16 where "KEY_X \<equiv> 0x97"
abbreviation KEY_Y :: u16 where "KEY_Y \<equiv> 0x98"
abbreviation KEY_Z :: u16 where "KEY_Z \<equiv> 0x99"
abbreviation KEY_1 :: u16 where "KEY_1 \<equiv> 0x9A"
abbreviation KEY_2 :: u16 where "KEY_2 \<equiv> 0x9B"
abbreviation KEY_3 :: u16 where "KEY_3 \<equiv> 0x9C"
abbreviation KEY_4 :: u16 where "KEY_4 \<equiv> 0x9D"
abbreviation KEY_5 :: u16 where "KEY_5 \<equiv> 0x9E"
abbreviation KEY_6 :: u16 where "KEY_6 \<equiv> 0x9F"
abbreviation KEY_7 :: u16 where "KEY_7 \<equiv> 0xA0"
abbreviation KEY_8 :: u16 where "KEY_8 \<equiv> 0xA1"
abbreviation KEY_9 :: u16 where "KEY_9 \<equiv> 0xA2"
abbreviation KEY_0 :: u16 where "KEY_0 \<equiv> 0xA3"
abbreviation KEY_UNKNOWN :: u16 where "KEY_UNKNOWN \<equiv> 0xFF"

abbreviation KBD_MOD_SHIFT :: u8 where "KBD_MOD_SHIFT \<equiv> 0x01"
abbreviation KBD_MOD_CAPSLOCK :: u8 where "KBD_MOD_CAPSLOCK \<equiv> 0x02"
abbreviation KBD_MOD_CTRL :: u8 where "KBD_MOD_CTRL \<equiv> 0x04"
abbreviation KBD_MOD_ALT :: u8 where "KBD_MOD_ALT \<equiv> 0x08"
abbreviation KBD_MOD_META :: u8 where "KBD_MOD_META \<equiv> 0x10"

text \<open>A table given by its initialised entries; the other entries are zero.\<close>

definition map_uppercase :: "(u16 \<times> char) list" where
  "map_uppercase =
    [(KEY_TAB, CHR 0x09), (KEY_ENTER, CHR 0x0A), (KEY_BACKSPACE, CHR 0x08), (KEY_BACKTICK, CHR ''~''),
     (KEY_MINUS, CHR ''_''), (KEY_EQUALS, CHR ''+''), (KEY_LBRACK, CHR ''{''), (KEY_RBRACK, CHR ''}''),
     (KEY_BACKSLASH, CHR ''|''), (KEY_SEMICOLON, CHR '':''), (KEY_QUOTE, CHR 0x22), (KEY_COMMA, CHR ''<''),
     (KEY_PERIOD, CHR ''>''), (KEY_SLASH, CHR ''?''), (KEY_SPACE, CHR '' ''), (KEY_A, CHR ''A''), (KEY_B, CHR ''B''),
     (KEY_C, CHR ''C''), (KEY_D, CHR ''D''), (KEY_E, CHR ''E''), (KEY_F, CHR ''F''), (KEY_G, CHR ''G''),
     (KEY_H, CHR ''H''), (KEY_I, CHR ''I''), (KEY_J, CHR ''J''), (KEY_K, CHR ''K''), (KEY_L, CHR ''L''),
     (KEY_M, CHR ''M''), (KEY_N, CHR ''N''), (KEY_O, CHR ''O''), (KEY_P, CHR ''P''), (KEY_Q, CHR ''Q''),
     (KEY_R, CHR ''R''), (KEY_S, CHR ''S''), (KEY_T, CHR ''T''), (KEY_U, CHR ''U''), (KEY_V, CHR ''V''),
     (KEY_W, CHR ''W''), (KEY_X, CHR ''X''), (KEY_Y, CHR ''Y''), (KEY_Z, CHR ''Z''), (KEY_1, CHR ''!''),
     (KEY_2, CHR ''@''), (KEY_3, CHR ''#''), (KEY_4, CHR ''$''), (KEY_5, CHR ''%''), (KEY_6, CHR ''^''),
     (KEY_7, CHR ''&''), (KEY_8, CHR ''*''), (KEY_9, CHR ''(''), (KEY_0, CHR '')'')]"

definition map_lowercase :: "(u16 \<times> char) list" where
  "map_lowercase =
    [(KEY_TAB, CHR 0x09), (KEY_ENTER, CHR 0x0A), (KEY_BACKSPACE, CHR 0x08), (KEY_BACKTICK, CHR 0x60),
     (KEY_MINUS, CHR ''-''), (KEY_EQUALS, CHR ''=''), (KEY_LBRACK, CHR ''[''), (KEY_RBRACK, CHR '']''),
     (KEY_BACKSLASH, CHR 0x5C), (KEY_SEMICOLON, CHR '';''), (KEY_QUOTE, CHR 0x27), (KEY_COMMA, CHR '',''),
     (KEY_PERIOD, CHR ''.''), (KEY_SLASH, CHR ''/''), (KEY_SPACE, CHR '' ''), (KEY_A, CHR ''a''), (KEY_B, CHR ''b''),
     (KEY_C, CHR ''c''), (KEY_D, CHR ''d''), (KEY_E, CHR ''e''), (KEY_F, CHR ''f''), (KEY_G, CHR ''g''),
     (KEY_H, CHR ''h''), (KEY_I, CHR ''i''), (KEY_J, CHR ''j''), (KEY_K, CHR ''k''), (KEY_L, CHR ''l''),
     (KEY_M, CHR ''m''), (KEY_N, CHR ''n''), (KEY_O, CHR ''o''), (KEY_P, CHR ''p''), (KEY_Q, CHR ''q''),
     (KEY_R, CHR ''r''), (KEY_S, CHR ''s''), (KEY_T, CHR ''t''), (KEY_U, CHR ''u''), (KEY_V, CHR ''v''),
     (KEY_W, CHR ''w''), (KEY_X, CHR ''x''), (KEY_Y, CHR ''y''), (KEY_Z, CHR ''z''), (KEY_1, CHR ''1''),
     (KEY_2, CHR ''2''), (KEY_3, CHR ''3''), (KEY_4, CHR ''4''), (KEY_5, CHR ''5''), (KEY_6, CHR ''6''),
     (KEY_7, CHR ''7''), (KEY_8, CHR ''8''), (KEY_9, CHR ''9''), (KEY_0, CHR ''0'')]"

definition map_char :: "(u16 \<times> char) list \<Rightarrow> u16 \<Rightarrow> char kres" where
  "map_char entries scan =
     (if 256 \<le> scan then Inl BadAccess
      else Inr (case map_of entries scan of Some c \<Rightarrow> c | None \<Rightarrow> CHR 0x00))"

section \<open>Characters\<close>

datatype kbd_key_state = KEY_RELEASED | KEY_PRESSED | KEY_REPEAT

record kbd_event =
  code :: u16
  state :: kbd_key_state
  mods :: u8

definition kbdev_is_caps_affected :: "u16 \<Rightarrow> bool" where
  "kbdev_is_caps_affected scan \<longleftrightarrow> KEY_A \<le> scan \<and> scan \<le> KEY_Z"

definition kbdev_is_printable :: "u16 \<Rightarrow> bool" where
  "kbdev_is_printable scan \<longleftrightarrow> (KEY_A \<le> scan \<and> scan \<le> KEY_0) \<or> (KEY_BACKTICK \<le> scan \<and> scan \<le> KEY_SPACE)"

definition kbdev_get_ch :: "u16 \<Rightarrow> u8 \<Rightarrow> char kres" where
  "kbdev_get_ch scan ms =
     (if ms AND NOT (KBD_MOD_SHIFT OR KBD_MOD_CAPSLOCK) \<noteq> 0 then Inr (CHR 0x00)
      else if ms AND KBD_MOD_SHIFT \<noteq> 0 then
        (if ms AND KBD_MOD_CAPSLOCK \<noteq> 0 then
           (if KEY_A \<le> scan \<and> scan \<le> KEY_Z then map_char map_lowercase scan else map_char map_uppercase scan)
         else map_char map_uppercase scan)
      else if ms AND KBD_MOD_CAPSLOCK \<noteq> 0 then
        (if KEY_A \<le> scan \<and> scan \<le> KEY_Z then map_char map_uppercase scan else map_char map_lowercase scan)
      else map_char map_lowercase scan)"

definition kbdev_get_printable :: "u16 \<Rightarrow> u8 \<Rightarrow> char kres" where
  "kbdev_get_printable scan ms = (if \<not> kbdev_is_printable scan then Inr (CHR 0x00) else kbdev_get_ch scan ms)"

text \<open>The letter keys: shift and caps lock cancel each other.\<close>

lemma letters:
  "i < 26 \<Longrightarrow> kbdev_get_printable (KEY_A + of_nat i) ms =
     Inr (if ms AND NOT (KBD_MOD_SHIFT OR KBD_MOD_CAPSLOCK) \<noteq> 0 then CHR 0x00
          else if (ms AND KBD_MOD_SHIFT \<noteq> 0) \<noteq> (ms AND KBD_MOD_CAPSLOCK \<noteq> 0) then char_of (65 + i)
          else char_of (97 + i))"
proof -
  have all: "\<forall>i \<in> set [0..<26]. kbdev_is_printable (KEY_A + of_nat i) \<and> KEY_A \<le> KEY_A + of_nat i \<and> KEY_A + of_nat i \<le> KEY_Z \<and>
    map_char map_uppercase (KEY_A + of_nat i) = Inr (char_of (65 + i)) \<and>
    map_char map_lowercase (KEY_A + of_nat i) = Inr (char_of (97 + i))"
    by code_simp
  assume "i < 26"
  then have "i \<in> set [0..<26]" by simp
  from bspec [OF all this] show ?thesis
    by (simp add: kbdev_get_printable_def kbdev_get_ch_def)
qed

section \<open>The ring buffer\<close>

definition KBD_BUFFER_SIZE :: nat where "KBD_BUFFER_SIZE = 128"

text \<open>The indices are C ints that are only ever set to remainders.\<close>

record kbd_buffer_state =
  head :: nat
  tail :: nat
  buffer :: "kbd_event list"
  full :: bool

definition advance_tail :: "kbd_buffer_state \<Rightarrow> kbd_buffer_state" where
  "advance_tail b = b\<lparr>tail := (tail b + 1) mod KBD_BUFFER_SIZE\<rparr>"

definition advance_head :: "kbd_buffer_state \<Rightarrow> kbd_buffer_state" where
  "advance_head b = b\<lparr>head := (head b + 1) mod KBD_BUFFER_SIZE\<rparr>"

definition kbd_buffer_empty :: "kbd_buffer_state \<Rightarrow> bool" where
  "kbd_buffer_empty b \<longleftrightarrow> \<not> full b \<and> head b = tail b"

definition kbd_buffer_full :: "kbd_buffer_state \<Rightarrow> bool" where
  "kbd_buffer_full b \<longleftrightarrow> full b"

definition kbd_buffer_push :: "kbd_event \<Rightarrow> kbd_buffer_state \<Rightarrow> kbd_buffer_state kres" where
  "kbd_buffer_push event b =
     (if length (buffer b) \<le> head b then Inl BadAccess
      else let b1 = b\<lparr>buffer := (buffer b)[head b := event]\<rparr>;
               b2 = (if full b1 then advance_tail b1 else b1);
               b3 = advance_head b2
           in Inr (b3\<lparr>full := head b3 = tail b3\<rparr>))"

definition kbd_buffer_pop :: "kbd_buffer_state \<Rightarrow> (int \<times> kbd_event option \<times> kbd_buffer_state) kres" where
  "kbd_buffer_pop b =
     (if kbd_buffer_empty b then Inr (- 1, None, b)
      else if length (buffer b) \<le> tail b then Inl BadAccess
      else Inr (0, Some (buffer b ! tail b), (advance_tail b)\<lparr>full := False\<rparr>))"

definition init_keyboard :: "kbd_buffer_state \<Rightarrow> kbd_buffer_state" where
  "init_keyboard b = b\<lparr>head := 0, tail := 0, full := False\<rparr>"

section \<open>Queues that drop their oldest element\<close>

definition last_n :: "nat \<Rightarrow> 'a list \<Rightarrow> 'a list" where
  "last_n n xs = drop (length xs - n) xs"

lemma last_n_all [simp]: "length xs \<le> n \<Longrightarrow> last_n n xs = xs"
  by (simp add: last_n_def)

lemma length_last_n [simp]: "length (last_n n xs) = min n (length xs)"
  by (simp add: last_n_def)

lemma last_n_append: "last_n n (last_n n xs @ ys) = last_n n (xs @ ys)"
  by (cases "length xs \<le> n") (auto simp: last_n_def add.commute)

lemma last_n_snoc: "length xs = n \<Longrightarrow> 0 < n \<Longrightarrow> last_n n (xs @ [x]) = tl xs @ [x]"
  by (cases xs) (simp_all add: last_n_def)

primrec push_all :: "('a \<Rightarrow> 'q \<Rightarrow> 'q kres) \<Rightarrow> 'a list \<Rightarrow> 'q \<Rightarrow> 'q kres" where
  "push_all push [] q = Inr q"
| "push_all push (x # xs) q = bindR (push x q) (push_all push xs)"

text \<open>Popping at most \<open>n\<close> elements.\<close>

primrec drain :: "('q \<Rightarrow> (int \<times> 'a option \<times> 'q) kres) \<Rightarrow> nat \<Rightarrow> 'q \<Rightarrow> ('a list \<times> 'q) kres" where
  "drain pop 0 q = Inr ([], q)"
| "drain pop (Suc n) q =
     bindR (pop q) (\<lambda>(res, data, q1).
       case data of None \<Rightarrow> Inr ([], q1)
       | Some x \<Rightarrow> bindR (drain pop n q1) (\<lambda>(xs, q2). Inr (x # xs, q2)))"

locale lossy_queue =
  fixes ok :: "'q \<Rightarrow> bool" and contents :: "'q \<Rightarrow> 'a list"
    and push :: "'a \<Rightarrow> 'q \<Rightarrow> 'q kres" and pop :: "'q \<Rightarrow> (int \<times> 'a option \<times> 'q) kres" and cap :: nat
  assumes bounded: "ok q \<Longrightarrow> length (contents q) \<le> cap"
    and push_law: "ok q \<Longrightarrow> \<exists>q'. push x q = Inr q' \<and> ok q' \<and> contents q' = last_n cap (contents q @ [x])"
    and pop_none: "ok q \<Longrightarrow> contents q = [] \<Longrightarrow> pop q = Inr (- 1, None, q)"
    and pop_some: "ok q \<Longrightarrow> contents q = x # xs \<Longrightarrow> \<exists>q'. pop q = Inr (0, Some x, q') \<and> ok q' \<and> contents q' = xs"
begin

lemma push_all_law:
  "ok q \<Longrightarrow> \<exists>q'. push_all push xs q = Inr q' \<and> ok q' \<and> contents q' = last_n cap (contents q @ xs)"
proof (induction xs arbitrary: q)
  case Nil
  then show ?case using bounded [OF Nil] by simp
next
  case (Cons x xs)
  obtain q1 where q1: "push x q = Inr q1" "ok q1" "contents q1 = last_n cap (contents q @ [x])"
    using push_law [OF Cons.prems] by blast
  obtain q2 where "push_all push xs q1 = Inr q2" "ok q2" "contents q2 = last_n cap (contents q1 @ xs)"
    using Cons.IH [OF q1(2)] by blast
  then show ?case using q1 by (auto simp: last_n_append)
qed

lemma drain_law:
  "ok q \<Longrightarrow> length (contents q) \<le> n \<Longrightarrow> \<exists>q'. drain pop n q = Inr (contents q, q') \<and> ok q' \<and> contents q' = []"
proof (induction n arbitrary: q)
  case 0
  then show ?case by simp
next
  case (Suc n)
  show ?case
  proof (cases "contents q")
    case Nil
    then show ?thesis using pop_none [OF Suc.prems(1)] Suc.prems(1) by simp
  next
    case (Cons x xs)
    obtain q1 where "pop q = Inr (0, Some x, q1)" "ok q1" "contents q1 = xs"
      using pop_some [OF Suc.prems(1) Cons] by blast
    then show ?thesis using Suc.IH [of q1] Suc.prems(2) Cons by auto
  qed
qed

lemma push_drain:
  "ok q \<Longrightarrow> \<exists>q1 q2. push_all push xs q = Inr q1 \<and> drain pop cap q1 = Inr (last_n cap (contents q @ xs), q2) \<and>
    ok q2 \<and> contents q2 = []"
  using push_all_law drain_law by (metis bounded)

end

section \<open>The ring buffer is such a queue\<close>

definition kbd_count :: "kbd_buffer_state \<Rightarrow> nat" where
  "kbd_count b = (if full b then KBD_BUFFER_SIZE else (head b + KBD_BUFFER_SIZE - tail b) mod KBD_BUFFER_SIZE)"

definition kbd_events :: "kbd_buffer_state \<Rightarrow> kbd_event list" where
  "kbd_events b = map (\<lambda>i. buffer b ! ((tail b + i) mod KBD_BUFFER_SIZE)) [0..<kbd_count b]"

definition kbd_ok :: "kbd_buffer_state \<Rightarrow> bool" where
  "kbd_ok b \<longleftrightarrow> length (buffer b) = KBD_BUFFER_SIZE \<and> head b < KBD_BUFFER_SIZE \<and> tail b < KBD_BUFFER_SIZE \<and>
     (full b \<longrightarrow> head b = tail b)"

lemma kbd_count_law:
  assumes "kbd_ok b"
  shows "head b = (tail b + kbd_count b) mod 128" "kbd_count b \<le> 128" "full b \<longleftrightarrow> kbd_count b = 128"
    "kbd_buffer_empty b \<longleftrightarrow> kbd_count b = 0"
  using assms by (auto simp: kbd_ok_def kbd_count_def KBD_BUFFER_SIZE_def kbd_buffer_empty_def mod_if split: if_splits)

lemma kbd_count_unique:
  assumes "length (buffer b) = 128" "t < 128" "n \<le> 128"
    "b' = b\<lparr>head := (t + n) mod 128, tail := t, full := n = 128\<rparr>"
  shows "kbd_ok b'" "kbd_count b' = n"
  using assms by (auto simp: kbd_ok_def kbd_count_def KBD_BUFFER_SIZE_def mod_if)

lemma kbd_push_eq:
  assumes ok: "kbd_ok b"
  shows "kbd_buffer_push e b = Inr (let n = kbd_count b; t = (if n = 128 then (tail b + 1) mod 128 else tail b)
    in b\<lparr>buffer := (buffer b)[(tail b + n) mod 128 := e], head := (t + min (n + 1) 128) mod 128, tail := t,
         full := min (n + 1) 128 = 128\<rparr>)"
proof -
  have b: "head b < length (buffer b)" "length (buffer b) = 128" "tail b < 128"
    using ok by (simp_all add: kbd_ok_def KBD_BUFFER_SIZE_def)
  note c = kbd_count_law [OF ok]
  show ?thesis
  proof (cases "full b")
    case True
    then have "kbd_count b = 128" "head b = tail b" using c b by simp_all
    then show ?thesis
      using True b by (simp add: kbd_buffer_push_def advance_head_def advance_tail_def KBD_BUFFER_SIZE_def Let_def mod_simps)
  next
    case False
    then have "(tail b + (kbd_count b + 1)) mod 128 = tail b \<longleftrightarrow> kbd_count b + 1 = 128"
      using c(2,3) b(3) by (auto simp: mod_if)
    then show ?thesis
      using False b c(1-3) by (simp add: kbd_buffer_push_def advance_head_def KBD_BUFFER_SIZE_def Let_def mod_simps min_def)
  qed
qed

lemma kbd_push_law:
  assumes ok: "kbd_ok b"
  shows "\<exists>b'. kbd_buffer_push e b = Inr b' \<and> kbd_ok b' \<and> kbd_events b' = last_n KBD_BUFFER_SIZE (kbd_events b @ [e])"
proof -
  define n where "n = kbd_count b"
  define t where "t = (if n = 128 then (tail b + 1) mod 128 else tail b)"
  define b0 where "b0 = b\<lparr>buffer := (buffer b)[(tail b + n) mod 128 := e]\<rparr>"
  define b' where "b' = b0\<lparr>head := (t + min (n + 1) 128) mod 128, tail := t, full := min (n + 1) 128 = 128\<rparr>"
  have n: "n \<le> 128" using kbd_count_law [OF ok] by (simp add: n_def)
  have tb: "tail b < 128" "length (buffer b) = 128" using ok by (simp_all add: kbd_ok_def KBD_BUFFER_SIZE_def)
  have t: "t < 128" using tb by (simp add: t_def)
  have push: "kbd_buffer_push e b = Inr b'"
    using kbd_push_eq [OF ok, of e] by (simp add: Let_def n_def t_def b'_def b0_def)
  have c: "kbd_ok b'" "kbd_count b' = min (n + 1) 128"
    using kbd_count_unique [of b0 t "min (n + 1) 128" b'] tb t by (simp_all add: b'_def b0_def)
  have "kbd_events b' = last_n 128 (kbd_events b @ [e])"
  proof (rule nth_equalityI)
    have len: "length (kbd_events b) = n" by (simp add: kbd_events_def n_def)
    show "length (kbd_events b') = length (last_n 128 (kbd_events b @ [e]))"
      using n len by (simp add: kbd_events_def c)
    fix i assume "i < length (kbd_events b')"
    then have i: "i < min (n + 1) 128" by (simp add: kbd_events_def c)
    have lhs: "kbd_events b' ! i = ((buffer b)[(tail b + n) mod 128 := e]) ! ((t + i) mod 128)"
      using i by (simp del: upt_Suc add: kbd_events_def c KBD_BUFFER_SIZE_def) (simp add: b'_def b0_def)
    have old: "kbd_events b ! j = buffer b ! ((tail b + j) mod 128)" if "j < n" for j
      using that by (simp add: kbd_events_def n_def KBD_BUFFER_SIZE_def)
    show "kbd_events b' ! i = last_n 128 (kbd_events b @ [e]) ! i"
    proof (cases "n = 128")
      case False
      then have "last_n 128 (kbd_events b @ [e]) = kbd_events b @ [e]" using n len by simp
      moreover have "(t + i) mod 128 = (tail b + n) mod 128 \<longleftrightarrow> i = n"
        using False n i mod_add_inj [of "tail b" i 128 n] by (auto simp: t_def)
      ultimately show ?thesis using lhs old [of i] i len tb False by (auto simp: nth_append t_def)
    next
      case True
      then have r: "last_n 128 (kbd_events b @ [e]) ! i = (kbd_events b @ [e]) ! (i + 1)"
        using len i by (auto simp: last_n_def nth_append)
      have ti: "(t + i) mod 128 = (tail b + (i + 1)) mod 128" using True by (simp add: t_def mod_simps)
      have "(tail b + (i + 1)) mod 128 = (tail b + n) mod 128 \<longleftrightarrow> i + 1 = 128"
      proof (cases "i + 1 = 128")
        case False
        then show ?thesis using mod_add_inj [of "tail b" "i + 1" 128 0] i True by auto
      qed (simp add: True)
      then show ?thesis using lhs r ti old [of "i + 1"] i len tb True by (auto simp: nth_append)
    qed
  qed
  then show ?thesis using push c(1) by (simp add: KBD_BUFFER_SIZE_def)
qed

lemma kbd_pop_law:
  assumes ok: "kbd_ok b" and ev: "kbd_events b = x # xs"
  shows "\<exists>b'. kbd_buffer_pop b = Inr (0, Some x, b') \<and> kbd_ok b' \<and> kbd_events b' = xs"
proof -
  define n where "n = kbd_count b"
  have pos: "0 < n" using ev by (cases n) (simp_all add: kbd_events_def n_def)
  have n: "n \<le> 128" and h: "head b = (tail b + n) mod 128" using kbd_count_law [OF ok] by (simp_all add: n_def)
  have tb: "tail b < 128" "length (buffer b) = 128" using ok by (simp_all add: kbd_ok_def KBD_BUFFER_SIZE_def)
  define b' where "b' = b\<lparr>tail := (tail b + 1) mod 128, full := False\<rparr>"
  have "((tail b + 1) mod 128 + (n - 1)) mod 128 = (tail b + n) mod 128" using pos by (cases n) (simp_all add: mod_simps)
  then have b': "b' = b\<lparr>head := ((tail b + 1) mod 128 + (n - 1)) mod 128, tail := (tail b + 1) mod 128, full := n - 1 = 128\<rparr>"
    using h n pos by (simp add: b'_def)
  have c: "kbd_ok b'" "kbd_count b' = n - 1" using kbd_count_unique [OF tb(2) _ _ b'] n by simp_all
  have all: "kbd_events b = map (\<lambda>i. buffer b ! ((tail b + i) mod 128)) [0..<Suc (n - 1)]"
    using pos by (simp add: kbd_events_def n_def KBD_BUFFER_SIZE_def)
  have "kbd_events b' = map (\<lambda>i. buffer b ! ((tail b + Suc i) mod 128)) [0..<n - 1]"
    using c(2) by (simp add: kbd_events_def KBD_BUFFER_SIZE_def) (simp add: b'_def mod_simps)
  moreover have "x # xs = (buffer b ! tail b) # map (\<lambda>i. buffer b ! ((tail b + Suc i) mod 128)) [0..<n - 1]"
    using ev all tb by (auto simp del: upt_Suc simp: upt_conv_Cons map_Suc_upt [symmetric] o_def)
  moreover have "kbd_buffer_pop b = Inr (0, Some (buffer b ! tail b), b')"
    using kbd_count_law(4) [OF ok] pos tb by (simp add: kbd_buffer_pop_def n_def advance_tail_def b'_def KBD_BUFFER_SIZE_def)
  ultimately show ?thesis using c(1) by simp
qed

interpretation kbd: lossy_queue kbd_ok kbd_events kbd_buffer_push kbd_buffer_pop KBD_BUFFER_SIZE
proof unfold_locales
  fix q x
  assume ok: "kbd_ok q"
  show "length (kbd_events q) \<le> KBD_BUFFER_SIZE" using kbd_count_law(2) [OF ok] by (simp add: kbd_events_def KBD_BUFFER_SIZE_def)
  show "\<exists>q'. kbd_buffer_push x q = Inr q' \<and> kbd_ok q' \<and> kbd_events q' = last_n KBD_BUFFER_SIZE (kbd_events q @ [x])"
    by (rule kbd_push_law [OF ok])
  show "kbd_buffer_pop q = Inr (- 1, None, q)" if "kbd_events q = []"
    using that kbd_count_law(4) [OF ok] by (simp add: kbd_events_def kbd_buffer_pop_def)
  show "\<exists>q'. kbd_buffer_pop q = Inr (0, Some x, q') \<and> kbd_ok q' \<and> kbd_events q' = xs" if "kbd_events q = x # xs" for xs
    by (rule kbd_pop_law [OF ok that])
qed

lemma init_keyboard_ok: "length (buffer b) = KBD_BUFFER_SIZE \<Longrightarrow> kbd_ok (init_keyboard b) \<and> kbd_events (init_keyboard b) = []"
  by (simp add: kbd_ok_def kbd_events_def init_keyboard_def kbd_count_def KBD_BUFFER_SIZE_def)

section \<open>Properties\<close>

text \<open>C36. The keyboard buffer is a queue of the 128 latest events. After any sequence of pushes on a well-formed
  buffer, popping until the buffer reports that it is empty returns, in order, the last 128 of the events it held
  followed by the events pushed; no access leaves the array.\<close>

theorem kbd_buffer_fifo:
  assumes "kbd_ok b"
  shows "\<exists>b1 b2. push_all kbd_buffer_push es b = Inr b1 \<and>
    drain kbd_buffer_pop KBD_BUFFER_SIZE b1 = Inr (last_n KBD_BUFFER_SIZE (kbd_events b @ es), b2) \<and>
    kbd_ok b2 \<and> kbd_buffer_pop b2 = Inr (- 1, None, b2)"
  using kbd.push_drain [OF assms, of es] kbd.pop_none by blast

definition no_event :: kbd_event where "no_event = \<lparr>code = 0, state = KEY_RELEASED, mods = 0\<rparr>"

definition fresh_buffer :: kbd_buffer_state where
  "fresh_buffer = init_keyboard \<lparr>head = 5, tail = 7, buffer = replicate 128 no_event, full = True\<rparr>"

lemma fresh_buffer_ok: "kbd_ok fresh_buffer" "kbd_events fresh_buffer = []"
  using init_keyboard_ok [of "\<lparr>head = 5, tail = 7, buffer = replicate 128 no_event, full = True\<rparr>"]
  by (simp_all add: fresh_buffer_def KBD_BUFFER_SIZE_def)

theorem kbd_buffer_fifo_witness:
  "\<exists>b1 b2. push_all kbd_buffer_push [no_event, no_event\<lparr>code := 5\<rparr>] fresh_buffer = Inr b1 \<and>
    drain kbd_buffer_pop KBD_BUFFER_SIZE b1 = Inr ([no_event, no_event\<lparr>code := 5\<rparr>], b2)"
  using kbd_buffer_fifo [OF fresh_buffer_ok(1), of "[no_event, no_event\<lparr>code := 5\<rparr>]"]
  by (auto simp: fresh_buffer_ok KBD_BUFFER_SIZE_def)

end
