(* ===== verification/Ps2kbd.thy ===== *)
theory Ps2kbd
  imports Keyboard
begin

unbundle bit_operations_syntax

text \<open>
  The PS/2 keyboard driver, \<^verbatim>\<open>src/devices/input/keyboard/drivers/ps2kbd.c\<close>: the interrupt handler that decodes
  the bytes of scan code set 2 into key events. A key stroke is an optional prefix for extended keys, an
  optional prefix for a release, and a scan code; the handler keeps the prefixes, the set of keys that are down and
  the caps lock state between interrupts. Messages to the console are left out.
\<close>

section \<open>Scan codes\<close>

abbreviation PS2_EXTENDED_SCANCODE_PREFIX :: u8 where "PS2_EXTENDED_SCANCODE_PREFIX \<equiv> 0xE0"
abbreviation PS2_RELEASE_PREFIX :: u8 where "PS2_RELEASE_PREFIX \<equiv> 0xF0"
abbreviation PS2_PAUSE_PREFIX :: u8 where "PS2_PAUSE_PREFIX \<equiv> 0xE1"

definition PS2_PAUSE_SEQ :: "u8 list" where
  "PS2_PAUSE_SEQ = [0xE1, 0x14, 0x77, 0xE1, 0xF0, 0x14, 0xF0, 0x77]"

text \<open>The tables, by their initialised entries.\<close>

definition PS2_NORMAL_LOOKUP :: "(u8 \<times> u16) list" where
  "PS2_NORMAL_LOOKUP =
    [(0x01, KEY_F9), (0x03, KEY_F5), (0x04, KEY_F3), (0x05, KEY_F1), (0x06, KEY_F2), (0x07, KEY_F12),
     (0x09, KEY_F10), (0x0A, KEY_F8), (0x0B, KEY_F6), (0x0C, KEY_F4), (0x0D, KEY_TAB), (0x0E, KEY_BACKTICK),
     (0x11, KEY_LEFT_ALT), (0x12, KEY_LEFT_SHIFT), (0x14, KEY_LEFT_CTRL), (0x15, KEY_Q), (0x16, KEY_1),
     (0x1A, KEY_Z), (0x1B, KEY_S), (0x1C, KEY_A), (0x1D, KEY_W), (0x1E, KEY_2), (0x21, KEY_C), (0x22, KEY_X),
     (0x23, KEY_D), (0x24, KEY_E), (0x25, KEY_4), (0x26, KEY_3), (0x29, KEY_SPACE), (0x2A, KEY_V), (0x2B, KEY_F),
     (0x2C, KEY_T), (0x2D, KEY_R), (0x2E, KEY_5), (0x31, KEY_N), (0x32, KEY_B), (0x33, KEY_H), (0x34, KEY_G),
     (0x35, KEY_Y), (0x36, KEY_6), (0x3A, KEY_M), (0x3B, KEY_J), (0x3C, KEY_U), (0x3D, KEY_7), (0x3E, KEY_8),
     (0x41, KEY_COMMA), (0x42, KEY_K), (0x43, KEY_I), (0x44, KEY_O), (0x45, KEY_0), (0x46, KEY_9),
     (0x49, KEY_PERIOD), (0x4A, KEY_SLASH), (0x4B, KEY_L), (0x4C, KEY_SEMICOLON), (0x4D, KEY_P), (0x4E, KEY_MINUS),
     (0x52, KEY_QUOTE), (0x54, KEY_LBRACK), (0x55, KEY_EQUALS), (0x58, KEY_CAPS_LOCK), (0x59, KEY_RIGHT_SHIFT),
     (0x5A, KEY_ENTER), (0x5B, KEY_RBRACK), (0x5D, KEY_BACKSLASH), (0x66, KEY_BACKSPACE), (0x69, KEY_KP_1),
     (0x6B, KEY_KP_4), (0x6C, KEY_KP_7), (0x70, KEY_KP_0), (0x71, KEY_KP_PERIOD), (0x72, KEY_KP_2), (0x73, KEY_KP_5),
     (0x74, KEY_KP_6), (0x75, KEY_KP_8), (0x76, KEY_ESC), (0x77, KEY_NUM_LOCK), (0x78, KEY_F11), (0x79, KEY_KP_PLUS),
     (0x7A, KEY_KP_3), (0x7B, KEY_KP_MINUS), (0x7C, KEY_KP_ASTERISK), (0x7D, KEY_KP_9), (0x7E, KEY_SCROLL_LOCK),
     (0x83, KEY_F7)]"

definition PS2_EXTENDED_LOOKUP :: "(u8 \<times> u16) list" where
  "PS2_EXTENDED_LOOKUP =
    [(0x11, KEY_RIGHT_ALT), (0x14, KEY_RIGHT_CTRL), (0x4A, KEY_KP_SLASH), (0x5A, KEY_ENTER), (0x69, KEY_END),
     (0x6B, KEY_LEFT), (0x6C, KEY_HOME), (0x70, KEY_INSERT), (0x71, KEY_DELETE), (0x72, KEY_DOWN), (0x74, KEY_RIGHT),
     (0x75, KEY_UP), (0x7A, KEY_PAGE_DOWN), (0x7D, KEY_PAGE_UP)]"

definition scan_entry :: "(u8 \<times> u16) list \<Rightarrow> u8 \<Rightarrow> u16" where
  "scan_entry entries c = (case map_of entries c of Some k \<Rightarrow> k | None \<Rightarrow> KEY_NONE)"

section \<open>The interrupt handler\<close>

record ps2_kbd =
  e0 :: bool
  f0 :: bool
  e1 :: bool
  e1_count :: u8
  is_key_pressed :: "u8 list"
  caps :: bool
  in_console_mode :: bool
  kbd_buffer :: kbd_buffer_state
  eois :: nat

definition ps2_lookup :: "bool \<Rightarrow> u8 \<Rightarrow> u16" where
  "ps2_lookup extended scancode = (if extended then scan_entry PS2_EXTENDED_LOOKUP scancode else scan_entry PS2_NORMAL_LOOKUP scancode)"

definition key_down :: "u8 list \<Rightarrow> u16 \<Rightarrow> bool" where
  "key_down keys k \<longleftrightarrow> keys ! (unat k div 8) AND push_bit (unat k mod 8) 1 \<noteq> 0"

definition get_mods :: "ps2_kbd \<Rightarrow> u8" where
  "get_mods s =
     (let down = key_down (is_key_pressed s);
          m = 0;
          m = (if down KEY_LEFT_SHIFT then m OR KBD_MOD_SHIFT else m);
          m = (if down KEY_RIGHT_SHIFT then m OR KBD_MOD_SHIFT else m);
          m = (if caps s then m OR KBD_MOD_CAPSLOCK else m);
          m = (if down KEY_LEFT_CTRL then m OR KBD_MOD_CTRL else m);
          m = (if down KEY_RIGHT_CTRL then m OR KBD_MOD_CTRL else m);
          m = (if down KEY_LEFT_ALT then m OR KBD_MOD_ALT else m);
          m = (if down KEY_RIGHT_ALT then m OR KBD_MOD_ALT else m);
          m = (if down KEY_LEFT_META then m OR KBD_MOD_META else m);
          m = (if down KEY_RIGHT_META then m OR KBD_MOD_META else m)
      in m)"

definition set_key :: "u16 \<Rightarrow> bool \<Rightarrow> u8 list \<Rightarrow> u8 list" where
  "set_key k down keys =
     (let i = unat k div 8; b = push_bit (unat k mod 8) 1
      in keys[i := (if down then keys ! i OR b else keys ! i AND NOT b)])"

definition push_event :: "kbd_event \<Rightarrow> ps2_kbd \<Rightarrow> ps2_kbd kres" where
  "push_event event s =
     (if in_console_mode s
      then bindR (kbd_buffer_push event (kbd_buffer s)) (\<lambda>b. Inr (s\<lparr>kbd_buffer := b\<rparr>))
      else Inr s)"

definition apic_send_eoi :: "ps2_kbd \<Rightarrow> ps2_kbd" where
  "apic_send_eoi s = s\<lparr>eois := eois s + 1\<rparr>"

text \<open>The part of the handler after the prefixes.\<close>

definition key_event :: "u8 \<Rightarrow> ps2_kbd \<Rightarrow> kbd_key_state \<times> u16 \<times> ps2_kbd" where
  "key_event inp s =
     (let keycode = ps2_lookup (e0 s) (inp AND 0x7F);
          keystate = (if inp AND 0x80 \<noteq> 0 then False else \<not> f0 s);
          s1 = s\<lparr>e0 := False, f0 := False\<rparr>;
          st = (if keycode < 0xFF
                then (if keystate then (if key_down (is_key_pressed s1) keycode then KEY_REPEAT else KEY_PRESSED) else KEY_RELEASED)
                else (if keystate then KEY_PRESSED else KEY_RELEASED));
          s2 = (if keycode < 0xFF then s1\<lparr>is_key_pressed := set_key keycode keystate (is_key_pressed s1)\<rparr> else s1);
          s3 = (if st = KEY_PRESSED \<and> keycode = KEY_CAPS_LOCK then s2\<lparr>caps := \<not> caps s2\<rparr> else s2)
      in (st, keycode, s3))"

definition decode_byte :: "u8 \<Rightarrow> ps2_kbd \<Rightarrow> ps2_kbd kres" where
  "decode_byte inp s =
     (if inp = PS2_EXTENDED_SCANCODE_PREFIX then Inr (s\<lparr>e0 := True\<rparr>)
      else if inp = PS2_RELEASE_PREFIX then Inr (s\<lparr>f0 := True\<rparr>)
      else if inp = PS2_PAUSE_PREFIX then Inr (s\<lparr>e1 := True, e1_count := 1\<rparr>)
      else (case key_event inp s of (st, keycode, s1) \<Rightarrow>
              push_event \<lparr>code = keycode, state = st, mods = get_mods s1\<rparr> s1))"

definition keyboard_irq_routine :: "u8 \<Rightarrow> ps2_kbd \<Rightarrow> ps2_kbd kres" where
  "keyboard_irq_routine inp s =
     bindR
       (if e1 s then
          (if length PS2_PAUSE_SEQ \<le> unat (e1_count s) then Inl BadAccess
           else let expected = PS2_PAUSE_SEQ ! unat (e1_count s);
                    s1 = s\<lparr>e1_count := e1_count s + 1\<rparr>
                in if inp \<noteq> expected then Inr (s1\<lparr>e1 := False, e1_count := 0\<rparr>)
                   else if unat (e1_count s1) = length PS2_PAUSE_SEQ
                   then bindR (push_event \<lparr>code = KEY_PAUSE, state = KEY_PRESSED, mods = get_mods s1\<rparr> s1)
                          (\<lambda>s2. Inr (s2\<lparr>e1 := False, e1_count := 0\<rparr>))
                   else decode_byte inp s1)
        else decode_byte inp s)
       (\<lambda>s1. Inr (apic_send_eoi s1))"

primrec irqs :: "u8 list \<Rightarrow> ps2_kbd \<Rightarrow> ps2_kbd kres" where
  "irqs [] s = Inr s"
| "irqs (c # cs) s = bindR (keyboard_irq_routine c s) (irqs cs)"

lemma irqs_append: "irqs (xs @ ys) s = bindR (irqs xs s) (irqs ys)"
proof (induction xs arbitrary: s)
  case (Cons c xs)
  then show ?case by (cases "keyboard_irq_routine c s") simp_all
qed simp

section \<open>Key strokes\<close>

text \<open>The keyboard as its user sees it: strokes change the set of keys that are down and the caps lock state.\<close>

datatype stroke = Stroke (extended: bool) (release: bool) (scancode: u8)

definition stroke_bytes :: "stroke \<Rightarrow> u8 list" where
  "stroke_bytes k = (if extended k then [0xE0] else []) @ (if release k then [0xF0] else []) @ [scancode k]"

definition stroke_key :: "stroke \<Rightarrow> u16" where
  "stroke_key k = ps2_lookup (extended k) (scancode k)"

record keys =
  down :: "u16 set"
  caps_on :: bool

definition mods_of :: "keys \<Rightarrow> u8" where
  "mods_of ks =
     (if KEY_LEFT_SHIFT \<in> down ks \<or> KEY_RIGHT_SHIFT \<in> down ks then KBD_MOD_SHIFT else 0) OR
     (if caps_on ks then KBD_MOD_CAPSLOCK else 0) OR
     (if KEY_LEFT_CTRL \<in> down ks \<or> KEY_RIGHT_CTRL \<in> down ks then KBD_MOD_CTRL else 0) OR
     (if KEY_LEFT_ALT \<in> down ks \<or> KEY_RIGHT_ALT \<in> down ks then KBD_MOD_ALT else 0) OR
     (if KEY_LEFT_META \<in> down ks \<or> KEY_RIGHT_META \<in> down ks then KBD_MOD_META else 0)"

definition stroke_keys :: "bool \<Rightarrow> u16 \<Rightarrow> keys \<Rightarrow> keys" where
  "stroke_keys rel k ks =
     (if rel then ks\<lparr>down := down ks - {k}\<rparr>
      else ks\<lparr>down := insert k (down ks), caps_on := (caps_on ks \<noteq> (k = KEY_CAPS_LOCK \<and> k \<notin> down ks))\<rparr>)"

definition stroke_event :: "bool \<Rightarrow> u16 \<Rightarrow> keys \<Rightarrow> kbd_event" where
  "stroke_event rel k ks =
     \<lparr>code = k, state = (if rel then KEY_RELEASED else if k \<in> down ks then KEY_REPEAT else KEY_PRESSED),
      mods = mods_of (stroke_keys rel k ks)\<rparr>"

fun type_strokes :: "stroke list \<Rightarrow> keys \<Rightarrow> kbd_event list \<times> keys" where
  "type_strokes [] ks = ([], ks)"
| "type_strokes (k # rest) ks =
     (case type_strokes rest (stroke_keys (release k) (stroke_key k) ks) of
        (evs, ks') \<Rightarrow> (stroke_event (release k) (stroke_key k) ks # evs, ks'))"

definition keys_of :: "ps2_kbd \<Rightarrow> keys" where
  "keys_of s = \<lparr>down = {k. k < 256 \<and> key_down (is_key_pressed s) k}, caps_on = caps s\<rparr>"

definition ps2_ok :: "ps2_kbd \<Rightarrow> bool" where
  "ps2_ok s \<longleftrightarrow> length (is_key_pressed s) = 32 \<and> kbd_ok (kbd_buffer s)"

text \<open>No prefix is pending.\<close>

definition idle :: "ps2_kbd \<Rightarrow> bool" where
  "idle s \<longleftrightarrow> \<not> e0 s \<and> \<not> f0 s \<and> \<not> e1 s"

section \<open>Lemmas\<close>

lemma key_down_bit: "key_down keys k \<longleftrightarrow> bit (keys ! (unat k div 8)) (unat k mod 8)"
  by (simp add: key_down_def push_bit_of_1 and_exp_eq_0_iff_not_bit)

lemma key_index: "(k :: u16) < 256 \<Longrightarrow> unat k div 8 < 32"
  by (simp add: word_less_nat_alt div_less_iff_less_mult)

lemma key_index_inj: "unat (k :: u16) div 8 = unat l div 8 \<Longrightarrow> unat k mod 8 = unat l mod 8 \<Longrightarrow> k = l"
  by (metis div_mult_mod_eq word_unat_eq_iff)

lemma length_set_key [simp]: "length (set_key k b keys) = length keys"
  by (simp add: set_key_def Let_def)

lemma key_down_set_key:
  assumes "length keys = 32" "k < 256" "l < 256"
  shows "key_down (set_key k b keys) l \<longleftrightarrow> (if l = k then b else key_down keys l)"
proof (cases "unat l div 8 = unat k div 8")
  case True
  have "unat l mod 8 = unat k mod 8 \<longleftrightarrow> l = k" using key_index_inj [OF True] by auto
  then show ?thesis
    using assms key_index [OF assms(2)] True
    by (auto simp: key_down_bit set_key_def Let_def push_bit_of_1 bit_or_iff bit_and_iff bit_not_iff bit_exp_iff)
next
  case False
  then have "l \<noteq> k" by auto
  then show ?thesis using False by (simp add: key_down_def set_key_def Let_def)
qed

lemma scan_entry_bound: "list_all (\<lambda>(c, k). k < 0xFF) entries \<Longrightarrow> scan_entry entries c < 0xFF"
  by (auto simp: scan_entry_def list_all_iff dest!: map_of_SomeD split: option.split)

lemma ps2_lookup_bound: "ps2_lookup x c < 0xFF"
proof -
  have "list_all (\<lambda>(c, k). k < 0xFF) PS2_NORMAL_LOOKUP" "list_all (\<lambda>(c, k). k < 0xFF) PS2_EXTENDED_LOOKUP" by code_simp+
  then show ?thesis by (simp add: ps2_lookup_def scan_entry_bound)
qed

lemma keys_of_simps [simp]:
  "keys_of (s\<lparr>e0 := a\<rparr>) = keys_of s" "keys_of (s\<lparr>f0 := a\<rparr>) = keys_of s" "keys_of (s\<lparr>e1 := a\<rparr>) = keys_of s"
  "keys_of (s\<lparr>e1_count := c\<rparr>) = keys_of s" "keys_of (s\<lparr>kbd_buffer := b\<rparr>) = keys_of s" "keys_of (s\<lparr>eois := n\<rparr>) = keys_of s"
  by (simp_all add: keys_of_def)

lemma get_mods_keys: "get_mods s = mods_of (keys_of s)"
  by (simp add: get_mods_def mods_of_def keys_of_def Let_def or.assoc)

text \<open>A scan code, whatever prefixes came before: the event and the new keys.\<close>

lemma key_event_law:
  assumes "length (is_key_pressed s) = 32" "inp AND 0x80 = 0"
  shows "\<exists>s'. key_event inp s = (state (stroke_event (f0 s) (ps2_lookup (e0 s) inp) (keys_of s)), ps2_lookup (e0 s) inp, s') \<and>
    keys_of s' = stroke_keys (f0 s) (ps2_lookup (e0 s) inp) (keys_of s) \<and>
    s' = s\<lparr>e0 := False, f0 := False, is_key_pressed := is_key_pressed s', caps := caps s'\<rparr> \<and>
    length (is_key_pressed s') = 32"
proof -
  define k where "k = ps2_lookup (e0 s) inp"
  have k: "k < 0xFF" using ps2_lookup_bound by (simp add: k_def)
  then have k256: "k < 256" by (rule order.strict_trans) simp
  have m: "inp AND 0x7F = inp"
  proof (rule bit_word_eqI)
    fix n assume "n < LENGTH(8)"
    then have "n < 7 \<or> n = 7" by auto
    moreover have "\<not> bit inp 7" using assms(2) and_exp_eq_0_iff_not_bit [of inp 7] by simp
    moreover have "bit (0x7F :: u8) n \<longleftrightarrow> n < 7"
      using bit_mask_iff [of 7 n, where 'a = u8] \<open>n < LENGTH(8)\<close> by (simp add: mask_eq_exp_minus_1)
    ultimately show "bit (inp AND 0x7F) n \<longleftrightarrow> bit inp n" by (auto simp: bit_and_iff)
  qed
  have kd: "key_down (set_key k b (is_key_pressed s)) l \<longleftrightarrow> (if l = k then b else key_down (is_key_pressed s) l)" if "l < 256" for l b
    by (rule key_down_set_key [OF assms(1) k256 that])
  let ?st = "if \<not> f0 s then (if key_down (is_key_pressed s) k then KEY_REPEAT else KEY_PRESSED) else KEY_RELEASED"
  let ?s' = "s\<lparr>e0 := False, f0 := False, is_key_pressed := set_key k (\<not> f0 s) (is_key_pressed s),
    caps := (caps s \<noteq> (?st = KEY_PRESSED \<and> k = KEY_CAPS_LOCK))\<rparr>"
  have ke: "key_event inp s = (?st, k, ?s')"
    using k assms(2) m by (auto simp: key_event_def Let_def k_def [symmetric])
  have "down (keys_of ?s') = down (stroke_keys (f0 s) k (keys_of s))"
    using kd k256 by (auto simp: keys_of_def stroke_keys_def split: if_splits)
  moreover have "caps_on (keys_of ?s') = caps_on (stroke_keys (f0 s) k (keys_of s))"
    using k256 by (auto simp: keys_of_def stroke_keys_def)
  ultimately have "keys_of ?s' = stroke_keys (f0 s) k (keys_of s)" by simp
  moreover have "?st = state (stroke_event (f0 s) k (keys_of s))"
    using k256 by (simp add: stroke_event_def keys_of_def)
  ultimately show ?thesis using ke assms(1) unfolding k_def [symmetric] by auto
qed

definition sent :: "ps2_kbd \<Rightarrow> kbd_event list \<Rightarrow> ps2_kbd \<Rightarrow> bool" where
  "sent s evs s' \<longleftrightarrow> ps2_ok s' \<and> in_console_mode s' \<and>
     kbd_events (kbd_buffer s') = last_n KBD_BUFFER_SIZE (kbd_events (kbd_buffer s) @ evs)"

lemma sent_Nil:
  "ps2_ok s \<Longrightarrow> in_console_mode s \<Longrightarrow> sent s [] s"
  by (simp add: sent_def ps2_ok_def kbd.bounded)

lemma sent_trans: "sent s evs s1 \<Longrightarrow> sent s1 evs' s2 \<Longrightarrow> sent s (evs @ evs') s2"
  by (simp add: sent_def last_n_append)

lemma sent_flags:
  "sent s evs (s'\<lparr>e0 := a\<rparr>) \<longleftrightarrow> sent s evs s'" "sent s evs (s'\<lparr>f0 := a\<rparr>) \<longleftrightarrow> sent s evs s'"
  "sent s evs (s'\<lparr>e1 := a\<rparr>) \<longleftrightarrow> sent s evs s'" "sent s evs (s'\<lparr>e1_count := c\<rparr>) \<longleftrightarrow> sent s evs s'"
  "sent s evs (s'\<lparr>eois := n\<rparr>) \<longleftrightarrow> sent s evs s'"
  "sent (s\<lparr>e0 := a\<rparr>) evs s' \<longleftrightarrow> sent s evs s'" "sent (s\<lparr>f0 := a\<rparr>) evs s' \<longleftrightarrow> sent s evs s'"
  "sent (s\<lparr>e1 := a\<rparr>) evs s' \<longleftrightarrow> sent s evs s'" "sent (s\<lparr>e1_count := c\<rparr>) evs s' \<longleftrightarrow> sent s evs s'"
  "sent (s\<lparr>eois := n\<rparr>) evs s' \<longleftrightarrow> sent s evs s'"
  by (simp_all add: sent_def ps2_ok_def)

lemma ps2_ok_flags [simp]:
  "ps2_ok (s\<lparr>e0 := a\<rparr>) \<longleftrightarrow> ps2_ok s" "ps2_ok (s\<lparr>f0 := a\<rparr>) \<longleftrightarrow> ps2_ok s" "ps2_ok (s\<lparr>e1 := a\<rparr>) \<longleftrightarrow> ps2_ok s"
  "ps2_ok (s\<lparr>e1_count := c\<rparr>) \<longleftrightarrow> ps2_ok s" "ps2_ok (s\<lparr>eois := n\<rparr>) \<longleftrightarrow> ps2_ok s"
  by (simp_all add: ps2_ok_def)

text \<open>What an interrupt with a plain scan code does when no pause sequence is being read.\<close>

lemma decode_law:
  assumes ok: "ps2_ok s" "in_console_mode s" and inp: "inp AND 0x80 = 0"
  shows "\<exists>s'. decode_byte inp s = Inr s' \<and> sent s [stroke_event (f0 s) (ps2_lookup (e0 s) inp) (keys_of s)] s' \<and>
    keys_of s' = stroke_keys (f0 s) (ps2_lookup (e0 s) inp) (keys_of s) \<and>
    \<not> e0 s' \<and> \<not> f0 s' \<and> e1 s' = e1 s \<and> e1_count s' = e1_count s \<and> eois s' = eois s"
proof -
  let ?k = "ps2_lookup (e0 s) inp"
  let ?ev = "stroke_event (f0 s) ?k (keys_of s)"
  have no: "inp \<noteq> 0xE0" "inp \<noteq> 0xF0" "inp \<noteq> 0xE1" using inp by auto
  obtain s1 where s1: "key_event inp s = (state ?ev, ?k, s1)" "keys_of s1 = stroke_keys (f0 s) ?k (keys_of s)"
      "s1 = s\<lparr>e0 := False, f0 := False, is_key_pressed := is_key_pressed s1, caps := caps s1\<rparr>" "length (is_key_pressed s1) = 32"
    using key_event_law [of s inp] ok(1) inp by (auto simp: ps2_ok_def)
  have f: "kbd_buffer s1 = kbd_buffer s" "in_console_mode s1" "\<not> e0 s1" "\<not> f0 s1" "e1 s1 = e1 s" "e1_count s1 = e1_count s" "eois s1 = eois s"
    using ok(2) by (subst s1(3), simp)+
  have ev: "\<lparr>code = ?k, state = state ?ev, mods = get_mods s1\<rparr> = ?ev"
    by (simp add: get_mods_keys s1(2) stroke_event_def)
  obtain b where b: "kbd_buffer_push ?ev (kbd_buffer s) = Inr b" "kbd_ok b"
      "kbd_events b = last_n KBD_BUFFER_SIZE (kbd_events (kbd_buffer s) @ [?ev])"
    using kbd_push_law ok(1) by (auto simp: ps2_ok_def)
  have "decode_byte inp s = Inr (s1\<lparr>kbd_buffer := b\<rparr>)"
    using no s1(1) ev b(1) f(1,2) by (simp add: decode_byte_def push_event_def)
  then show ?thesis using b f s1(2,4) by (auto simp: sent_def ps2_ok_def)
qed

lemma irq_plain: "\<not> e1 s \<Longrightarrow> keyboard_irq_routine inp s = bindR (decode_byte inp s) (\<lambda>s1. Inr (apic_send_eoi s1))"
  by (simp add: keyboard_irq_routine_def)

lemma irq_prefix:
  "\<not> e1 s \<Longrightarrow> keyboard_irq_routine 0xE0 s = Inr (s\<lparr>e0 := True, eois := eois s + 1\<rparr>)"
  "\<not> e1 s \<Longrightarrow> keyboard_irq_routine 0xF0 s = Inr (s\<lparr>f0 := True, eois := eois s + 1\<rparr>)"
  "\<not> e1 s \<Longrightarrow> keyboard_irq_routine 0xE1 s = Inr (s\<lparr>e1 := True, e1_count := 1, eois := eois s + 1\<rparr>)"
  by (simp_all add: irq_plain decode_byte_def apic_send_eoi_def)

lemma irq_scan_law:
  assumes "ps2_ok s" "in_console_mode s" "\<not> e1 s" "inp AND 0x80 = 0"
  shows "\<exists>s'. keyboard_irq_routine inp s = Inr s' \<and> sent s [stroke_event (f0 s) (ps2_lookup (e0 s) inp) (keys_of s)] s' \<and>
    keys_of s' = stroke_keys (f0 s) (ps2_lookup (e0 s) inp) (keys_of s) \<and> idle s'"
  using decode_law [OF assms(1,2,4)] assms(3) by (auto simp: irq_plain apic_send_eoi_def sent_flags idle_def)

lemma stroke_law:
  assumes ok: "ps2_ok s" "in_console_mode s" "idle s" and c: "scancode k AND 0x80 = 0"
  shows "\<exists>s'. irqs (stroke_bytes k) s = Inr s' \<and> sent s [stroke_event (release k) (stroke_key k) (keys_of s)] s' \<and>
    keys_of s' = stroke_keys (release k) (stroke_key k) (keys_of s) \<and> idle s'"
proof -
  define n where "n = eois s + (if extended k then 1 else 0) + (if release k then 1 else 0)"
  define s1 where "s1 = s\<lparr>e0 := extended k, f0 := release k, eois := n\<rparr>"
  have i: "\<not> e0 s" "\<not> f0 s" "\<not> e1 s" using ok(3) by (simp_all add: idle_def)
  have "irqs (stroke_bytes k) s = bindR (keyboard_irq_routine (scancode k) s1) (irqs [])"
    using i by (cases s; cases "extended k"; cases "release k") (simp_all add: stroke_bytes_def irq_prefix s1_def n_def)
  moreover have "ps2_ok s1" "in_console_mode s1" "\<not> e1 s1" "keys_of s1 = keys_of s" using ok i by (simp_all add: s1_def)
  ultimately show ?thesis
    using irq_scan_law [of s1 "scancode k"] c by (auto simp: s1_def stroke_key_def sent_flags)
qed

lemma strokes_law:
  "ps2_ok s \<Longrightarrow> in_console_mode s \<Longrightarrow> idle s \<Longrightarrow> \<forall>k \<in> set ks. scancode k AND 0x80 = 0 \<Longrightarrow>
   \<exists>s'. irqs (concat (map stroke_bytes ks)) s = Inr s' \<and> sent s (fst (type_strokes ks (keys_of s))) s' \<and>
    keys_of s' = snd (type_strokes ks (keys_of s)) \<and> idle s'"
proof (induction ks arbitrary: s)
  case Nil
  then show ?case by (simp add: sent_Nil)
next
  case (Cons k ks)
  then have "scancode k AND 0x80 = 0" by simp
  from stroke_law [OF Cons.prems(1-3) this] obtain s1 where s1: "irqs (stroke_bytes k) s = Inr s1" "idle s1"
      "sent s [stroke_event (release k) (stroke_key k) (keys_of s)] s1" "keys_of s1 = stroke_keys (release k) (stroke_key k) (keys_of s)"
    by blast
  have "ps2_ok s1" "in_console_mode s1" using s1(3) by (simp_all add: sent_def)
  from Cons.IH [OF this s1(2)] Cons.prems(4) obtain s2 where "irqs (concat (map stroke_bytes ks)) s1 = Inr s2"
      "sent s1 (fst (type_strokes ks (keys_of s1))) s2" "keys_of s2 = snd (type_strokes ks (keys_of s1))" "idle s2"
    by auto
  then show ?case using s1 sent_trans [OF s1(3)] by (auto simp: irqs_append split: prod.split)
qed

text \<open>An interrupt inside of a pause sequence.\<close>

lemma irq_in_pause:
  assumes "e1 s" "unat (e1_count s) < 7" "inp = PS2_PAUSE_SEQ ! unat (e1_count s)"
  shows "keyboard_irq_routine inp s = bindR (decode_byte inp (s\<lparr>e1_count := e1_count s + 1\<rparr>)) (\<lambda>s1. Inr (apic_send_eoi s1))"
proof -
  have "unat (e1_count s + 1) \<noteq> 8" using assms(2) by unat_arith
  then show ?thesis using assms by (simp add: keyboard_irq_routine_def PS2_PAUSE_SEQ_def Let_def)
qed

lemma irq_in_pause_scan:
  assumes "ps2_ok s" "in_console_mode s" "e1 s" "\<not> e0 s" "\<not> f0 s" "e1_count s = c" "unat c < 7" "inp = PS2_PAUSE_SEQ ! unat c" "inp AND 0x80 = 0"
  shows "\<exists>s'. keyboard_irq_routine inp s = Inr s' \<and> sent s [stroke_event False (ps2_lookup False inp) (keys_of s)] s' \<and>
    keys_of s' = stroke_keys False (ps2_lookup False inp) (keys_of s) \<and> \<not> e0 s' \<and> \<not> f0 s' \<and> e1 s' \<and> e1_count s' = c + 1"
  using decode_law [of "s\<lparr>e1_count := c + 1\<rparr>" inp] irq_in_pause [of s inp] assms
  by (auto simp: apic_send_eoi_def sent_flags)

section \<open>Properties\<close>


definition demo_ps2 :: ps2_kbd where
  "demo_ps2 = \<lparr>e0 = False, f0 = False, e1 = False, e1_count = 0, is_key_pressed = replicate 32 0, caps = False,
     in_console_mode = True, kbd_buffer = fresh_buffer, eois = 0\<rparr>"

lemma demo_ps2_ok: "ps2_ok demo_ps2" "in_console_mode demo_ps2" "idle demo_ps2" "keys_of demo_ps2 = \<lparr>down = {}, caps_on = False\<rparr>"
proof -
  have "\<not> key_down (replicate 32 0) k" if "k < 256" for k
    using key_index [OF that] by (simp add: key_down_def)
  then show "keys_of demo_ps2 = \<lparr>down = {}, caps_on = False\<rparr>" by (simp add: keys_of_def demo_ps2_def)
qed (simp_all add: demo_ps2_def ps2_ok_def idle_def fresh_buffer_ok)


text \<open>The pause key is never reported, although the handler has a branch for it: its sequence contains the
  pause prefix a second time, which starts the count again, so the next byte does not match. From a state with no
  pending prefix, the bytes of the pause key put the events of the strokes that the bytes look like into the buffer:
  presses of the left control key and of num lock and a release of num lock. No event has the pause code, and the
  left control key is left down.\<close>

lemma ps2_pause_unreported:
  assumes "ps2_ok s" "in_console_mode s" "idle s"
  shows "\<exists>s' evs. irqs PS2_PAUSE_SEQ s = Inr s' \<and> ps2_ok s' \<and> idle s' \<and>
    kbd_events (kbd_buffer s') = last_n KBD_BUFFER_SIZE (kbd_events (kbd_buffer s) @ evs) \<and>
    map code evs = [KEY_LEFT_CTRL, KEY_NUM_LOCK, KEY_LEFT_CTRL, KEY_NUM_LOCK] \<and> KEY_PAUSE \<notin> code ` set evs \<and>
    KEY_LEFT_CTRL \<in> down (keys_of s')"
proof -
  have k: "ps2_lookup False 0x14 = KEY_LEFT_CTRL" "ps2_lookup False 0x77 = KEY_NUM_LOCK"
    by (simp_all add: ps2_lookup_def scan_entry_def PS2_NORMAL_LOOKUP_def)
  have i: "\<not> e0 s" "\<not> f0 s" "\<not> e1 s" using assms(3) by (simp_all add: idle_def)
  define s1 where "s1 = s\<lparr>e1 := True, e1_count := 1, eois := eois s + 1\<rparr>"
  have s1: "keyboard_irq_routine 0xE1 s = Inr s1" using i by (simp add: irq_prefix s1_def)
  obtain s2 where s2: "keyboard_irq_routine 0x14 s1 = Inr s2" "sent s [stroke_event False KEY_LEFT_CTRL (keys_of s)] s2"
      "keys_of s2 = stroke_keys False KEY_LEFT_CTRL (keys_of s)" "\<not> e0 s2" "\<not> f0 s2" "e1 s2" "e1_count s2 = 2"
    using irq_in_pause_scan [of s1 1 "0x14"] assms i by (auto simp: s1_def PS2_PAUSE_SEQ_def k sent_flags)
  obtain s3 where s3: "keyboard_irq_routine 0x77 s2 = Inr s3" "sent s2 [stroke_event False KEY_NUM_LOCK (keys_of s2)] s3"
      "keys_of s3 = stroke_keys False KEY_NUM_LOCK (keys_of s2)" "\<not> e0 s3" "\<not> f0 s3" "e1 s3" "e1_count s3 = 3"
    using irq_in_pause_scan [of s2 2 "0x77"] s2 by (auto simp: sent_def PS2_PAUSE_SEQ_def k)
  define s4 where "s4 = s3\<lparr>e1_count := 1, eois := eois s3 + 1\<rparr>"
  have s4: "keyboard_irq_routine 0xE1 s3 = Inr s4"
    using irq_in_pause [of s3 "0xE1"] s3 by (cases s3) (simp add: PS2_PAUSE_SEQ_def decode_byte_def apic_send_eoi_def s4_def)
  define s5 where "s5 = s4\<lparr>e1 := False, e1_count := 0, eois := eois s4 + 1\<rparr>"
  have s5: "keyboard_irq_routine 0xF0 s4 = Inr s5"
    using s3 by (simp add: keyboard_irq_routine_def PS2_PAUSE_SEQ_def s4_def s5_def Let_def apic_send_eoi_def)
  have s5': "sent s3 [] s5" "keys_of s5 = keys_of s3" "idle s5" "ps2_ok s5" "in_console_mode s5"
    using s3 sent_Nil [of s3] by (simp_all add: s5_def s4_def sent_flags idle_def sent_def)
  let ?ks = "[Stroke False False 0x14, Stroke False True 0x77]"
  obtain s6 where s6: "irqs (concat (map stroke_bytes ?ks)) s5 = Inr s6" "sent s5 (fst (type_strokes ?ks (keys_of s5))) s6"
      "keys_of s6 = snd (type_strokes ?ks (keys_of s5))" "idle s6"
    using strokes_law [OF s5'(4,5,3), of ?ks] by auto
  have "irqs PS2_PAUSE_SEQ s = Inr s6"
    using s1 s2(1) s3(1) s4 s5 s6(1) by (simp add: PS2_PAUSE_SEQ_def stroke_bytes_def)
  moreover have "sent s ([stroke_event False KEY_LEFT_CTRL (keys_of s)] @ [stroke_event False KEY_NUM_LOCK (keys_of s2)] @
      [] @ fst (type_strokes ?ks (keys_of s5))) s6"
    using s2(2) s3(2) s5'(1) s6(2) by (blast intro: sent_trans)
  ultimately show ?thesis using s6(3,4) s5'(2) s3(3) s2(3)
    by (auto simp: sent_def stroke_event_def stroke_key_def k stroke_keys_def intro!: exI)
qed

end
