(* ===== verification/Ps2ctl.thy ===== *)
theory Ps2ctl
  imports Prelude "HOL-Library.Monad_Syntax"
begin

unbundle bit_operations_syntax

text \<open>
  Initialisation of the PS/2 controller, the second half of \<^verbatim>\<open>src/devices/input/keyboard/drivers/ps2kbd.c\<close>. The
  controller is not part of the program: it is a parameter, a pair of functions for the port instructions on a state
  of the device. The loops that poll its status register are partial, \<open>None\<close> stands for a poll that never ends.
  What is relied on is the documented behaviour of an 8042 controller, stated by \<open>behaves\<close> through a view of the
  device. Messages to the console are left out.
\<close>

section \<open>Ports\<close>

record 'd io =
  inb :: "u16 \<Rightarrow> 'd \<Rightarrow> u8 \<times> 'd"
  outb :: "u16 \<Rightarrow> u8 \<Rightarrow> 'd \<Rightarrow> 'd"

definition PS2_DATA :: u16 where "PS2_DATA = 0x60"
definition PS2_STATUS :: u16 where "PS2_STATUS = 0x64"
definition PS2_COMMAND :: u16 where "PS2_COMMAND = 0x64"

definition PS2_CFG_IRQ1_ENABLE :: u8 where "PS2_CFG_IRQ1_ENABLE = 0x01"
definition PS2_CFG_IRQ12_ENABLE :: u8 where "PS2_CFG_IRQ12_ENABLE = 0x02"
definition PS2_CFG_DISABLE_PORT1_CLK :: u8 where "PS2_CFG_DISABLE_PORT1_CLK = 0x10"
definition PS2_CFG_DISABLE_PORT2_CLK :: u8 where "PS2_CFG_DISABLE_PORT2_CLK = 0x20"
definition PS2_CFG_TRANSLATION :: u8 where "PS2_CFG_TRANSLATION = 0x40"

definition PS2_OBF :: u8 where "PS2_OBF = 0x01"
definition PS2_IBF :: u8 where "PS2_IBF = 0x02"

definition PS2_READ_CONFIG :: u8 where "PS2_READ_CONFIG = 0x20"
definition PS2_WRITE_CONFIG :: u8 where "PS2_WRITE_CONFIG = 0x60"
definition PS2_DISABLE_PORT1 :: u8 where "PS2_DISABLE_PORT1 = 0xAD"
definition PS2_ENABLE_PORT1 :: u8 where "PS2_ENABLE_PORT1 = 0xAE"
definition PS2_DISABLE_PORT2 :: u8 where "PS2_DISABLE_PORT2 = 0xA7"
definition PS2_ENABLE_PORT2 :: u8 where "PS2_ENABLE_PORT2 = 0xA8"
definition PS2_SELF_TEST :: u8 where "PS2_SELF_TEST = 0xAA"
definition PS2_TEST_PORT1 :: u8 where "PS2_TEST_PORT1 = 0xAB"
definition PS2_TEST_PORT2 :: u8 where "PS2_TEST_PORT2 = 0xA9"
definition PS2_WRITE_PORT2 :: u8 where "PS2_WRITE_PORT2 = 0xD4"

definition PS2_SELF_TEST_OK :: u8 where "PS2_SELF_TEST_OK = 0x55"
definition PS2_DEV_RESET :: u8 where "PS2_DEV_RESET = 0xFF"
definition PS2_DEV_ENABLE :: u8 where "PS2_DEV_ENABLE = 0xF4"
definition PS2_ACK :: u8 where "PS2_ACK = 0xFA"
definition PS2_SELFTEST_OK :: u8 where "PS2_SELFTEST_OK = 0xAA"

lemmas ps2_consts = PS2_CFG_IRQ1_ENABLE_def PS2_CFG_IRQ12_ENABLE_def PS2_CFG_DISABLE_PORT1_CLK_def
  PS2_CFG_DISABLE_PORT2_CLK_def PS2_CFG_TRANSLATION_def PS2_READ_CONFIG_def PS2_WRITE_CONFIG_def PS2_DISABLE_PORT1_def
  PS2_ENABLE_PORT1_def PS2_DISABLE_PORT2_def PS2_ENABLE_PORT2_def PS2_SELF_TEST_def PS2_TEST_PORT1_def
  PS2_TEST_PORT2_def PS2_WRITE_PORT2_def PS2_SELF_TEST_OK_def PS2_DEV_RESET_def PS2_DEV_ENABLE_def PS2_ACK_def
  PS2_SELFTEST_OK_def

section \<open>The driver\<close>

definition io_wait :: "'d io \<Rightarrow> 'd \<Rightarrow> 'd" where
  "io_wait io d = outb io 0x80 0 d"

partial_function (option) ps2_wait_before_writing :: "'d io \<Rightarrow> 'd \<Rightarrow> 'd option" where
  "ps2_wait_before_writing io d =
     (case inb io PS2_STATUS d of (st, d1) \<Rightarrow>
        if st AND PS2_IBF \<noteq> 0 then ps2_wait_before_writing io (io_wait io d1) else Some d1)"

partial_function (option) ps2_wait_before_reading :: "'d io \<Rightarrow> 'd \<Rightarrow> 'd option" where
  "ps2_wait_before_reading io d =
     (case inb io PS2_STATUS d of (st, d1) \<Rightarrow>
        if st AND PS2_OBF = 0 then ps2_wait_before_reading io (io_wait io d1) else Some d1)"

definition ps2_read_data :: "'d io \<Rightarrow> 'd \<Rightarrow> (u8 \<times> 'd) option" where
  "ps2_read_data io d = do { d1 \<leftarrow> ps2_wait_before_reading io d; Some (inb io PS2_DATA d1) }"

definition ps2_write_cmd :: "'d io \<Rightarrow> u8 \<Rightarrow> 'd \<Rightarrow> 'd option" where
  "ps2_write_cmd io cmd d = do { d1 \<leftarrow> ps2_wait_before_writing io d; Some (outb io PS2_COMMAND cmd d1) }"

definition ps2_write_data :: "'d io \<Rightarrow> u8 \<Rightarrow> 'd \<Rightarrow> 'd option" where
  "ps2_write_data io data d = do { d1 \<leftarrow> ps2_wait_before_writing io d; Some (outb io PS2_DATA data d1) }"

partial_function (option) ps2_flush :: "'d io \<Rightarrow> 'd \<Rightarrow> 'd option" where
  "ps2_flush io d =
     (case inb io PS2_STATUS d of (st, d1) \<Rightarrow>
        if st AND PS2_OBF \<noteq> 0 then ps2_flush io (snd (inb io PS2_DATA d1)) else Some d1)"

definition ps2_reset_device :: "'d io \<Rightarrow> int \<Rightarrow> 'd \<Rightarrow> (int \<times> 'd) option" where
  "ps2_reset_device io port d = do {
     d1 \<leftarrow> (if port = 2 then ps2_write_cmd io PS2_WRITE_PORT2 d else Some d);
     d2 \<leftarrow> ps2_write_data io PS2_DEV_RESET d1;
     (resp, d3) \<leftarrow> ps2_read_data io d2;
     if resp \<noteq> PS2_ACK then Some (- 1, d3)
     else do {
       (resp, d4) \<leftarrow> ps2_read_data io d3;
       if resp \<noteq> PS2_SELFTEST_OK then Some (- 1, d4) else Some (0, d4)
     }
   }"

text \<open>The interrupt state of the kernel: the interrupt flag, the registered handler and the acknowledgements sent.\<close>

record irq_state =
  interrupts :: bool
  keyboard_routine :: bool
  eois :: nat

definition register_keyboard_irq :: "irq_state \<Rightarrow> irq_state" where
  "register_keyboard_irq k = k\<lparr>keyboard_routine := True\<rparr>"

definition unregister_keyboard_irq :: "irq_state \<Rightarrow> irq_state" where
  "unregister_keyboard_irq k = k\<lparr>keyboard_routine := False\<rparr>"

text \<open>Steps 1 to 5: ports off, flush, interrupts and translation off, self-test.\<close>

definition ps2_quiesce :: "'d io \<Rightarrow> 'd \<Rightarrow> (int \<times> 'd) option" where
  "ps2_quiesce io d = do {
     d \<leftarrow> ps2_write_cmd io PS2_DISABLE_PORT1 d;
     d \<leftarrow> ps2_write_cmd io PS2_DISABLE_PORT2 d;
     d \<leftarrow> ps2_flush io d;
     d \<leftarrow> ps2_write_cmd io PS2_READ_CONFIG d;
     (config, d) \<leftarrow> ps2_read_data io d;
     let config = config AND NOT (PS2_CFG_IRQ1_ENABLE OR PS2_CFG_IRQ12_ENABLE);
     let config = config AND NOT PS2_CFG_TRANSLATION;
     d \<leftarrow> ps2_write_cmd io PS2_WRITE_CONFIG d;
     d \<leftarrow> ps2_write_data io config d;
     d \<leftarrow> ps2_write_cmd io PS2_READ_CONFIG d;
     (cfg_act, d) \<leftarrow> ps2_read_data io d;
     d \<leftarrow> ps2_wait_before_writing io d;
     d \<leftarrow> ps2_write_cmd io PS2_SELF_TEST d;
     (resp, d) \<leftarrow> ps2_read_data io d;
     Some (if resp \<noteq> PS2_SELF_TEST_OK then - 1 else 0, d)
   }"

text \<open>Step 6 finds out about a second port; the result is the configuration byte that later steps start from.\<close>

definition ps2_detect :: "'d io \<Rightarrow> 'd \<Rightarrow> (u8 \<times> bool \<times> 'd) option" where
  "ps2_detect io d = do {
     d \<leftarrow> ps2_write_cmd io PS2_ENABLE_PORT2 d;
     d \<leftarrow> ps2_write_cmd io PS2_READ_CONFIG d;
     (config, d) \<leftarrow> ps2_read_data io d;
     d \<leftarrow> ps2_write_cmd io PS2_DISABLE_PORT2 d;
     Some (config, config AND PS2_CFG_DISABLE_PORT2_CLK = 0, d)
   }"

text \<open>Steps 7 and 8: tests of the ports and resets of the devices.\<close>

definition ps2_test_port2 :: "'d io \<Rightarrow> bool \<Rightarrow> 'd \<Rightarrow> (bool \<times> 'd) option" where
  "ps2_test_port2 io has_port2 d =
     (if \<not> has_port2 then Some (has_port2, d)
      else do {
        d \<leftarrow> ps2_write_cmd io PS2_TEST_PORT2 d;
        (resp, d) \<leftarrow> ps2_read_data io d;
        Some (resp = 0, d)
      })"

definition ps2_reset_port2 :: "'d io \<Rightarrow> bool \<Rightarrow> 'd \<Rightarrow> (bool \<times> 'd) option" where
  "ps2_reset_port2 io has_port2 d =
     (if \<not> has_port2 then Some (has_port2, d)
      else do {
        (res, d) \<leftarrow> ps2_reset_device io 2 d;
        Some (res = 0, d)
      })"

definition ps2_test_and_reset :: "'d io \<Rightarrow> bool \<Rightarrow> 'd \<Rightarrow> (int \<times> bool \<times> 'd) option" where
  "ps2_test_and_reset io has_port2 d = do {
     d \<leftarrow> ps2_write_cmd io PS2_TEST_PORT1 d;
     (resp, d) \<leftarrow> ps2_read_data io d;
     if resp \<noteq> 0 then Some (- 1, has_port2, d)
     else do {
       (has_port2, d) \<leftarrow> ps2_test_port2 io has_port2 d;
       (res, d) \<leftarrow> ps2_reset_device io 1 d;
       if res \<noteq> 0 then Some (- 1, has_port2, d)
       else do {
         (has_port2, d) \<leftarrow> ps2_reset_port2 io has_port2 d;
         Some (0, has_port2, d)
       }
     }
   }"

text \<open>Steps 9 to 11: enable the device, its interrupt and the ports.\<close>

definition ps2_enable :: "'d io \<Rightarrow> u8 \<Rightarrow> bool \<Rightarrow> 'd \<Rightarrow> 'd option" where
  "ps2_enable io config has_port2 d = do {
     d \<leftarrow> ps2_write_cmd io PS2_ENABLE_PORT1 d;
     d \<leftarrow> ps2_flush io d;
     d \<leftarrow> ps2_write_data io PS2_DEV_ENABLE d;
     (ack, d) \<leftarrow> ps2_read_data io d;
     let config = config OR PS2_CFG_IRQ1_ENABLE;
     d \<leftarrow> ps2_write_cmd io PS2_WRITE_CONFIG d;
     d \<leftarrow> ps2_write_data io config d;
     d \<leftarrow> ps2_write_cmd io PS2_READ_CONFIG d;
     (cfg_act, d) \<leftarrow> ps2_read_data io d;
     d \<leftarrow> ps2_write_cmd io PS2_ENABLE_PORT1 d;
     if has_port2 then ps2_write_cmd io PS2_ENABLE_PORT2 d else Some d
   }"

definition init_ps2_keyboard :: "'d io \<Rightarrow> irq_state \<Rightarrow> 'd \<Rightarrow> (int \<times> irq_state \<times> 'd) option" where
  "init_ps2_keyboard io k d = do {
     let k = register_keyboard_irq (k\<lparr>interrupts := False\<rparr>);
     let k = k\<lparr>eois := eois k + 1\<rparr>;
     (res, d) \<leftarrow> ps2_quiesce io d;
     (res, d) \<leftarrow>
       (if res \<noteq> 0 then Some (res, d)
        else do {
          (config, has_port2, d) \<leftarrow> ps2_detect io d;
          (res, has_port2, d) \<leftarrow> ps2_test_and_reset io has_port2 d;
          if res \<noteq> 0 then Some (res, d)
          else do { d \<leftarrow> ps2_enable io config has_port2 d; Some (0, d) }
        });
     Some (res, k\<lparr>interrupts := True\<rparr>, d)
   }"

section \<open>The controller\<close>

text \<open>
  The view of a controller: its configuration byte, the answers that wait to be read, how many more polls report a
  full input buffer or an empty output buffer, and where the next data byte goes.
\<close>

datatype route = ToKeyboard | ToConfig | ToAux

record ctl =
  cfg :: u8
  answers :: "u8 list"
  busy :: nat
  latency :: nat
  route :: route

text \<open>What the commands do. A controller without a second port keeps the clock of that port disabled.\<close>

definition ctl_command :: "bool \<Rightarrow> u8 \<Rightarrow> ctl \<Rightarrow> ctl" where
  "ctl_command aux cmd c =
     (if cmd = PS2_READ_CONFIG then c\<lparr>answers := answers c @ [cfg c]\<rparr>
      else if cmd = PS2_WRITE_CONFIG then c\<lparr>route := ToConfig\<rparr>
      else if cmd = PS2_DISABLE_PORT1 then c\<lparr>cfg := cfg c OR 0x10\<rparr>
      else if cmd = PS2_ENABLE_PORT1 then c\<lparr>cfg := cfg c AND NOT 0x10\<rparr>
      else if cmd = PS2_DISABLE_PORT2 then c\<lparr>cfg := cfg c OR 0x20\<rparr>
      else if cmd = PS2_ENABLE_PORT2 then (if aux then c\<lparr>cfg := cfg c AND NOT 0x20\<rparr> else c)
      else if cmd = PS2_SELF_TEST then c\<lparr>answers := answers c @ [0x55]\<rparr>
      else if cmd = PS2_TEST_PORT1 \<or> cmd = PS2_TEST_PORT2 then c\<lparr>answers := answers c @ [0x00]\<rparr>
      else if cmd = PS2_WRITE_PORT2 then c\<lparr>route := ToAux\<rparr>
      else c)"

text \<open>What a data byte does; a mouse answers a reset with its device id as well.\<close>

definition ctl_data :: "u8 \<Rightarrow> ctl \<Rightarrow> ctl" where
  "ctl_data x c =
     (case route c of
        ToConfig \<Rightarrow> c\<lparr>cfg := x, route := ToKeyboard\<rparr>
      | ToKeyboard \<Rightarrow> c\<lparr>answers := answers c @ (if x = PS2_DEV_RESET then [0xFA, 0xAA] else [0xFA])\<rparr>
      | ToAux \<Rightarrow> c\<lparr>answers := answers c @ (if x = PS2_DEV_RESET then [0xFA, 0xAA, 0x00] else [0xFA]), route := ToKeyboard\<rparr>)"

text \<open>After a write the controller is busy for some polls, and an answer takes some polls to appear unless
  an earlier one is still waiting.\<close>

definition settles :: "ctl \<Rightarrow> ctl \<Rightarrow> ctl \<Rightarrow> bool" where
  "settles old c c' \<longleftrightarrow> (\<exists>b l. c' = c\<lparr>busy := b, latency := (if answers old = [] then l else latency old)\<rparr>)"

definition behaves :: "'d io \<Rightarrow> bool \<Rightarrow> ('d \<Rightarrow> ctl) \<Rightarrow> bool" where
  "behaves io aux v \<longleftrightarrow>
     (\<forall>d. case inb io PS2_STATUS d of (st, d') \<Rightarrow>
        (st AND PS2_IBF \<noteq> 0 \<longleftrightarrow> busy (v d) \<noteq> 0) \<and>
        (st AND PS2_OBF \<noteq> 0 \<longleftrightarrow> answers (v d) \<noteq> [] \<and> latency (v d) = 0) \<and>
        v d' = (v d)\<lparr>busy := busy (v d) - 1, latency := latency (v d) - 1\<rparr>) \<and>
     (\<forall>d x xs. answers (v d) = x # xs \<longrightarrow> latency (v d) = 0 \<longrightarrow>
        (case inb io PS2_DATA d of (y, d') \<Rightarrow> y = x \<and> v d' = (v d)\<lparr>answers := xs\<rparr>)) \<and>
     (\<forall>d x. busy (v d) = 0 \<longrightarrow> settles (v d) (ctl_command aux x (v d)) (v (outb io PS2_COMMAND x d))) \<and>
     (\<forall>d x. busy (v d) = 0 \<longrightarrow> settles (v d) (ctl_data x (v d)) (v (outb io PS2_DATA x d))) \<and>
     (\<forall>d x. v (outb io 0x80 x d) = v d)"

section \<open>Lemmas\<close>

lemma ctl_command_simps [simp]:
  "ctl_command aux PS2_READ_CONFIG c = c\<lparr>answers := answers c @ [cfg c]\<rparr>"
  "ctl_command aux PS2_WRITE_CONFIG c = c\<lparr>route := ToConfig\<rparr>"
  "ctl_command aux PS2_DISABLE_PORT1 c = c\<lparr>cfg := cfg c OR 0x10\<rparr>"
  "ctl_command aux PS2_ENABLE_PORT1 c = c\<lparr>cfg := cfg c AND NOT 0x10\<rparr>"
  "ctl_command aux PS2_DISABLE_PORT2 c = c\<lparr>cfg := cfg c OR 0x20\<rparr>"
  "ctl_command aux PS2_ENABLE_PORT2 c = (if aux then c\<lparr>cfg := cfg c AND NOT 0x20\<rparr> else c)"
  "ctl_command aux PS2_SELF_TEST c = c\<lparr>answers := answers c @ [0x55]\<rparr>"
  "ctl_command aux PS2_TEST_PORT1 c = c\<lparr>answers := answers c @ [0x00]\<rparr>"
  "ctl_command aux PS2_TEST_PORT2 c = c\<lparr>answers := answers c @ [0x00]\<rparr>"
  "ctl_command aux PS2_WRITE_PORT2 c = c\<lparr>route := ToAux\<rparr>"
  by (simp_all add: ctl_command_def ps2_consts)

text \<open>The view without its timing.\<close>

definition rest :: "ctl \<Rightarrow> ctl" where "rest c = c\<lparr>busy := 0, latency := 0\<rparr>"

lemma rest_simps [simp]:
  "cfg (rest c) = cfg c" "answers (rest c) = answers c" "route (rest c) = route c"
  "rest (c\<lparr>busy := b\<rparr>) = rest c" "rest (c\<lparr>latency := l\<rparr>) = rest c"
  "rest (c\<lparr>answers := xs\<rparr>) = (rest c)\<lparr>answers := xs\<rparr>"
  by (simp_all add: rest_def)

lemma rest_command: "rest (ctl_command aux x c) = ctl_command aux x (rest c)"
  by (simp add: ctl_command_def rest_def)

lemma rest_data: "rest (ctl_data x c) = ctl_data x (rest c)"
  by (simp add: ctl_data_def rest_def split: route.split)

lemma behavesD:
  assumes "behaves io aux v"
  shows "inb io PS2_STATUS d = (st, d') \<Longrightarrow>
      (st AND PS2_IBF = 0 \<longleftrightarrow> busy (v d) = 0) \<and> (st AND PS2_OBF = 0 \<longleftrightarrow> answers (v d) = [] \<or> latency (v d) \<noteq> 0) \<and>
      v d' = (v d)\<lparr>busy := busy (v d) - 1, latency := latency (v d) - 1\<rparr>"
    "answers (v d) = x # xs \<Longrightarrow> latency (v d) = 0 \<Longrightarrow> \<exists>d'. inb io PS2_DATA d = (x, d') \<and> v d' = (v d)\<lparr>answers := xs\<rparr>"
    "busy (v d) = 0 \<Longrightarrow> settles (v d) (ctl_command aux x' (v d)) (v (outb io PS2_COMMAND x' d))"
    "busy (v d) = 0 \<Longrightarrow> settles (v d) (ctl_data x' (v d)) (v (outb io PS2_DATA x' d))"
    "v (io_wait io d) = v d"
proof -
  note b = assms [unfolded behaves_def]
  show "inb io PS2_STATUS d = (st, d') \<Longrightarrow>
      (st AND PS2_IBF = 0 \<longleftrightarrow> busy (v d) = 0) \<and> (st AND PS2_OBF = 0 \<longleftrightarrow> answers (v d) = [] \<or> latency (v d) \<noteq> 0) \<and>
      v d' = (v d)\<lparr>busy := busy (v d) - 1, latency := latency (v d) - 1\<rparr>"
    using b [THEN conjunct1, THEN spec, of d] by auto
  show "answers (v d) = x # xs \<Longrightarrow> latency (v d) = 0 \<Longrightarrow> \<exists>d'. inb io PS2_DATA d = (x, d') \<and> v d' = (v d)\<lparr>answers := xs\<rparr>"
    using b [THEN conjunct2, THEN conjunct1, THEN spec, of d, THEN spec, of x, THEN spec, of xs] by auto
  show "busy (v d) = 0 \<Longrightarrow> settles (v d) (ctl_command aux x' (v d)) (v (outb io PS2_COMMAND x' d))" using b by blast
  show "busy (v d) = 0 \<Longrightarrow> settles (v d) (ctl_data x' (v d)) (v (outb io PS2_DATA x' d))" using b by blast
  show "v (io_wait io d) = v d" using b unfolding io_wait_def by blast
qed

lemma wait_writing:
  assumes "behaves io aux v"
  shows "\<exists>d' l. ps2_wait_before_writing io d = Some d' \<and> v d' = (v d)\<lparr>busy := 0, latency := l\<rparr> \<and> l \<le> latency (v d)"
proof (induction "busy (v d)" arbitrary: d)
  case 0
  obtain st d1 where io: "inb io PS2_STATUS d = (st, d1)" by force
  from behavesD(1) [OF assms this] 0 show ?case
    by (subst ps2_wait_before_writing.simps) (auto simp: io intro!: exI [of _ "latency (v d) - 1"])
next
  case (Suc n)
  obtain st d1 where io: "inb io PS2_STATUS d = (st, d1)" by force
  have b: "st AND PS2_IBF \<noteq> 0" "v (io_wait io d1) = (v d)\<lparr>busy := n, latency := latency (v d) - 1\<rparr>"
    using behavesD(1) [OF assms io] behavesD(5) [OF assms, of d1] Suc.hyps(2) [symmetric] by auto
  obtain d' l where "ps2_wait_before_writing io (io_wait io d1) = Some d'"
      "v d' = (v (io_wait io d1))\<lparr>busy := 0, latency := l\<rparr>" "l \<le> latency (v (io_wait io d1))"
    using Suc.hyps(1) [of "io_wait io d1"] b(2) by auto
  then show ?case using b by (subst ps2_wait_before_writing.simps) (auto simp: io intro!: exI [of _ l])
qed

lemma wait_reading:
  assumes "behaves io aux v"
  shows "answers (v d) \<noteq> [] \<Longrightarrow> \<exists>d' b. ps2_wait_before_reading io d = Some d' \<and> v d' = (v d)\<lparr>busy := b, latency := 0\<rparr>"
proof (induction "latency (v d)" arbitrary: d)
  case 0
  obtain st d1 where io: "inb io PS2_STATUS d = (st, d1)" by force
  from behavesD(1) [OF assms this] 0 show ?case
    by (subst ps2_wait_before_reading.simps) (auto simp: io intro!: exI [of _ "busy (v d) - 1"])
next
  case (Suc n)
  obtain st d1 where io: "inb io PS2_STATUS d = (st, d1)" by force
  have b: "st AND PS2_OBF = 0" "v (io_wait io d1) = (v d)\<lparr>busy := busy (v d) - 1, latency := n\<rparr>"
    using behavesD(1) [OF assms io] behavesD(5) [OF assms, of d1] Suc.hyps(2) [symmetric] by auto
  obtain d' b' where "ps2_wait_before_reading io (io_wait io d1) = Some d'" "v d' = (v (io_wait io d1))\<lparr>busy := b', latency := 0\<rparr>"
    using Suc.hyps(1) [of "io_wait io d1"] b(2) Suc.prems by auto
  then show ?case using b by (subst ps2_wait_before_reading.simps) (auto simp: io intro!: exI [of _ b'])
qed

text \<open>The primitives on the view. An answer that is visible stays visible until it is read.\<close>

definition presents :: "('d \<Rightarrow> ctl) \<Rightarrow> ctl \<Rightarrow> 'd \<Rightarrow> bool" where
  "presents v c d \<longleftrightarrow> rest (v d) = c"

definition in_flight :: "('d \<Rightarrow> ctl) \<Rightarrow> 'd \<Rightarrow> bool" where
  "in_flight v d \<longleftrightarrow> answers (v d) \<noteq> [] \<and> latency (v d) \<noteq> 0"

lemma ready_law:
  assumes "behaves io aux v" "presents v c d"
  shows "\<exists>d'. ps2_wait_before_writing io d = Some d' \<and> presents v c d' \<and> busy (v d') = 0 \<and> (\<not> in_flight v d \<longrightarrow> \<not> in_flight v d')"
  using wait_writing [OF assms(1), of d] assms(2) by (auto simp: presents_def in_flight_def)

lemma settles_law:
  assumes "settles (v d) c' (v d')"
  shows "rest (v d') = rest c'" "answers c' = answers (v d) \<Longrightarrow> \<not> in_flight v d \<Longrightarrow> \<not> in_flight v d'"
  using assms by (auto simp: settles_def in_flight_def split: if_splits)

lemma cmd_law:
  assumes "behaves io aux v" "presents v c d"
  shows "\<exists>d'. ps2_write_cmd io x d = Some d' \<and> presents v (ctl_command aux x c) d' \<and>
    (answers (ctl_command aux x c) = answers c \<longrightarrow> \<not> in_flight v d \<longrightarrow> \<not> in_flight v d')"
proof -
  obtain d1 where d1: "ps2_wait_before_writing io d = Some d1" "presents v c d1" "busy (v d1) = 0" "\<not> in_flight v d \<Longrightarrow> \<not> in_flight v d1"
    using ready_law [OF assms] by blast
  note s = settles_law [of v d1, OF behavesD(3) [OF assms(1) d1(3), of x]]
  have c: "rest (ctl_command aux x (v d1)) = ctl_command aux x c" using d1(2) by (simp add: rest_command presents_def)
  have "answers (ctl_command aux x (v d1)) = answers (ctl_command aux x c)" using arg_cong [OF c, of answers] by simp
  moreover have "answers (v d1) = answers c" using d1(2) by (auto simp: presents_def)
  ultimately show ?thesis using d1 s c by (simp add: ps2_write_cmd_def presents_def)
qed

lemma data_law:
  assumes "behaves io aux v" "presents v c d"
  shows "\<exists>d'. ps2_write_data io x d = Some d' \<and> presents v (ctl_data x c) d'"
proof -
  obtain d1 where d1: "ps2_wait_before_writing io d = Some d1" "presents v c d1" "busy (v d1) = 0"
    using ready_law [OF assms] by blast
  note s = settles_law(1) [of v d1, OF behavesD(4) [OF assms(1) d1(3), of x]]
  show ?thesis using d1 s by (simp add: ps2_write_data_def presents_def rest_data)
qed

lemma read_law:
  assumes "behaves io aux v" "presents v c d" "answers c = x # xs"
  shows "\<exists>d'. ps2_read_data io d = Some (x, d') \<and> presents v (c\<lparr>answers := xs\<rparr>) d' \<and> \<not> in_flight v d'"
proof -
  have a: "answers (v d) = x # xs" using assms(2,3) by (auto simp: presents_def)
  then obtain d1 b where d1: "ps2_wait_before_reading io d = Some d1" "v d1 = (v d)\<lparr>busy := b, latency := 0\<rparr>"
    using wait_reading [OF assms(1), of d] by auto
  obtain d2 where "inb io PS2_DATA d1 = (x, d2)" "v d2 = (v d1)\<lparr>answers := xs\<rparr>"
    using behavesD(2) [OF assms(1), of d1 x xs] a d1(2) by auto
  then show ?thesis using d1 assms(2) by (auto simp: ps2_read_data_def presents_def in_flight_def)
qed

lemma flush_law:
  assumes "behaves io aux v"
  shows "presents v c d \<Longrightarrow> \<not> in_flight v d \<Longrightarrow> \<exists>d'. ps2_flush io d = Some d' \<and> presents v (c\<lparr>answers := []\<rparr>) d' \<and> \<not> in_flight v d'"
proof (induction "answers c" arbitrary: c d)
  case Nil
  obtain st d1 where io: "inb io PS2_STATUS d = (st, d1)" by force
  have "answers (v d) = []" using Nil by (auto simp: presents_def)
  then show ?case using behavesD(1) [OF assms io] Nil
    by (subst ps2_flush.simps) (auto simp: io presents_def in_flight_def)
next
  case (Cons x xs)
  obtain st d1 where io: "inb io PS2_STATUS d = (st, d1)" by force
  have a: "answers (v d) = x # xs" "latency (v d) = 0" using Cons by (auto simp: presents_def in_flight_def)
  have st: "st AND PS2_OBF \<noteq> 0" "v d1 = (v d)\<lparr>busy := busy (v d) - 1, latency := 0\<rparr>"
    using behavesD(1) [OF assms io] a by auto
  then obtain d2 where d2: "inb io PS2_DATA d1 = (x, d2)" "v d2 = (v d1)\<lparr>answers := xs\<rparr>"
    using behavesD(2) [OF assms, of d1 x xs] a by auto
  have "presents v (c\<lparr>answers := xs\<rparr>) d2" "\<not> in_flight v d2" using d2 st Cons.prems(1) by (auto simp: presents_def in_flight_def)
  then show ?case using Cons.hyps(1) [of "c\<lparr>answers := xs\<rparr>" d2] d2(1) st(1) by (subst ps2_flush.simps) (auto simp: io)
qed

lemma ctl_fields [simp]: "c\<lparr>answers := xs, cfg := x\<rparr> = c\<lparr>cfg := x, answers := xs\<rparr>"
  by simp

section \<open>The phases on a controller that behaves\<close>

text \<open>Reading the configuration byte, and replacing it.\<close>

lemma read_config_law:
  assumes "behaves io aux v" "presents v c d" "answers c = []"
  shows "\<exists>d1 d2. ps2_write_cmd io PS2_READ_CONFIG d = Some d1 \<and> ps2_read_data io d1 = Some (cfg c, d2) \<and> presents v c d2"
proof -
  obtain d1 where d1: "ps2_write_cmd io PS2_READ_CONFIG d = Some d1" "presents v (c\<lparr>answers := [cfg c]\<rparr>) d1"
    using cmd_law [OF assms(1,2), of PS2_READ_CONFIG] assms(3) by auto
  have "c\<lparr>answers := []\<rparr> = c" using assms(3) by simp
  then show ?thesis using d1(1) read_law [OF assms(1) d1(2), of "cfg c" "[]"] by auto
qed

lemma write_config_law:
  assumes "behaves io aux v" "presents v c d" "route c = ToKeyboard"
  shows "\<exists>d1 d2. ps2_write_cmd io PS2_WRITE_CONFIG d = Some d1 \<and> ps2_write_data io x d1 = Some d2 \<and> presents v (c\<lparr>cfg := x\<rparr>) d2"
proof -
  obtain d1 where d1: "ps2_write_cmd io PS2_WRITE_CONFIG d = Some d1" "presents v (c\<lparr>route := ToConfig\<rparr>) d1"
    using cmd_law [OF assms(1,2), of PS2_WRITE_CONFIG] by auto
  have "ctl_data x (c\<lparr>route := ToConfig\<rparr>) = c\<lparr>cfg := x\<rparr>" using assms(3) by (simp add: ctl_data_def)
  then show ?thesis using d1(1) data_law [OF assms(1) d1(2), of x] by auto
qed

text \<open>A command with one answer.\<close>

lemma ask_law:
  assumes "behaves io aux v" "presents v c d" "answers c = []" "ctl_command aux cmd c = c\<lparr>answers := [x]\<rparr>"
  shows "\<exists>d1 d2. ps2_write_cmd io cmd d = Some d1 \<and> ps2_read_data io d1 = Some (x, d2) \<and> presents v c d2"
proof -
  obtain d1 where d1: "ps2_write_cmd io cmd d = Some d1" "presents v (c\<lparr>answers := [x]\<rparr>) d1"
    using cmd_law [OF assms(1,2), of cmd] assms(4) by auto
  have "c\<lparr>answers := []\<rparr> = c" using assms(3) by simp
  then show ?thesis using d1(1) read_law [OF assms(1) d1(2), of x "[]"] by auto
qed

definition quiet_config :: "u8 \<Rightarrow> u8" where
  "quiet_config x = (((x OR 0x10) OR 0x20) AND NOT (PS2_CFG_IRQ1_ENABLE OR PS2_CFG_IRQ12_ENABLE)) AND NOT PS2_CFG_TRANSLATION"

lemma quiesce_law:
  assumes b: "behaves io aux v" and d: "presents v c d" "\<not> in_flight v d" and r: "route c = ToKeyboard"
  shows "\<exists>d'. ps2_quiesce io d = Some (0, d') \<and> presents v (c\<lparr>cfg := quiet_config (cfg c), answers := []\<rparr>) d'"
proof -
  let ?x = "(cfg c OR 0x10) OR 0x20"
  obtain d1 where d1: "ps2_write_cmd io PS2_DISABLE_PORT1 d = Some d1" "presents v (c\<lparr>cfg := cfg c OR 0x10\<rparr>) d1" "\<not> in_flight v d1"
    using cmd_law [OF b d(1), of PS2_DISABLE_PORT1] d(2) by auto
  obtain d2 where d2: "ps2_write_cmd io PS2_DISABLE_PORT2 d1 = Some d2" "presents v (c\<lparr>cfg := ?x\<rparr>) d2" "\<not> in_flight v d2"
    using cmd_law [OF b d1(2), of PS2_DISABLE_PORT2] d1(3) by auto
  let ?c = "c\<lparr>cfg := ?x, answers := []\<rparr>" and ?q = "c\<lparr>cfg := quiet_config (cfg c), answers := []\<rparr>"
  obtain d3 where d3: "ps2_flush io d2 = Some d3" "presents v ?c d3" using flush_law [OF b d2(2,3)] by auto
  obtain d4 d5 where d5: "ps2_write_cmd io PS2_READ_CONFIG d3 = Some d4" "ps2_read_data io d4 = Some (?x, d5)" "presents v ?c d5"
    using read_config_law [OF b d3(2)] by auto
  obtain d6 d7 where d7: "ps2_write_cmd io PS2_WRITE_CONFIG d5 = Some d6"
      "ps2_write_data io (quiet_config (cfg c)) d6 = Some d7" "presents v ?q d7"
    using write_config_law [OF b d5(3), of "quiet_config (cfg c)"] r by auto
  obtain d8 d9 where d9: "ps2_write_cmd io PS2_READ_CONFIG d7 = Some d8" "ps2_read_data io d8 = Some (quiet_config (cfg c), d9)" "presents v ?q d9"
    using read_config_law [OF b d7(3)] by auto
  obtain d10 where d10: "ps2_wait_before_writing io d9 = Some d10" "presents v ?q d10" using ready_law [OF b d9(3)] by auto
  obtain d11 d12 where d12: "ps2_write_cmd io PS2_SELF_TEST d10 = Some d11" "ps2_read_data io d11 = Some (PS2_SELF_TEST_OK, d12)" "presents v ?q d12"
    using ask_law [OF b d10(2), of PS2_SELF_TEST PS2_SELF_TEST_OK] by (auto simp: PS2_SELF_TEST_OK_def)
  show ?thesis
    using d1(1) d2(1) d3(1) d5(1,2) d7(1,2) d9(1,2) d10(1) d12 by (simp add: ps2_quiesce_def quiet_config_def)
qed

lemma clear_set: "(x AND NOT m) OR m = x OR (m :: u8)"
  by (auto intro!: bit_word_eqI simp: bit_or_iff bit_and_iff bit_not_iff)

lemma or_bit: "bit x n \<Longrightarrow> x OR 2 ^ n = (x :: u8)"
  by (auto intro!: bit_word_eqI simp: bit_or_iff bit_exp_iff)

lemma detect_law:
  assumes b: "behaves io aux v" and d: "presents v c d" "answers c = []" "bit (cfg c) 5"
  shows "\<exists>d'. ps2_detect io d = Some (if aux then cfg c AND NOT 0x20 else cfg c, aux, d') \<and> presents v c d'"
proof -
  let ?x = "if aux then cfg c AND NOT 0x20 else cfg c"
  obtain d1 where d1: "ps2_write_cmd io PS2_ENABLE_PORT2 d = Some d1" "presents v (c\<lparr>cfg := ?x\<rparr>) d1"
    using cmd_law [OF b d(1), of PS2_ENABLE_PORT2] by (auto split: if_splits)
  obtain d2 d3 where d3: "ps2_write_cmd io PS2_READ_CONFIG d1 = Some d2" "ps2_read_data io d2 = Some (?x, d3)" "presents v (c\<lparr>cfg := ?x\<rparr>) d3"
    using read_config_law [OF b d1(2)] d(2) by auto
  obtain d4 where d4: "ps2_write_cmd io PS2_DISABLE_PORT2 d3 = Some d4" "presents v (c\<lparr>cfg := ?x OR 0x20\<rparr>) d4"
    using cmd_law [OF b d3(3), of PS2_DISABLE_PORT2] by auto
  have same: "?x OR 0x20 = cfg c"
    using or_bit [OF d(3)] by (simp only: clear_set if_distrib [of "\<lambda>x. x OR 0x20"] if_cancel) simp
  have port2: "?x AND PS2_CFG_DISABLE_PORT2_CLK = 0 \<longleftrightarrow> aux"
    using d(3) and_exp_eq_0_iff_not_bit [of "cfg c" 5] by (simp add: PS2_CFG_DISABLE_PORT2_CLK_def and.assoc)
  show ?thesis using d1(1) d3(1,2) d4 same port2 by (simp add: ps2_detect_def)
qed

text \<open>Resetting the device behind the keyboard port, and the one behind the second port.\<close>

lemma reset_tail_law:
  assumes b: "behaves io aux v" and d: "presents v c d" "ctl_data PS2_DEV_RESET c = c'\<lparr>answers := PS2_ACK # PS2_SELFTEST_OK # xs\<rparr>"
  shows "\<exists>d1 d2 d3. ps2_write_data io PS2_DEV_RESET d = Some d1 \<and> ps2_read_data io d1 = Some (PS2_ACK, d2) \<and>
    ps2_read_data io d2 = Some (PS2_SELFTEST_OK, d3) \<and> presents v (c'\<lparr>answers := xs\<rparr>) d3 \<and> \<not> in_flight v d3"
proof -
  obtain d1 where d1: "ps2_write_data io PS2_DEV_RESET d = Some d1" "presents v (c'\<lparr>answers := PS2_ACK # PS2_SELFTEST_OK # xs\<rparr>) d1"
    using data_law [OF b d(1), of PS2_DEV_RESET] d(2) by auto
  obtain d2 where d2: "ps2_read_data io d1 = Some (PS2_ACK, d2)" "presents v (c'\<lparr>answers := PS2_SELFTEST_OK # xs\<rparr>) d2"
    using read_law [OF b d1(2)] by auto
  show ?thesis using d1(1) d2(1) read_law [OF b d2(2)] by auto
qed

lemma reset_law:
  assumes b: "behaves io aux v" and d: "presents v c d" "answers c = []" "route c = ToKeyboard"
  shows "\<exists>d'. ps2_reset_device io 1 d = Some (0, d') \<and> presents v c d' \<and> \<not> in_flight v d'"
    "\<exists>d'. ps2_reset_device io 2 d = Some (0, d') \<and> presents v (c\<lparr>answers := [0]\<rparr>) d' \<and> \<not> in_flight v d'"
proof -
  have c: "c\<lparr>answers := []\<rparr> = c" using d(2) by simp
  have "ctl_data PS2_DEV_RESET c = c\<lparr>answers := [PS2_ACK, PS2_SELFTEST_OK]\<rparr>"
    using d by (simp add: ctl_data_def PS2_ACK_def PS2_SELFTEST_OK_def)
  from reset_tail_law [OF b d(1) this] show "\<exists>d'. ps2_reset_device io 1 d = Some (0, d') \<and> presents v c d' \<and> \<not> in_flight v d'"
    by (auto simp: ps2_reset_device_def c)
  obtain d1 where d1: "ps2_write_cmd io PS2_WRITE_PORT2 d = Some d1" "presents v (c\<lparr>route := ToAux\<rparr>) d1"
    using cmd_law [OF b d(1), of PS2_WRITE_PORT2] by auto
  have "ctl_data PS2_DEV_RESET (c\<lparr>route := ToAux\<rparr>) = c\<lparr>answers := [PS2_ACK, PS2_SELFTEST_OK, 0]\<rparr>"
    using d by (simp add: ctl_data_def PS2_ACK_def PS2_SELFTEST_OK_def)
  from reset_tail_law [OF b d1(2) this] d1(1)
  show "\<exists>d'. ps2_reset_device io 2 d = Some (0, d') \<and> presents v (c\<lparr>answers := [0]\<rparr>) d' \<and> \<not> in_flight v d'"
    by (auto simp: ps2_reset_device_def)
qed

lemma test_and_reset_law:
  assumes b: "behaves io aux v" and d: "presents v c d" "answers c = []" "route c = ToKeyboard"
  shows "\<exists>d'. ps2_test_and_reset io p d = Some (0, p, d') \<and> presents v (if p then c\<lparr>answers := [0]\<rparr> else c) d' \<and> \<not> in_flight v d'"
proof -
  obtain d1 d2 where d2: "ps2_write_cmd io PS2_TEST_PORT1 d = Some d1" "ps2_read_data io d1 = Some (0, d2)" "presents v c d2"
    using ask_law [OF b d(1,2), of PS2_TEST_PORT1 0] d(2) by auto
  have "\<exists>d3. ps2_test_port2 io p d2 = Some (p, d3) \<and> presents v c d3"
    using ask_law [OF b d2(3) d(2), of PS2_TEST_PORT2 0] d(2) d2(3) by (auto simp: ps2_test_port2_def)
  then obtain d3 where d3: "ps2_test_port2 io p d2 = Some (p, d3)" "presents v c d3" by blast
  obtain d4 where d4: "ps2_reset_device io 1 d3 = Some (0, d4)" "presents v c d4" "\<not> in_flight v d4"
    using reset_law(1) [OF b d3(2) d(2,3)] by blast
  show ?thesis using d2(1,2) d3(1) d4 reset_law(2) [OF b d4(2) d(2,3)]
    by (auto simp: ps2_test_and_reset_def ps2_reset_port2_def)
qed

lemma enable_law:
  assumes b: "behaves io aux v" and d: "presents v c d" "\<not> in_flight v d" "route c = ToKeyboard"
  shows "\<exists>d'. ps2_enable io x p d = Some d' \<and>
    presents v (c\<lparr>cfg := (if p \<and> aux then ((x OR PS2_CFG_IRQ1_ENABLE) AND NOT 0x10) AND NOT 0x20 else (x OR PS2_CFG_IRQ1_ENABLE) AND NOT 0x10), answers := []\<rparr>) d'"
proof -
  let ?y = "x OR PS2_CFG_IRQ1_ENABLE"
  obtain d1 where d1: "ps2_write_cmd io PS2_ENABLE_PORT1 d = Some d1" "presents v (c\<lparr>cfg := cfg c AND NOT 0x10\<rparr>) d1" "\<not> in_flight v d1"
    using cmd_law [OF b d(1), of PS2_ENABLE_PORT1] d(2) by auto
  let ?c = "c\<lparr>cfg := cfg c AND NOT 0x10, answers := []\<rparr>"
  obtain d2 where d2: "ps2_flush io d1 = Some d2" "presents v ?c d2" using flush_law [OF b d1(2,3)] by auto
  have "ctl_data PS2_DEV_ENABLE ?c = ?c\<lparr>answers := [PS2_ACK]\<rparr>"
    using d(3) by (simp add: ctl_data_def PS2_ACK_def PS2_DEV_ENABLE_def PS2_DEV_RESET_def)
  then obtain d3 where d3: "ps2_write_data io PS2_DEV_ENABLE d2 = Some d3" "presents v (?c\<lparr>answers := [PS2_ACK]\<rparr>) d3"
    using data_law [OF b d2(2), of PS2_DEV_ENABLE] by auto
  obtain d4 where d4: "ps2_read_data io d3 = Some (PS2_ACK, d4)" "presents v ?c d4" using read_law [OF b d3(2)] by auto
  let ?z = "c\<lparr>cfg := ?y, answers := []\<rparr>"
  obtain d5 d6 where d6: "ps2_write_cmd io PS2_WRITE_CONFIG d4 = Some d5" "ps2_write_data io ?y d5 = Some d6" "presents v ?z d6"
    using write_config_law [OF b d4(2), of ?y] d(3) by auto
  obtain d7 d8 where d8: "ps2_write_cmd io PS2_READ_CONFIG d6 = Some d7" "ps2_read_data io d7 = Some (?y, d8)" "presents v ?z d8"
    using read_config_law [OF b d6(3)] by auto
  obtain d9 where d9: "ps2_write_cmd io PS2_ENABLE_PORT1 d8 = Some d9" "presents v (c\<lparr>cfg := ?y AND NOT 0x10, answers := []\<rparr>) d9"
    using cmd_law [OF b d8(3), of PS2_ENABLE_PORT1] by auto
  show ?thesis using d1(1) d2(1) d3(1) d4(1) d6(1,2) d8(1,2) d9 cmd_law [OF b d9(2), of PS2_ENABLE_PORT2]
    by (auto simp: ps2_enable_def)
qed

section \<open>Properties\<close>

lemma final_config:
  assumes "x = (let y = quiet_config c in if aux then y AND NOT 0x20 else y)"
    "z = (if aux then ((x OR PS2_CFG_IRQ1_ENABLE) AND NOT 0x10) AND NOT 0x20 else (x OR PS2_CFG_IRQ1_ENABLE) AND NOT 0x10)"
  shows "bit z 0 \<and> \<not> bit z 1 \<and> \<not> bit z 4 \<and> (bit z 5 \<longleftrightarrow> \<not> aux) \<and> \<not> bit z 6 \<and> (\<forall>n \<in> {2, 3, 7}. bit z n \<longleftrightarrow> bit c n)"
  using assms by (cases aux) (simp_all add: quiet_config_def ps2_consts bit_or_iff bit_and_iff bit_not_iff)


text \<open>A controller with a second port that takes two polls to accept a byte and three to answer.\<close>

definition demo_io :: "ctl io" where
  "demo_io = \<lparr>inb = (\<lambda>port c.
      if port = PS2_STATUS then
        ((if busy c \<noteq> 0 then 2 else 0) OR (if answers c \<noteq> [] \<and> latency c = 0 then 1 else 0),
         c\<lparr>busy := busy c - 1, latency := latency c - 1\<rparr>)
      else (case answers c of [] \<Rightarrow> (0, c) | x # xs \<Rightarrow> (x, c\<lparr>answers := xs\<rparr>))),
    outb = (\<lambda>port x c.
      if port = PS2_COMMAND then (ctl_command True x c)\<lparr>busy := 2, latency := if answers c = [] then 3 else latency c\<rparr>
      else if port = PS2_DATA then (ctl_data x c)\<lparr>busy := 2, latency := if answers c = [] then 3 else latency c\<rparr>
      else c)\<rparr>"

lemma demo_io_behaves: "behaves demo_io True (\<lambda>c. c)"
  unfolding behaves_def
proof (intro conjI allI impI)
  fix c :: ctl
  show "case inb demo_io PS2_STATUS c of (st, d') \<Rightarrow>
      (st AND PS2_IBF \<noteq> 0 \<longleftrightarrow> busy c \<noteq> 0) \<and> (st AND PS2_OBF \<noteq> 0 \<longleftrightarrow> answers c \<noteq> [] \<and> latency c = 0) \<and>
      d' = c\<lparr>busy := busy c - 1, latency := latency c - 1\<rparr>"
    by (simp add: demo_io_def PS2_IBF_def PS2_OBF_def)
qed (auto simp: demo_io_def settles_def PS2_STATUS_def PS2_COMMAND_def PS2_DATA_def)


end
