(* ===== verification/Bstree.thy ===== *)
theory Bstree
  imports Prelude "HOL-Library.Tree"
begin

text \<open>
  The binary search trees of \<^verbatim>\<open>src/lib/structures/bstree.c\<close>. The nodes live in a store; the comparison function
  of a tree is a parameter. Loops that follow pointers are partial: \<open>None\<close> stands for a loop that never ends. The
  lemmas relate a tree in the store to a tree of HOL by its addresses (\<open>rep\<close>).
\<close>

section \<open>Nodes and trees\<close>

record bstnode =
  left :: u64
  right :: u64
  data :: u64

record bstree =
  root :: u64
  count :: u64

type_synonym bstheap = "u64 \<Rightarrow> bstnode option"

type_synonym cmp = "u64 \<Rightarrow> u64 \<Rightarrow> int"

definition load :: "bstheap \<Rightarrow> u64 \<Rightarrow> bstnode kres" where
  "load h p = (case h p of None \<Rightarrow> Inl BadAccess | Some n \<Rightarrow> Inr n)"

definition andThen :: "'a kres option \<Rightarrow> ('a \<Rightarrow> 'b kres) \<Rightarrow> 'b kres option" where
  "andThen m f = map_option (\<lambda>r. bindR r f) m"

lemma andThen_simps [simp]: "andThen None f = None" "andThen (Some r) f = Some (bindR r f)"
  by (simp_all add: andThen_def)

section \<open>Insertion\<close>

text \<open>The branch that links a right child has no break: the loop goes on with the same node.\<close>

partial_function (option) insert_loop :: "cmp \<Rightarrow> u64 \<Rightarrow> u64 \<Rightarrow> bstheap \<Rightarrow> bstheap kres option" where
  "insert_loop cmp node cur h =
     (case h node of None \<Rightarrow> Some (Inl BadAccess) | Some n \<Rightarrow>
      case h cur of None \<Rightarrow> Some (Inl BadAccess) | Some c \<Rightarrow>
        if cmp (data n) (data c) < 0 then
          (if left c \<noteq> 0 then insert_loop cmp node (left c) h
           else Some (Inr (h(cur \<mapsto> c\<lparr>left := node\<rparr>))))
        else
          (if right c \<noteq> 0 then insert_loop cmp node (right c) h
           else insert_loop cmp node cur (h(cur \<mapsto> c\<lparr>right := node\<rparr>))))"

definition bstree_insert_node :: "cmp \<Rightarrow> bstree \<Rightarrow> u64 \<Rightarrow> bstheap \<Rightarrow> (int \<times> bstree \<times> bstheap) kres option" where
  "bstree_insert_node cmp tree node h =
     andThen (insert_loop cmp node (root tree) h) (\<lambda>h1. Inr (0, tree\<lparr>count := count tree + 1\<rparr>, h1))"

section \<open>Removal\<close>

text \<open>Follows the left children; the result is the last node with a left child, if any, and the leftmost node.\<close>

partial_function (option) leftmost_loop :: "bstheap \<Rightarrow> u64 \<Rightarrow> u64 \<Rightarrow> (u64 \<times> u64) kres option" where
  "leftmost_loop h parent cur =
     (case h cur of None \<Rightarrow> Some (Inl BadAccess) | Some c \<Rightarrow>
        if left c \<noteq> 0 then leftmost_loop h cur (left c) else Some (Inr (parent, cur)))"

partial_function (option) rightmost_loop :: "bstheap \<Rightarrow> u64 \<Rightarrow> u64 \<Rightarrow> (u64 \<times> u64) kres option" where
  "rightmost_loop h parent cur =
     (case h cur of None \<Rightarrow> Some (Inl BadAccess) | Some c \<Rightarrow>
        if right c \<noteq> 0 then rightmost_loop h cur (right c) else Some (Inr (parent, cur)))"

definition set_left :: "u64 \<Rightarrow> u64 \<Rightarrow> bstheap \<Rightarrow> bstheap kres" where
  "set_left p q h = bindR (load h p) (\<lambda>n. Inr (h(p \<mapsto> n\<lparr>left := q\<rparr>)))"

definition set_right :: "u64 \<Rightarrow> u64 \<Rightarrow> bstheap \<Rightarrow> bstheap kres" where
  "set_right p q h = bindR (load h p) (\<lambda>n. Inr (h(p \<mapsto> n\<lparr>right := q\<rparr>)))"

text \<open>The in-order successor takes the place of a node with two children.\<close>

definition move_successor :: "bstheap \<Rightarrow> u64 \<Rightarrow> u64 \<Rightarrow> u64 \<Rightarrow> u64 \<Rightarrow> (u64 \<times> bstheap) kres" where
  "move_successor h l r newparent new =
     bindR (if newparent \<noteq> 0
            then bindR (load h new) (\<lambda>n. bindR (set_left newparent (right n) h) (set_right new r))
            else Inr h) (\<lambda>h1.
     bindR (set_left new l h1) (\<lambda>h2. Inr (new, h2)))"

definition bstree_remove_node :: "bstree \<Rightarrow> u64 \<Rightarrow> bstheap \<Rightarrow> (u64 \<times> bstree \<times> bstheap) kres option" where
  "bstree_remove_node tree node h =
     (case h node of None \<Rightarrow> Some (Inl BadAccess) | Some n \<Rightarrow>
      andThen
        (if right n \<noteq> 0 then
           (if left n \<noteq> 0 then
              andThen (leftmost_loop h 0 (right n)) (\<lambda>(newparent, new). move_successor h (left n) (right n) newparent new)
            else Some (Inr (right n, h)))
         else Some (Inr (if left n \<noteq> 0 then left n else 0, h)))
        (\<lambda>(new, h1). Inr (new, tree\<lparr>count := count tree - 1\<rparr>, h1)))"

text \<open>Linking what \<^verbatim>\<open>bstree_remove_node\<close> returned below the parent of the node removed, or at the root.\<close>

definition relink_removed :: "u64 \<Rightarrow> u64 \<Rightarrow> u64 \<times> bstree \<times> bstheap \<Rightarrow> (u64 \<times> bstree \<times> bstheap) kres" where
  "relink_removed parent cur = (\<lambda>(new, tree, h).
     if parent \<noteq> 0 then
       bindR (load h parent) (\<lambda>p.
       bindR (if left p = cur then set_left parent new h else set_right parent new h) (\<lambda>h1. Inr (cur, tree, h1)))
     else Inr (cur, tree\<lparr>root := new\<rparr>, h))"

partial_function (option) remove_exact_loop ::
    "cmp \<Rightarrow> bstree \<Rightarrow> u64 \<Rightarrow> u64 \<Rightarrow> u64 \<Rightarrow> bstheap \<Rightarrow> (u64 \<times> bstree \<times> bstheap) kres option" where
  "remove_exact_loop cmp tree d parent cur h =
     (if cur = 0 then Some (Inr (0, tree, h))
      else case h cur of None \<Rightarrow> Some (Inl BadAccess) | Some c \<Rightarrow>
        if data c = d then andThen (bstree_remove_node tree cur h) (relink_removed parent cur)
        else remove_exact_loop cmp tree d cur (if cmp d (data c) < 0 then left c else right c) h)"

definition bstree_remove_exact_data :: "cmp \<Rightarrow> bstree \<Rightarrow> u64 \<Rightarrow> bstheap \<Rightarrow> (u64 \<times> bstree \<times> bstheap) kres option" where
  "bstree_remove_exact_data cmp tree d h = remove_exact_loop cmp tree d 0 (root tree) h"

definition bstree_remove_first :: "bstree \<Rightarrow> bstheap \<Rightarrow> (u64 \<times> bstree \<times> bstheap) kres option" where
  "bstree_remove_first tree h =
     (if root tree = 0 then Some (Inr (0, tree, h))
      else case leftmost_loop h 0 (root tree) of None \<Rightarrow> None | Some (Inl e) \<Rightarrow> Some (Inl e)
      | Some (Inr (parent, cur)) \<Rightarrow>
          andThen (bstree_remove_node tree cur h) (\<lambda>(new, t1, h1).
            if parent \<noteq> 0 then bindR (set_left parent new h1) (\<lambda>h2. Inr (cur, t1, h2))
            else Inr (cur, t1\<lparr>root := new\<rparr>, h1)))"

definition bstree_remove_last :: "bstree \<Rightarrow> bstheap \<Rightarrow> (u64 \<times> bstree \<times> bstheap) kres option" where
  "bstree_remove_last tree h =
     (if root tree = 0 then Some (Inr (0, tree, h))
      else case rightmost_loop h 0 (root tree) of None \<Rightarrow> None | Some (Inl e) \<Rightarrow> Some (Inl e)
      | Some (Inr (parent, cur)) \<Rightarrow>
          andThen (bstree_remove_node tree cur h) (\<lambda>(new, t1, h1).
            if parent \<noteq> 0 then bindR (set_right parent new h1) (\<lambda>h2. Inr (cur, t1, h2))
            else Inr (cur, t1\<lparr>root := new\<rparr>, h1)))"

section \<open>Rotations\<close>

definition bstree_left_rotate :: "u64 \<Rightarrow> bstheap \<Rightarrow> (u64 \<times> bstheap) kres" where
  "bstree_left_rotate node h =
     bindR (load h node) (\<lambda>n.
     if right n = 0 then Inr (node, h)
     else bindR (load h (right n)) (\<lambda>m.
          bindR (set_right node (left m) h) (\<lambda>h1.
          bindR (set_left (right n) node h1) (\<lambda>h2. Inr (right n, h2)))))"

definition bstree_right_rotate :: "u64 \<Rightarrow> bstheap \<Rightarrow> (u64 \<times> bstheap) kres" where
  "bstree_right_rotate node h =
     bindR (load h node) (\<lambda>n.
     if left n = 0 then Inr (node, h)
     else bindR (load h (left n)) (\<lambda>m.
          bindR (set_left node (right m) h) (\<lambda>h1.
          bindR (set_right (left n) node h1) (\<lambda>h2. Inr (left n, h2)))))"

section \<open>Trees in the store\<close>

fun rep :: "bstheap \<Rightarrow> u64 \<Rightarrow> u64 tree \<Rightarrow> bool" where
  "rep h p Leaf \<longleftrightarrow> p = 0"
| "rep h p (Node l a r) \<longleftrightarrow> p = a \<and> a \<noteq> 0 \<and>
     (case h a of None \<Rightarrow> False | Some n \<Rightarrow> rep h (left n) l \<and> rep h (right n) r)"

definition key :: "bstheap \<Rightarrow> u64 \<Rightarrow> u64" where
  "key h a = (case h a of None \<Rightarrow> 0 | Some n \<Rightarrow> data n)"

lemma rep_frame: "rep h p t \<Longrightarrow> \<forall>a \<in> set_tree t. h' a = h a \<Longrightarrow> rep h' p t"
  by (induction t arbitrary: p) (auto split: option.splits)

lemma rep_upd [simp]: "a \<notin> set_tree t \<Longrightarrow> rep h p t \<Longrightarrow> rep (h(a \<mapsto> n)) p t"
  by (rule rep_frame) auto

lemma rep_root: "rep h p t \<Longrightarrow> p = (case t of Leaf \<Rightarrow> 0 | Node l a r \<Rightarrow> a)"
  by (cases t) auto

lemma rep_NodeD: "rep h p (Node l a r) \<Longrightarrow> \<exists>n. h a = Some n \<and> p = a \<and> a \<noteq> 0 \<and> rep h (left n) l \<and> rep h (right n) r"
  by (auto split: option.splits)

lemma rep_null: "rep h p t \<Longrightarrow> p = 0 \<longleftrightarrow> t = Leaf"
  by (cases t) auto

lemma rep_nonzero: "rep h p t \<Longrightarrow> x \<in> set_tree t \<Longrightarrow> x \<noteq> 0"
  by (induction t arbitrary: p) (auto split: option.splits)

lemma rep_Node_upd:
  "h a = Some c \<Longrightarrow> a \<noteq> p \<Longrightarrow> a \<noteq> 0 \<Longrightarrow> rep (h(p \<mapsto> m)) (left c) l \<Longrightarrow> rep (h(p \<mapsto> m)) (right c) r \<Longrightarrow>
   rep (h(p \<mapsto> m)) a (Node l a r)"
  by simp

section \<open>Insertion returns only where it goes left\<close>

text \<open>Where the search for a place ends: below a left link or below a right link.\<close>

fun ends_left :: "(u64 \<Rightarrow> bool) \<Rightarrow> u64 tree \<Rightarrow> bool" where
  "ends_left lt Leaf \<longleftrightarrow> False"
| "ends_left lt (Node l a r) \<longleftrightarrow> (if lt a then l = Leaf \<or> ends_left lt l else ends_left lt r)"

fun insert_at :: "(u64 \<Rightarrow> bool) \<Rightarrow> u64 \<Rightarrow> u64 tree \<Rightarrow> u64 tree" where
  "insert_at lt x Leaf = Node Leaf x Leaf"
| "insert_at lt x (Node l a r) = (if lt a then Node (insert_at lt x l) a r else Node l a (insert_at lt x r))"

lemma insert_left_law:
  fixes cmp :: cmp
  assumes "h node = Some n" "left n = 0" "right n = 0" "node \<noteq> 0"
  defines "lt \<equiv> \<lambda>a. cmp (data n) (key h a) < 0"
  shows "rep h cur t \<Longrightarrow> distinct (inorder t) \<Longrightarrow> node \<notin> set_tree t \<Longrightarrow> ends_left lt t \<Longrightarrow>
    \<exists>p m. p \<in> set_tree t \<and> h p = Some m \<and> insert_loop cmp node cur h = Some (Inr (h(p \<mapsto> m\<lparr>left := node\<rparr>))) \<and>
      rep (h(p \<mapsto> m\<lparr>left := node\<rparr>)) cur (insert_at lt node t)"
proof (induction t arbitrary: cur)
  case Leaf
  then show ?case by simp
next
  case (Node l a r)
  obtain c where c: "h a = Some c" "cur = a" "a \<noteq> 0" "rep h (left c) l" "rep h (right c) r" using rep_NodeD [OF Node.prems(1)] by blast
  have k: "lt a \<longleftrightarrow> cmp (data n) (data c) < 0" using c(1) by (simp add: key_def lt_def)
  have sets: "a \<notin> set_tree l" "a \<notin> set_tree r" "set_tree l \<inter> set_tree r = {}" "node \<noteq> a"
      "distinct (inorder l)" "distinct (inorder r)" "node \<notin> set_tree l" "node \<notin> set_tree r"
    using Node.prems(2,3) by auto
  have up: "insert_loop cmp node cur h = insert_loop cmp node (if lt a then left c else right c) h"
    if "(if lt a then left c else right c) \<noteq> 0"
    using that assms(1-4) c(1,2) k by (subst insert_loop.simps) (simp split: if_splits)
  consider "lt a" "l = Leaf" | "lt a" "ends_left lt l" | "\<not> lt a" "ends_left lt r"
    using Node.prems(4) by (auto split: if_splits)
  then show ?case
  proof cases
    case 1
    then have "insert_loop cmp node cur h = Some (Inr (h(a \<mapsto> c\<lparr>left := node\<rparr>)))"
      using assms c k by (subst insert_loop.simps) simp
    then show ?thesis using assms(1-4) c 1 sets
      by (intro exI [of _ a] exI [of _ c] conjI) (simp_all del: fun_upd_apply add: fun_upd_same fun_upd_other)
  next
    case 2
    from Node.IH(1) [OF c(4) sets(5,7) 2(2)] obtain p m where p: "p \<in> set_tree l" "h p = Some m"
        "insert_loop cmp node (left c) h = Some (Inr (h(p \<mapsto> m\<lparr>left := node\<rparr>)))" "rep (h(p \<mapsto> m\<lparr>left := node\<rparr>)) (left c) (insert_at lt node l)"
      by blast
    moreover have "left c \<noteq> 0" using 2(2) rep_null [OF c(4)] by auto
    moreover have "p \<noteq> a" "p \<notin> set_tree r" using p(1) sets by auto
    ultimately show ?thesis using c(2) up 2(1) rep_upd [OF _ c(5), of p] c(1,3) rep_Node_upd [of h a c p]
      by (intro exI [of _ p] exI [of _ m] conjI) (simp_all del: fun_upd_apply rep.simps)
  next
    case 3
    from Node.IH(2) [OF c(5) sets(6,8) 3(2)] obtain p m where p: "p \<in> set_tree r" "h p = Some m"
        "insert_loop cmp node (right c) h = Some (Inr (h(p \<mapsto> m\<lparr>left := node\<rparr>)))" "rep (h(p \<mapsto> m\<lparr>left := node\<rparr>)) (right c) (insert_at lt node r)"
      by blast
    moreover have "right c \<noteq> 0" using 3(2) rep_null [OF c(5)] by auto
    moreover have "p \<noteq> a" "p \<notin> set_tree l" using p(1) sets by auto
    ultimately show ?thesis using c(2) up 3(1) rep_upd [OF _ c(4), of p] c(1,3) rep_Node_upd [of h a c p]
      by (intro exI [of _ p] exI [of _ m] conjI) (simp_all del: fun_upd_apply rep.simps)
  qed
qed

text \<open>A node that is its own right child, or is about to be, keeps the loop running.\<close>

definition spins :: "cmp \<Rightarrow> u64 \<Rightarrow> bstheap \<Rightarrow> bool" where
  "spins cmp node h \<longleftrightarrow> (\<exists>n. h node = Some n \<and> (right n = 0 \<or> right n = node) \<and> 0 \<le> cmp (data n) (data n))"

lemma insert_stuck: "node \<noteq> 0 \<Longrightarrow> spins cmp node h \<Longrightarrow> insert_loop cmp node node h = None"
proof (rule ccontr)
  assume nz: "node \<noteq> 0" and sp: "spins cmp node h" and "insert_loop cmp node node h \<noteq> None"
  have step: "(c = cmp \<longrightarrow> x = node \<longrightarrow> \<not> (cur = node \<and> spins cmp node h))"
    if IH: "\<And>c x cur h y. f c x cur h = Some y \<Longrightarrow> c = cmp \<longrightarrow> x = node \<longrightarrow> \<not> (cur = node \<and> spins cmp node h)"
      and body: "(case h x of None \<Rightarrow> Some (Inl BadAccess) | Some n \<Rightarrow>
        case h cur of None \<Rightarrow> Some (Inl BadAccess) | Some m \<Rightarrow>
          if c (data n) (data m) < 0 then (if left m \<noteq> 0 then f c x (left m) h else Some (Inr (h(cur \<mapsto> m\<lparr>left := x\<rparr>))))
          else (if right m \<noteq> 0 then f c x (right m) h else f c x cur (h(cur \<mapsto> m\<lparr>right := x\<rparr>)))) = Some y"
    for f c x cur h y
  proof (intro impI notI)
    assume eq: "c = cmp" "x = node" and "cur = node \<and> spins cmp node h"
    then obtain n where n: "cur = node" "h node = Some n" "right n = 0 \<or> right n = node" "0 \<le> cmp (data n) (data n)"
      by (auto simp: spins_def)
    let ?h = "if right n \<noteq> 0 then h else h(node \<mapsto> n\<lparr>right := node\<rparr>)"
    have "f cmp node node ?h = Some y" using body n eq nz by (auto split: if_splits)
    then show False using IH [of cmp node node ?h y] n nz by (auto simp: spins_def split: if_splits)
  qed
  obtain y where "insert_loop cmp node node h = Some y" using \<open>insert_loop cmp node node h \<noteq> None\<close> by blast
  have "cmp = cmp \<longrightarrow> node = node \<longrightarrow> \<not> (node = node \<and> spins cmp node h)"
    apply (rule insert_loop.raw_induct [where P = "\<lambda>c x cur h y. c = cmp \<longrightarrow> x = node \<longrightarrow> \<not> (cur = node \<and> spins cmp node h)"])
    subgoal for f c x cur h y by (rule step [of f])
    by fact
  then show False using sp by simp
qed

lemma insert_right_law:
  assumes "h node = Some n" "right n = 0" "node \<noteq> 0" "0 \<le> cmp (data n) (data n)"
  shows "rep h cur t \<Longrightarrow> t \<noteq> Leaf \<Longrightarrow> node \<notin> set_tree t \<Longrightarrow> \<not> ends_left (\<lambda>a. cmp (data n) (key h a) < 0) t \<Longrightarrow>
    insert_loop cmp node cur h = None"
proof (induction t arbitrary: cur)
  case Leaf
  then show ?case by simp
next
  case (Node l a r)
  obtain c where c: "h a = Some c" "cur = a" "a \<noteq> 0" "rep h (left c) l" "rep h (right c) r" using rep_NodeD [OF Node.prems(1)] by blast
  have k: "key h a = data c" using c(1) by (simp add: key_def)
  show ?case
  proof (cases "cmp (data n) (data c) < 0")
    case True
    then have l: "l \<noteq> Leaf" "\<not> ends_left (\<lambda>a. cmp (data n) (key h a) < 0) l" using Node.prems(4) k by auto
    then have "left c \<noteq> 0" using rep_null [OF c(4)] by simp
    then have "insert_loop cmp node cur h = insert_loop cmp node (left c) h"
      using assms c(1,2) True by (subst insert_loop.simps) simp
    then show ?thesis using Node.IH(1) [OF c(4) l(1) _ l(2)] Node.prems(3) by simp
  next
    case False
    show ?thesis
    proof (cases "r = Leaf")
      case True
      let ?h = "h(a \<mapsto> c\<lparr>right := node\<rparr>)"
      have "insert_loop cmp node cur h = insert_loop cmp node a ?h"
        using assms c False True by (subst insert_loop.simps) simp
      also have "\<dots> = insert_loop cmp node node ?h"
        using assms c False Node.prems(3) by (subst insert_loop.simps) simp
      also have "\<dots> = None" using assms Node.prems(3) by (intro insert_stuck) (auto simp: spins_def)
      finally show ?thesis .
    next
      case r: False
      then have "right c \<noteq> 0" using rep_null [OF c(5)] by simp
      then have "insert_loop cmp node cur h = insert_loop cmp node (right c) h"
        using assms c(1,2) False by (subst insert_loop.simps) simp
      then show ?thesis using Node.IH(2) [OF c(5) r] Node.prems(3,4) False k by simp
    qed
  qed
qed

text \<open>An empty tree has no node to start from.\<close>

lemma insert_empty:
  "root tree = 0 \<Longrightarrow> h 0 = None \<Longrightarrow> bstree_insert_node cmp tree node h = Some (Inl BadAccess)"
  by (simp add: bstree_insert_node_def) (subst insert_loop.simps, simp split: option.split)

section \<open>The leftmost node\<close>

text \<open>Taking the leftmost node out of a tree.\<close>

fun min_split :: "'a tree \<Rightarrow> 'a \<times> 'a tree" where
  "min_split (Node l a r) = (if l = Leaf then (a, r) else (case min_split l of (m, l') \<Rightarrow> (m, Node l' a r)))"

lemma min_split_inorder: "t \<noteq> Leaf \<Longrightarrow> fst (min_split t) # inorder (snd (min_split t)) = inorder t"
  by (induction t) (auto split: prod.splits)

lemma min_split_mem: "t \<noteq> Leaf \<Longrightarrow> fst (min_split t) \<in> set_tree t"
  by (metis list.set_intros(1) min_split_inorder set_inorder)

lemma leftmost_law:
  "rep h cur t \<Longrightarrow> t \<noteq> Leaf \<Longrightarrow> distinct (inorder t) \<Longrightarrow>
   \<exists>p nm. leftmost_loop h q cur = Some (Inr (p, fst (min_split t))) \<and> h (fst (min_split t)) = Some nm \<and> left nm = 0 \<and>
     ((Tree.left t = Leaf \<and> p = q \<and> cur = fst (min_split t) \<and> rep h (right nm) (snd (min_split t))) \<or>
      (\<exists>np. Tree.left t \<noteq> Leaf \<and> p \<noteq> 0 \<and> p \<in> set_tree t \<and> p \<noteq> fst (min_split t) \<and> h p = Some np \<and>
         rep (h(p \<mapsto> np\<lparr>left := right nm\<rparr>)) cur (snd (min_split t))))"
proof (induction t arbitrary: cur q)
  case Leaf
  then show ?case by simp
next
  case (Node l a r)
  obtain c where c: "h a = Some c" "cur = a" "a \<noteq> 0" "rep h (left c) l" "rep h (right c) r" using rep_NodeD [OF Node.prems(1)] by blast
  show ?case
  proof (cases "l = Leaf")
    case True
    then have "leftmost_loop h q cur = Some (Inr (q, a))" using c by (subst leftmost_loop.simps) simp
    then show ?thesis using c True by (intro exI [of _ q] exI [of _ c]) simp
  next
    case False
    let ?m = "fst (min_split l)"
    have up: "leftmost_loop h q cur = leftmost_loop h a (left c)"
      using c False rep_null [OF c(4)] by (subst leftmost_loop.simps) simp
    have s: "min_split (Node l a r) = (?m, Node (snd (min_split l)) a r)" using False by (simp split: prod.split)
    have sets: "a \<notin> set_tree l" "a \<notin> set_tree r" "set_tree l \<inter> set_tree r = {}" "distinct (inorder l)" using Node.prems(3) by auto
    from Node.IH(1) [OF c(4) False sets(4), of a] obtain p nm where
      p: "leftmost_loop h a (left c) = Some (Inr (p, ?m))" "h ?m = Some nm" "left nm = 0" and
      alt: "(Tree.left l = Leaf \<and> p = a \<and> left c = ?m \<and> rep h (right nm) (snd (min_split l))) \<or>
        (\<exists>np. Tree.left l \<noteq> Leaf \<and> p \<noteq> 0 \<and> p \<in> set_tree l \<and> p \<noteq> ?m \<and> h p = Some np \<and>
          rep (h(p \<mapsto> np\<lparr>left := right nm\<rparr>)) (left c) (snd (min_split l)))" by blast
    have ma: "?m \<noteq> a" using min_split_mem [OF False] sets(1) by auto
    have "\<exists>np. p \<noteq> 0 \<and> p \<in> set_tree (Node l a r) \<and> p \<noteq> ?m \<and> h p = Some np \<and>
        rep (h(p \<mapsto> np\<lparr>left := right nm\<rparr>)) a (Node (snd (min_split l)) a r)"
      using alt
    proof (elim disjE exE conjE)
      assume pa: "p = a" and r: "rep h (right nm) (snd (min_split l))"
      have "a \<notin> set_tree (snd (min_split l))"
        using sets(1) min_split_inorder [OF False] by (metis list.set_intros(2) set_inorder)
      then show ?thesis using pa c r ma sets(2) by (intro exI [of _ c]) (simp del: fun_upd_apply add: fun_upd_same)
    next
      fix np assume "p \<noteq> 0" "p \<in> set_tree l" "p \<noteq> ?m" "h p = Some np"
        "rep (h(p \<mapsto> np\<lparr>left := right nm\<rparr>)) (left c) (snd (min_split l))"
      moreover have "p \<noteq> a" "p \<notin> set_tree r" using \<open>p \<in> set_tree l\<close> sets by auto
      ultimately show ?thesis using c(1,3) rep_Node_upd [of h a c p] rep_upd [OF _ c(5), of p] by (auto simp del: fun_upd_apply rep.simps)
    qed
    then show ?thesis unfolding s fst_conv snd_conv using up p False c(2) by (auto simp del: fun_upd_apply rep.simps)
  qed
qed

section \<open>Removing a node\<close>

fun del_root :: "'a tree \<Rightarrow> 'a tree" where
  "del_root (Node l a r) =
     (if r = Leaf then l else if l = Leaf then r else Node l (fst (min_split r)) (snd (min_split r)))"

lemma del_root_inorder: "inorder (del_root (Node l a r)) = inorder l @ inorder r"
  using min_split_inorder [of r] by auto

definition outside :: "u64 set \<Rightarrow> bstheap \<Rightarrow> bstheap \<Rightarrow> bool" where
  "outside A h h' \<longleftrightarrow> (\<forall>x. x \<notin> A \<longrightarrow> h' x = h x) \<and> (\<forall>x. key h' x = key h x)"

lemma outside_refl [simp]: "outside A h h"
  by (simp add: outside_def)

lemma key_upd: "h p = Some m \<Longrightarrow> data n = data m \<Longrightarrow> key (h(p \<mapsto> n)) x = key h x"
  by (simp add: key_def)

lemma outside_upd: "outside A h h' \<Longrightarrow> p \<in> A \<Longrightarrow> h' p = Some m \<Longrightarrow> data n = data m \<Longrightarrow> outside A h (h'(p \<mapsto> n))"
  by (auto simp: outside_def key_upd)

lemma outside_mono: "outside A h h' \<Longrightarrow> A \<subseteq> B \<Longrightarrow> outside B h h'"
  by (auto simp: outside_def)

lemma outside_rep: "outside A h h' \<Longrightarrow> A \<inter> set_tree t = {} \<Longrightarrow> rep h p t \<Longrightarrow> rep h' p t"
  by (rule rep_frame) (auto simp: outside_def)

lemma move_successor_law:
  assumes l: "rep h pl l" and r: "rep h pr r" "r \<noteq> Leaf"
    and d: "distinct (inorder r)" "set_tree l \<inter> set_tree r = {}"
    and loop: "leftmost_loop h 0 pr = Some (Inr (np, new))"
  shows "\<exists>h'. move_successor h pl pr np new = Inr (new, h') \<and> rep h' new (Node l (fst (min_split r)) (snd (min_split r))) \<and>
    outside (set_tree r) h h'"
proof -
  let ?m = "fst (min_split r)" and ?r = "snd (min_split r)"
  have m: "?m \<in> set_tree r" "?m \<notin> set_tree l" "?m \<notin> set_tree ?r" "set_tree ?r \<subseteq> set_tree r"
  proof -
    show "?m \<in> set_tree r" by (rule min_split_mem [OF r(2)])
    then show "?m \<notin> set_tree l" using d(2) by auto
    show "?m \<notin> set_tree ?r" "set_tree ?r \<subseteq> set_tree r"
      using min_split_inorder [OF r(2)] d(1) by (metis distinct.simps(2) set_inorder, metis set_inorder set_subset_Cons)
  qed
  obtain p nm where p: "leftmost_loop h 0 pr = Some (Inr (p, ?m))" and nm: "h ?m = Some nm" "left nm = 0" and
    alt: "(Tree.left r = Leaf \<and> p = 0 \<and> pr = ?m \<and> rep h (right nm) ?r) \<or>
      (\<exists>q. Tree.left r \<noteq> Leaf \<and> p \<noteq> 0 \<and> p \<in> set_tree r \<and> p \<noteq> ?m \<and> h p = Some q \<and> rep (h(p \<mapsto> q\<lparr>left := right nm\<rparr>)) pr ?r)"
    using leftmost_law [OF r d(1), of 0] by blast
  have eq: "new = ?m" "np = p" using p loop by simp_all
  have nz: "?m \<noteq> 0" using rep_nonzero [OF r(1) m(1)] .
  from alt show ?thesis
  proof (elim disjE exE conjE)
    assume a: "p = 0" "pr = ?m" "rep h (right nm) ?r"
    let ?h = "h(?m \<mapsto> nm\<lparr>left := pl\<rparr>)"
    have "move_successor h pl pr np new = Inr (new, ?h)" using a nm eq by (simp add: move_successor_def set_left_def load_def)
    moreover have "rep ?h new (Node l ?m ?r)"
      using a nm m nz l eq by (simp del: fun_upd_apply add: fun_upd_same)
    moreover have "outside (set_tree r) h ?h" using m(1) nm(1) by (intro outside_upd [where m = nm]) simp_all
    ultimately show ?thesis by blast
  next
    fix q assume a: "p \<noteq> 0" "p \<in> set_tree r" "p \<noteq> ?m" "h p = Some q" "rep (h(p \<mapsto> q\<lparr>left := right nm\<rparr>)) pr ?r"
    let ?h1 = "h(p \<mapsto> q\<lparr>left := right nm\<rparr>)"
    let ?h = "?h1(?m \<mapsto> nm\<lparr>right := pr, left := pl\<rparr>)"
    have hm: "?h1 ?m = Some nm" using a(3) nm(1) by simp
    have "move_successor h pl pr np new = Inr (new, ?h)"
      using a nm eq by (simp add: move_successor_def set_left_def set_right_def load_def)
    moreover have "rep ?h1 pl l" using a(2) d(2) l by (intro rep_upd) auto
    then have "rep ?h new (Node l ?m ?r)" using a(5) m nz eq by (simp del: fun_upd_apply add: fun_upd_same)
    moreover have "outside (set_tree r) h ?h1" using a(2,4) by (intro outside_upd [where m = q]) simp_all
    then have "outside (set_tree r) h ?h" using m(1) hm outside_upd [where h' = ?h1 and m = nm] by (simp del: fun_upd_apply)
    ultimately show ?thesis by blast
  qed
qed

lemma remove_node_law:
  assumes "rep h a (Node l a r)" "distinct (inorder (Node l a r))"
  shows "\<exists>new h'. bstree_remove_node tree a h = Some (Inr (new, tree\<lparr>count := count tree - 1\<rparr>, h')) \<and>
    rep h' new (del_root (Node l a r)) \<and> outside (set_tree l \<union> set_tree r) h h'"
proof -
  obtain c where c: "h a = Some c" "a \<noteq> 0" "rep h (left c) l" "rep h (right c) r" using rep_NodeD [OF assms(1)] by blast
  note z = rep_null [OF c(3)] rep_null [OF c(4)]
  show ?thesis
  proof (cases "l \<noteq> Leaf \<and> r \<noteq> Leaf")
    case True
    obtain np where loop: "leftmost_loop h 0 (right c) = Some (Inr (np, fst (min_split r)))"
      using leftmost_law [OF c(4), of 0] True assms(2) by auto
    obtain h' where "move_successor h (left c) (right c) np (fst (min_split r)) = Inr (fst (min_split r), h')"
        "rep h' (fst (min_split r)) (Node l (fst (min_split r)) (snd (min_split r)))" "outside (set_tree r) h h'"
      using move_successor_law [OF c(3,4) _ _ _ loop] True assms(2) by auto
    then show ?thesis using True c(1) z loop outside_mono [of "set_tree r" h h'] by (auto simp: bstree_remove_node_def)
  next
    case False
    then show ?thesis using c z by (auto simp: bstree_remove_node_def)
  qed
qed

section \<open>Removing the node with given data\<close>

text \<open>The node a search finds, with its parent, and the tree without it.\<close>

fun locate :: "(u64 \<Rightarrow> bool) \<Rightarrow> (u64 \<Rightarrow> bool) \<Rightarrow> u64 \<Rightarrow> u64 tree \<Rightarrow> (u64 \<times> u64) option" where
  "locate hit lt p Leaf = None"
| "locate hit lt p (Node l a r) = (if hit a then Some (p, a) else if lt a then locate hit lt a l else locate hit lt a r)"

fun del :: "(u64 \<Rightarrow> bool) \<Rightarrow> (u64 \<Rightarrow> bool) \<Rightarrow> u64 tree \<Rightarrow> u64 tree" where
  "del hit lt Leaf = Leaf"
| "del hit lt (Node l a r) =
     (if hit a then del_root (Node l a r) else if lt a then Node (del hit lt l) a r else Node l a (del hit lt r))"

lemma locate_mem: "locate hit lt p t = Some (q, x) \<Longrightarrow> x \<in> set_tree t \<and> hit x"
  by (induction t arbitrary: p) (auto split: if_splits)

lemma del_inorder:
  "distinct (inorder t) \<Longrightarrow> locate hit lt p t = Some (q, x) \<Longrightarrow> inorder (del hit lt t) = remove1 x (inorder t)"
proof (induction t arbitrary: p)
  case (Node l a r)
  show ?case
  proof (cases "hit a")
    case True
    then show ?thesis using Node.prems del_root_inorder [of l a r] by (auto simp: remove1_append simp del: del_root.simps)
  next
    case False
    then show ?thesis
      using Node.prems Node.IH locate_mem [of hit lt a _ q x] by (auto simp: remove1_append split: if_splits)
  qed
qed simp

lemma remove_loop_law:
  "rep h cur t \<Longrightarrow> remove_exact_loop cmp tree d p cur h =
    (case locate (\<lambda>a. key h a = d) (\<lambda>a. cmp d (key h a) < 0) p t of None \<Rightarrow> Some (Inr (0, tree, h))
     | Some (q, x) \<Rightarrow> andThen (bstree_remove_node tree x h) (relink_removed q x))"
proof (induction t arbitrary: p cur)
  case Leaf
  then show ?case by (subst remove_exact_loop.simps) simp
next
  case (Node l a r)
  obtain c where c: "h a = Some c" "cur = a" "a \<noteq> 0" "rep h (left c) l" "rep h (right c) r" using rep_NodeD [OF Node.prems] by blast
  then show ?case using Node.IH by (subst remove_exact_loop.simps) (simp add: key_def)
qed

lemma relink_removed_law:
  assumes "q \<noteq> 0" "h q = Some c" "left c = x \<or> right c = x" "left c = x \<Longrightarrow> right c = x \<Longrightarrow> False"
  shows "relink_removed q x (new, tree, h) = Inr (x, tree, h(q \<mapsto> (if left c = x then c\<lparr>left := new\<rparr> else c\<lparr>right := new\<rparr>)))"
  using assms by (auto simp: relink_removed_def load_def set_left_def set_right_def)

text \<open>A removal below a node: the parent is the node itself, or the removal was complete below it.\<close>

definition removed :: "bstheap \<Rightarrow> u64 \<Rightarrow> u64 tree \<Rightarrow> u64 tree \<Rightarrow> u64 \<Rightarrow> u64 \<Rightarrow> u64 \<Rightarrow> u64 \<Rightarrow> bstheap \<Rightarrow> bool" where
  "removed h cur t t' p q x new h1 \<longleftrightarrow> outside (set_tree t) h h1 \<and>
     (x = cur \<and> q = p \<and> rep h1 new t' \<or>
      x \<noteq> cur \<and> q \<noteq> 0 \<and> (\<exists>h2. (\<forall>tree. relink_removed q x (new, tree, h1) = Inr (x, tree, h2)) \<and> rep h2 cur t' \<and> outside (set_tree t) h h2))"

lemma removed_below:
  assumes a: "h a = Some c" "a \<noteq> 0" and reps: "rep h (left c) l" "rep h (right c) r"
    and d: "distinct (inorder (Node l a r))" and x: "x \<in> set_tree (if b then l else r)"
    and rem: "removed h (if b then left c else right c) (if b then l else r) t' a q x new h1"
    and sub': "set_tree t' \<subseteq> set_tree (if b then l else r)"
  shows "removed h a (Node l a r) (if b then Node t' a r else Node l a t') p q x new h1"
proof -
  let ?s = "if b then l else r" and ?o = "if b then r else l"
  have sets: "a \<notin> set_tree l" "a \<notin> set_tree r" "set_tree ?s \<inter> set_tree ?o = {}" "x \<noteq> a"
    using d x by (auto split: if_splits)
  have sub: "set_tree ?s \<subseteq> set_tree (Node l a r)" by auto
  have o1: "outside (set_tree ?s) h h1" using rem by (simp add: removed_def)
  have oth: "rep h2 (if b then right c else left c) ?o \<and> h2 a = Some c" if "outside (set_tree ?s) h h2" for h2
    using that outside_rep [OF that sets(3), of "if b then right c else left c"] reps a(1) sets(1,2) by (auto simp: outside_def)
  from rem have "x = (if b then left c else right c) \<and> q = a \<and> rep h1 new t' \<or>
      (\<exists>h2. q \<noteq> 0 \<and> (\<forall>tree. relink_removed q x (new, tree, h1) = Inr (x, tree, h2)) \<and> rep h2 (if b then left c else right c) t' \<and> outside (set_tree ?s) h h2)"
    by (auto simp: removed_def)
  then show ?thesis
  proof (elim disjE exE conjE)
    assume hit: "x = (if b then left c else right c)" "q = a" "rep h1 new t'"
    let ?h = "h1(a \<mapsto> (if left c = x then c\<lparr>left := new\<rparr> else c\<lparr>right := new\<rparr>))"
    have h1a: "h1 a = Some c" and o: "rep h1 (if b then right c else left c) ?o" using oth [OF o1] by auto
    have ne: "left c \<noteq> right c \<or> left c \<noteq> x"
      using rep_root [OF reps(1)] rep_root [OF reps(2)] rep_nonzero [OF reps(1), of x] rep_nonzero [OF reps(2), of x] hit(1) sets(3) x
      by (auto split: tree.splits if_splits)
    have relink_removed: "\<forall>tree. relink_removed q x (new, tree, h1) = Inr (x, tree, ?h)"
      using relink_removed_law [of q h1 c x new] hit(1,2) a(2) h1a ne by (auto split: if_splits)
    have side: "left c = x \<longleftrightarrow> b" using ne hit(1) by (auto split: if_splits)
    have "a \<notin> set_tree t'" using sub' sets(1,2) by (auto split: if_splits)
    then have "rep ?h a (if b then Node t' a r else Node l a t')"
      using hit(3) o a(2) sets(1,2) side by (auto simp del: fun_upd_apply simp: fun_upd_same)
    moreover have "outside (set_tree (Node l a r)) h ?h"
      using outside_mono [OF o1 sub] h1a by (intro outside_upd [where m = c]) auto
    ultimately show ?thesis using relink_removed hit(2) a(2) sets(4) outside_mono [OF o1 sub] unfolding removed_def by blast
  next
    fix h2 assume h2: "q \<noteq> 0" "\<forall>tree. relink_removed q x (new, tree, h1) = Inr (x, tree, h2)"
      "rep h2 (if b then left c else right c) t'" "outside (set_tree ?s) h h2"
    have "rep h2 a (if b then Node t' a r else Node l a t')" using h2(3) oth [OF h2(4)] a(2) by auto
    then show ?thesis using h2 o1 sets(4) outside_mono [OF _ sub] unfolding removed_def by blast
  qed
qed

lemma del_set: "set_tree (del hit lt t) \<subseteq> set_tree t"
proof (induction t)
  case (Node l a r)
  have "set_tree (del_root (Node l a r)) = set_tree l \<union> set_tree r"
    using arg_cong [OF del_root_inorder [of l a r], of set] by (simp del: del_root.simps)
  then show ?case using Node by (auto simp del: del_root.simps)
qed simp

lemma delete_law:
  "rep h cur t \<Longrightarrow> distinct (inorder t) \<Longrightarrow> locate hit lt p t = Some (q, x) \<Longrightarrow>
   \<exists>new h1. bstree_remove_node tree x h = Some (Inr (new, tree\<lparr>count := count tree - 1\<rparr>, h1)) \<and>
     removed h cur t (del hit lt t) p q x new h1"
proof (induction t arbitrary: p cur)
  case (Node l a r)
  obtain c where c: "h a = Some c" "cur = a" "a \<noteq> 0" "rep h (left c) l" "rep h (right c) r" using rep_NodeD [OF Node.prems(1)] by blast
  show ?case
  proof (cases "hit a")
    case True
    have "rep h a (Node l a r)" using Node.prems(1) c(2) by simp
    from remove_node_law [OF this Node.prems(2)] obtain new h1 where
      "bstree_remove_node tree a h = Some (Inr (new, tree\<lparr>count := count tree - 1\<rparr>, h1))"
      "rep h1 new (del_root (Node l a r))" "outside (set_tree l \<union> set_tree r) h h1" by blast
    moreover from this(3) have "outside (set_tree (Node l a r)) h h1" by (rule outside_mono) auto
    moreover have "x = a" "q = p" "del hit lt (Node l a r) = del_root (Node l a r)" using True Node.prems(3) by simp_all
    ultimately show ?thesis unfolding removed_def using c(2) by metis
  next
    case False
    let ?s = "if lt a then l else r"
    have loc: "locate hit lt a ?s = Some (q, x)" using Node.prems(3) False by (simp split: if_splits)
    have "\<exists>new h1. bstree_remove_node tree x h = Some (Inr (new, tree\<lparr>count := count tree - 1\<rparr>, h1)) \<and>
      removed h (if lt a then left c else right c) ?s (del hit lt ?s) a q x new h1"
      using Node.IH(1) [OF c(4), of a] Node.IH(2) [OF c(5), of a] Node.prems(2) loc by (auto split: if_splits)
    then obtain new h1 where r: "bstree_remove_node tree x h = Some (Inr (new, tree\<lparr>count := count tree - 1\<rparr>, h1))"
      "removed h (if lt a then left c else right c) ?s (del hit lt ?s) a q x new h1" by blast
    have "del hit lt (Node l a r) = (if lt a then Node (del hit lt ?s) a r else Node l a (del hit lt ?s))" using False by simp
    then have "removed h a (Node l a r) (del hit lt (Node l a r)) p q x new h1"
      using removed_below [OF c(1,3,4,5) Node.prems(2) _ r(2) del_set, of p] locate_mem [OF loc] by (simp only:)
    then show ?thesis using r(1) c(2) by blast
  qed
qed simp

text \<open>The order of the tree: smaller data to the left, other data to the right.\<close>

fun ordered :: "cmp \<Rightarrow> (u64 \<Rightarrow> u64) \<Rightarrow> u64 tree \<Rightarrow> bool" where
  "ordered cmp k Leaf \<longleftrightarrow> True"
| "ordered cmp k (Node l a r) \<longleftrightarrow> (\<forall>x \<in> set_tree l. cmp (k x) (k a) < 0) \<and> (\<forall>x \<in> set_tree r. \<not> cmp (k x) (k a) < 0) \<and>
     ordered cmp k l \<and> ordered cmp k r"

lemma locate_ordered:
  "ordered cmp k t \<Longrightarrow> locate (\<lambda>a. k a = d) (\<lambda>a. cmp d (k a) < 0) p t = None \<longleftrightarrow> d \<notin> k ` set_tree t"
  by (induction t arbitrary: p) auto

section \<open>Removing the ends\<close>

lemma remove_leftless:
  "h m = Some nm \<Longrightarrow> left nm = 0 \<Longrightarrow> bstree_remove_node tree m h = Some (Inr (right nm, tree\<lparr>count := count tree - 1\<rparr>, h))"
  by (simp add: bstree_remove_node_def)

lemma remove_first_law:
  assumes "rep h (root tree) t" "t \<noteq> Leaf" "distinct (inorder t)"
  shows "\<exists>tree' h'. bstree_remove_first tree h = Some (Inr (hd (inorder t), tree', h')) \<and>
    rep h' (root tree') (snd (min_split t)) \<and> count tree' = count tree - 1"
proof -
  let ?m = "fst (min_split t)"
  have hd: "hd (inorder t) = ?m" using min_split_inorder [OF assms(2)] by (metis list.sel(1))
  have nz: "root tree \<noteq> 0" using rep_null [OF assms(1)] assms(2) by simp
  obtain p nm where p: "leftmost_loop h 0 (root tree) = Some (Inr (p, ?m))" "h ?m = Some nm" "left nm = 0" and
    alt: "(Tree.left t = Leaf \<and> p = 0 \<and> root tree = ?m \<and> rep h (right nm) (snd (min_split t))) \<or>
      (\<exists>np. Tree.left t \<noteq> Leaf \<and> p \<noteq> 0 \<and> p \<in> set_tree t \<and> p \<noteq> ?m \<and> h p = Some np \<and>
         rep (h(p \<mapsto> np\<lparr>left := right nm\<rparr>)) (root tree) (snd (min_split t)))"
    using leftmost_law [OF assms, of 0] by blast
  from alt show ?thesis
  proof (elim disjE exE conjE)
    assume "p = 0" "rep h (right nm) (snd (min_split t))"
    then show ?thesis using p nz by (simp add: bstree_remove_first_def remove_leftless hd)
  next
    fix np assume "p \<noteq> 0" "h p = Some np" "rep (h(p \<mapsto> np\<lparr>left := right nm\<rparr>)) (root tree) (snd (min_split t))"
    then show ?thesis using p nz
      by (simp del: fun_upd_apply add: bstree_remove_first_def remove_leftless set_left_def load_def hd)
  qed
qed

section \<open>Rotations\<close>

lemma left_rotate_law:
  assumes "rep h x (Node A x (Node B y C))" "distinct (inorder (Node A x (Node B y C)))"
  shows "\<exists>h'. bstree_left_rotate x h = Inr (y, h') \<and> rep h' y (Node (Node A x B) y C)"
proof -
  obtain c where c: "h x = Some c" "x \<noteq> 0" "rep h (left c) A" "rep h (right c) (Node B y C)" using rep_NodeD [OF assms(1)] by blast
  obtain m where m: "h y = Some m" "right c = y" "y \<noteq> 0" "rep h (left m) B" "rep h (right m) C" using rep_NodeD [OF c(4)] by blast
  let ?h = "h(x \<mapsto> c\<lparr>right := left m\<rparr>, y \<mapsto> m\<lparr>left := x\<rparr>)"
  have xy: "x \<noteq> y" using assms(2) by auto
  have "bstree_left_rotate x h = Inr (y, ?h)" using c m xy by (simp add: bstree_left_rotate_def load_def set_left_def set_right_def)
  moreover have "rep ?h (left c) A" "rep ?h (left m) B" "rep ?h (right m) C"
    using c(3) m(4,5) assms(2) by (auto intro!: rep_upd simp del: fun_upd_apply)
  then have "rep ?h y (Node (Node A x B) y C)" using c m xy by (simp add: fun_upd_twist [OF xy])
  ultimately show ?thesis by blast
qed

lemma right_rotate_law:
  assumes "rep h x (Node (Node B y C) x A)" "distinct (inorder (Node (Node B y C) x A))"
  shows "\<exists>h'. bstree_right_rotate x h = Inr (y, h') \<and> rep h' y (Node B y (Node C x A))"
proof -
  obtain c where c: "h x = Some c" "x \<noteq> 0" "rep h (left c) (Node B y C)" "rep h (right c) A" using rep_NodeD [OF assms(1)] by blast
  obtain m where m: "h y = Some m" "left c = y" "y \<noteq> 0" "rep h (left m) B" "rep h (right m) C" using rep_NodeD [OF c(3)] by blast
  let ?h = "h(x \<mapsto> c\<lparr>left := right m\<rparr>, y \<mapsto> m\<lparr>right := x\<rparr>)"
  have xy: "x \<noteq> y" using assms(2) by auto
  have "bstree_right_rotate x h = Inr (y, ?h)" using c m xy by (simp add: bstree_right_rotate_def load_def set_left_def set_right_def)
  moreover have "rep ?h (right c) A" "rep ?h (left m) B" "rep ?h (right m) C"
    using c(4) m(4,5) assms(2) by (auto intro!: rep_upd simp del: fun_upd_apply)
  then have "rep ?h y (Node B y (Node C x A))" using c m xy by (simp add: fun_upd_twist [OF xy])
  ultimately show ?thesis by blast
qed

section \<open>The order is kept\<close>

definition weak_order :: "cmp \<Rightarrow> bool" where
  "weak_order cmp \<longleftrightarrow> (\<forall>x y. cmp x y < 0 \<longrightarrow> \<not> cmp y x < 0) \<and> (\<forall>x y z. cmp x y < 0 \<longrightarrow> cmp y z < 0 \<longrightarrow> cmp x z < 0) \<and>
     (\<forall>x y z. cmp x y < 0 \<longrightarrow> \<not> cmp z y < 0 \<longrightarrow> cmp x z < 0)"

lemma min_split_set: "t \<noteq> Leaf \<Longrightarrow> set_tree t = insert (fst (min_split t)) (set_tree (snd (min_split t)))"
  using arg_cong [OF min_split_inorder [of t], of set] by simp

lemma min_split_ordered:
  assumes "weak_order cmp"
  shows "ordered cmp k t \<Longrightarrow> t \<noteq> Leaf \<Longrightarrow>
    ordered cmp k (snd (min_split t)) \<and> (\<forall>y \<in> set_tree (snd (min_split t)). \<not> cmp (k y) (k (fst (min_split t))) < 0)"
proof (induction t)
  case (Node l a r)
  show ?case
  proof (cases "l = Leaf")
    case False
    have s: "min_split (Node l a r) = (fst (min_split l), Node (snd (min_split l)) a r)" using False by (simp split: prod.split)
    have m: "cmp (k (fst (min_split l))) (k a) < 0" using Node.prems(1) min_split_mem [OF False] by simp
    have o: "\<forall>x y. cmp x y < 0 \<longrightarrow> \<not> cmp y x < 0" "\<forall>x y z. cmp x y < 0 \<longrightarrow> cmp y z < 0 \<longrightarrow> cmp x z < 0"
      using assms unfolding weak_order_def by - (elim conjE, assumption)+
    have l: "\<forall>y \<in> set_tree (snd (min_split l)). cmp (k y) (k a) < 0" using Node.prems(1) min_split_set [OF False] by simp
    have "\<not> cmp (k y) (k (fst (min_split l))) < 0" if "y = a \<or> y \<in> set_tree r" for y
      using that
    proof
      assume "y = a"
      then show ?thesis using m o(1) by blast
    next
      assume "y \<in> set_tree r"
      then have "\<not> cmp (k y) (k a) < 0" using Node.prems(1) by simp
      then show ?thesis using m o(2) by blast
    qed
    moreover have "ordered cmp k (snd (min_split l))" "\<forall>y \<in> set_tree (snd (min_split l)). \<not> cmp (k y) (k (fst (min_split l))) < 0"
      using Node.IH(1) Node.prems(1) False by simp_all
    ultimately show ?thesis unfolding s fst_conv snd_conv using Node.prems(1) l by (simp add: ball_Un)
  qed (use Node.prems in simp)
qed simp

lemma del_ordered:
  assumes "weak_order cmp"
  shows "ordered cmp k t \<Longrightarrow> ordered cmp k (del hit lt t)"
proof (induction t)
  case (Node l a r)
  have "ordered cmp k (del_root (Node l a r))"
  proof (cases "l = Leaf \<or> r = Leaf")
    case False
    have "\<not> cmp (k (fst (min_split r))) (k a) < 0" using Node.prems min_split_mem [of r] False by simp
    then have "\<forall>x \<in> set_tree l. cmp (k x) (k (fst (min_split r))) < 0"
      using assms Node.prems unfolding weak_order_def ordered.simps by blast
    then show ?thesis using min_split_ordered [OF assms, of k r] Node.prems False by simp
  qed (use Node.prems in auto)
  then show ?case using Node del_set [of hit lt l] del_set [of hit lt r] by (auto simp del: del_root.simps)
qed simp

section \<open>Properties\<close>

text \<open>C39. Inserting a fresh node into a tree that is not empty returns exactly if the search for its place ends below
  a left link; then the node is linked there, nothing else changes and the count grows by one. When the search ends
  below a right link the loop has no exit: the node becomes its own right child and the call never returns.\<close>

theorem bstree_insert_returns:
  assumes "rep h (root tree) t" "t \<noteq> Leaf" "distinct (inorder t)" "node \<notin> set_tree t"
    "h node = Some n" "left n = 0" "right n = 0" "node \<noteq> 0" "0 \<le> cmp (data n) (data n)"
  shows "(bstree_insert_node cmp tree node h \<noteq> None \<longleftrightarrow> ends_left (\<lambda>a. cmp (data n) (key h a) < 0) t) \<and>
    (ends_left (\<lambda>a. cmp (data n) (key h a) < 0) t \<longrightarrow>
      (\<exists>h'. bstree_insert_node cmp tree node h = Some (Inr (0, tree\<lparr>count := count tree + 1\<rparr>, h')) \<and>
        rep h' (root tree) (insert_at (\<lambda>a. cmp (data n) (key h a) < 0) node t)))"
proof (cases "ends_left (\<lambda>a. cmp (data n) (key h a) < 0) t")
  case True
  from insert_left_law [where h = h and n = n and cmp = cmp, OF assms(5-8,1,3,4) True] show ?thesis using True by (auto simp: bstree_insert_node_def)
next
  case False
  from insert_right_law [where h = h and n = n and cmp = cmp, OF assms(5,7-9,1,2,4) False] show ?thesis using False by (simp add: bstree_insert_node_def)
qed

definition demo_cmp :: cmp where "demo_cmp x y = uint x - uint y"

definition demo_nodes :: bstheap where
  "demo_nodes = [0x10 \<mapsto> \<lparr>left = 0x20, right = 0x30, data = 5\<rparr>, 0x20 \<mapsto> \<lparr>left = 0, right = 0, data = 3\<rparr>,
     0x30 \<mapsto> \<lparr>left = 0, right = 0, data = 7\<rparr>, 0x40 \<mapsto> \<lparr>left = 0, right = 0, data = 6\<rparr>, 0x50 \<mapsto> \<lparr>left = 0, right = 0, data = 4\<rparr>]"

definition demo_tree :: "u64 tree" where
  "demo_tree = Node (Node Leaf 0x20 Leaf) 0x10 (Node Leaf 0x30 Leaf)"

lemma demo_rep: "rep demo_nodes 0x10 demo_tree" "distinct (inorder demo_tree)" "demo_tree \<noteq> Leaf"
  by (simp_all add: demo_nodes_def demo_tree_def)

theorem bstree_insert_returns_witness:
  "(\<exists>h'. bstree_insert_node demo_cmp \<lparr>root = 0x10, count = 3\<rparr> 0x40 demo_nodes = Some (Inr (0, \<lparr>root = 0x10, count = 4\<rparr>, h')) \<and>
     rep h' 0x10 (Node (Node Leaf 0x20 Leaf) 0x10 (Node (Node Leaf 0x40 Leaf) 0x30 Leaf))) \<and>
   bstree_insert_node demo_cmp \<lparr>root = 0x10, count = 3\<rparr> 0x50 demo_nodes = None"
  using bstree_insert_returns [of demo_nodes "\<lparr>root = 0x10, count = 3\<rparr>" demo_tree "0x40" "\<lparr>left = 0, right = 0, data = 6\<rparr>" demo_cmp]
    bstree_insert_returns [of demo_nodes "\<lparr>root = 0x10, count = 3\<rparr>" demo_tree "0x50" "\<lparr>left = 0, right = 0, data = 4\<rparr>" demo_cmp] demo_rep
  by (simp add: demo_tree_def demo_cmp_def key_def) (simp add: demo_nodes_def)

text \<open>C40. Removing data from an ordered tree returns. If no node has the data the result is NULL and nothing changes.
  Otherwise a node with the data is returned; the tree that is left has the other nodes in the order they had, is
  ordered again, every node keeps its data, and the count is one less.\<close>

theorem bstree_remove_exact_removes:
  assumes "rep h (root tree) t" "distinct (inorder t)" "ordered cmp (key h) t" "weak_order cmp"
  shows "\<exists>x tree' h'. bstree_remove_exact_data cmp tree d h = Some (Inr (x, tree', h')) \<and>
    (if d \<in> key h ` set_tree t
     then x \<in> set_tree t \<and> key h x = d \<and> count tree' = count tree - 1 \<and> key h' = key h \<and>
       (\<exists>t'. rep h' (root tree') t' \<and> inorder t' = remove1 x (inorder t) \<and> ordered cmp (key h') t')
     else x = 0 \<and> tree' = tree \<and> h' = h)"
proof (cases "locate (\<lambda>a. key h a = d) (\<lambda>a. cmp d (key h a) < 0) 0 t")
  case None
  then show ?thesis using remove_loop_law [OF assms(1), of cmp tree d 0] locate_ordered [OF assms(3), of d 0]
    by (simp add: bstree_remove_exact_data_def)
next
  case (Some qx)
  let ?hit = "\<lambda>a. key h a = d" and ?lt = "\<lambda>a. cmp d (key h a) < 0" and ?tree = "tree\<lparr>count := count tree - 1\<rparr>"
  obtain q x where qx: "locate ?hit ?lt 0 t = Some (q, x)" using Some by (cases qx) auto
  from delete_law [OF assms(1,2) qx] obtain new h1 where rm: "bstree_remove_node tree x h = Some (Inr (new, ?tree, h1))"
    and r: "removed h (root tree) t (del ?hit ?lt t) 0 q x new h1" by blast
  have run: "bstree_remove_exact_data cmp tree d h = Some (relink_removed q x (new, ?tree, h1))"
    using remove_loop_law [OF assms(1), of cmp tree d 0] qx rm by (simp add: bstree_remove_exact_data_def)
  have "\<exists>tree' h'. relink_removed q x (new, ?tree, h1) = Inr (x, tree', h') \<and> count tree' = count tree - 1 \<and>
      rep h' (root tree') (del ?hit ?lt t) \<and> outside (set_tree t) h h'"
    using r unfolding removed_def
  proof (elim conjE disjE exE)
    assume "q = 0" "rep h1 new (del ?hit ?lt t)" "outside (set_tree t) h h1"
    then show ?thesis by (simp add: relink_removed_def)
  next
    fix h2 assume "\<forall>tree. relink_removed q x (new, tree, h1) = Inr (x, tree, h2)" "rep h2 (root tree) (del ?hit ?lt t)" "outside (set_tree t) h h2"
    then show ?thesis by simp
  qed
  then obtain tree' h' where t: "relink_removed q x (new, ?tree, h1) = Inr (x, tree', h')" "count tree' = count tree - 1"
    "rep h' (root tree') (del ?hit ?lt t)" "outside (set_tree t) h h'" by blast
  have k: "key h' = key h" using t(4) by (auto simp: outside_def)
  have "d \<in> key h ` set_tree t" "x \<in> set_tree t" "key h x = d" using locate_mem [OF qx] by auto
  moreover have "ordered cmp (key h') (del ?hit ?lt t)" using del_ordered [OF assms(4,3)] k by simp
  ultimately show ?thesis using run t k del_inorder [OF assms(2) qx] by auto
qed

theorem bstree_remove_exact_removes_witness:
  "\<exists>tree' h' t'. bstree_remove_exact_data demo_cmp \<lparr>root = 0x10, count = 3\<rparr> 5 demo_nodes = Some (Inr (0x10, tree', h')) \<and>
     count tree' = 2 \<and> rep h' (root tree') t' \<and> inorder t' = [0x20, 0x30]"
proof -
  have k: "key demo_nodes 0x10 = 5" "key demo_nodes 0x20 = 3" "key demo_nodes 0x30 = 7" by (simp_all add: key_def demo_nodes_def)
  have s: "set_tree demo_tree = {0x10, 0x20, 0x30}" "inorder demo_tree = [0x20, 0x10, 0x30]" by (auto simp: demo_tree_def)
  have o: "ordered demo_cmp (key demo_nodes) demo_tree" by (simp add: demo_tree_def demo_cmp_def k)
  have w: "weak_order demo_cmp" by (auto simp: weak_order_def demo_cmp_def)
  have r: "rep demo_nodes (root \<lparr>root = 0x10, count = 3\<rparr>) demo_tree" using demo_rep by simp
  from bstree_remove_exact_removes [OF r demo_rep(2) o w, of 5] obtain x tree' h' t' where
    x: "bstree_remove_exact_data demo_cmp \<lparr>root = 0x10, count = 3\<rparr> 5 demo_nodes = Some (Inr (x, tree', h'))"
    "x \<in> {0x10, 0x20, 0x30}" "key demo_nodes x = 5" "count tree' = 2" "rep h' (root tree') t'" "inorder t' = remove1 x [0x20, 0x10, 0x30]"
    by (auto simp: s k)
  then have "x = 0x10" using k by auto
  then show ?thesis using x by auto
qed

end
