(* ===== verification/Fat12.thy ===== *)
theory Fat12
  imports Prelude
begin

unbundle bit_operations_syntax

text \<open>
  The FAT12 file system of \<^verbatim>\<open>src/vfs/fat/fat12.c\<close> and the detection of the FAT type of \<^verbatim>\<open>fat.c\<close>. The drive is a
  parameter: its \<^verbatim>\<open>read_sectors\<close> gives a result and the bytes it stored. So is the outcome of an allocation, by
  its size; every buffer is freed again before a routine returns. A buffer is the list of the bytes stored in it; a
  store past its size, or a load of a byte that was never stored, is a bad access. A division by zero stops the kernel.
  The lemmas relate what the routines return to the bytes of the drive.
\<close>

section \<open>Data\<close>

record fat_boot_sector =
  bytes_per_sector :: u16
  sectors_per_cluster :: u8
  reserved_sector_count :: u16
  num_fats :: u8
  root_entry_count :: u16
  total_sectors_16 :: u16
  fat_size_16 :: u16
  total_sectors_32 :: u32
  boot_sector_signature :: u16

record filesystem_fat12 =
  boot_sector :: fat_boot_sector
  read_status :: u8
  logical_sector_size :: u32
  partition_start_lba :: u32
  factor :: u32
  fat_start_lba :: u32
  cluster_heap_start_lba :: u32
  root_dir_start_lba :: u32
  fat_sectors :: u32
  root_dir_sectors :: u32
  total_sectors :: u32
  total_clusters :: u32

type_synonym read_sectors = "u64 \<Rightarrow> u64 \<Rightarrow> int \<times> u8 list"

definition FAT12_CLUSTER_EOC :: u16 where "FAT12_CLUSTER_EOC = 0xFF8"

definition FAT_ATTR_LONG_NAME :: u8 where "FAT_ATTR_LONG_NAME = 0x0F"

definition bps :: "filesystem_fat12 \<Rightarrow> u32" where
  "bps fs = ucast (bytes_per_sector (boot_sector fs))"

definition spc :: "filesystem_fat12 \<Rightarrow> u32" where
  "spc fs = ucast (sectors_per_cluster (boot_sector fs))"

text \<open>An \<^verbatim>\<open>int\<close> keeps 32 bits of a wider result. A size of zero is never allocated.\<close>

definition c_int :: "int \<Rightarrow> int" where
  "c_int x = sint (word_of_int x :: 32 word)"

definition kmalloc_ok :: "(nat \<Rightarrow> bool) \<Rightarrow> nat \<Rightarrow> bool" where
  "kmalloc_ok mem n \<longleftrightarrow> n \<noteq> 0 \<and> mem n"

section \<open>Detection\<close>

datatype fat_type = FAT_TYPE_ERROR | FAT_TYPE_12 | FAT_TYPE_16 | FAT_TYPE_32

text \<open>The sectors of the root directory and of the data, and the number of clusters, as both routines compute them.\<close>

definition root_sectors :: "fat_boot_sector \<Rightarrow> u32" where
  "root_sectors bs = (ucast (root_entry_count bs) * 32 + (ucast (bytes_per_sector bs) - 1)) div ucast (bytes_per_sector bs)"

definition all_sectors :: "fat_boot_sector \<Rightarrow> u32" where
  "all_sectors bs = (if total_sectors_16 bs \<noteq> 0 then ucast (total_sectors_16 bs) else total_sectors_32 bs)"

definition cluster_count :: "fat_boot_sector \<Rightarrow> u32" where
  "cluster_count bs =
     (all_sectors bs - (ucast (reserved_sector_count bs) + ucast (num_fats bs) * ucast (fat_size_16 bs) + root_sectors bs))
       div ucast (sectors_per_cluster bs)"

definition fat_detect_type :: "fat_boot_sector \<Rightarrow> fat_type kres" where
  "fat_detect_type bs =
     (if fat_size_16 bs \<noteq> 0 then
        if bytes_per_sector bs = 0 \<or> sectors_per_cluster bs = 0 then Inl Halt
        else Inr (if cluster_count bs < 4085 then FAT_TYPE_12 else FAT_TYPE_16)
      else Inr FAT_TYPE_32)"

section \<open>Reading sectors\<close>

lemma step_shrinks:
  fixes f r c :: u32
  assumes "r \<noteq> 0" "f \<noteq> 0"
  shows "unat (r - (if r < f - c mod f then r else f - c mod f)) < unat r"
proof -
  have "c mod f < f" using assms(2) by (simp add: word_mod_less_divisor word_neq_0_conv)
  then have "f - c mod f \<noteq> 0" by auto
  then show ?thesis using assms(1) by (auto simp: not_less unat_sub unat_gt_0)
qed

function (sequential) drive_read_loop ::
    "read_sectors \<Rightarrow> filesystem_fat12 \<Rightarrow> u32 \<Rightarrow> u32 \<Rightarrow> nat \<Rightarrow> u8 list \<Rightarrow> (int \<times> u8 list) kres" where
  "drive_read_loop rd fs current_fat_lba remaining cap out =
     (if remaining = 0 then Inr (0, out)
      else if factor fs = 0 then Inl Halt
      else
        let drive_lba = partition_start_lba fs + current_fat_lba div factor fs;
            offset = current_fat_lba mod factor fs;
            n = (if remaining < factor fs - offset then remaining else factor fs - offset);
            start = unat (offset * bps fs);
            len = unat (n * bps fs)
        in case rd (ucast drive_lba) 1 of (ret, tmp) \<Rightarrow>
             if unat (logical_sector_size fs) < length tmp then Inl BadAccess
             else if c_int ret < 0 then Inr (- 1, out)
             else if length tmp < start + len \<or> cap < length out + len then Inl BadAccess
             else drive_read_loop rd fs (current_fat_lba + n) (remaining - n) cap (out @ take len (drop start tmp)))"
  by pat_completeness auto

termination
  by (relation "measure (\<lambda>(rd, fs, cur, remaining, cap, out). unat remaining)") (simp_all only: in_measure split_conv step_shrinks wf_measure simp_thms)

declare drive_read_loop.simps [simp del]

definition fat12_drive_read ::
    "read_sectors \<Rightarrow> (nat \<Rightarrow> bool) \<Rightarrow> filesystem_fat12 \<Rightarrow> u32 \<Rightarrow> u32 \<Rightarrow> nat \<Rightarrow> (int \<times> u8 list) kres" where
  "fat12_drive_read rd mem fs fat_lba sectors cap =
     (if sectors = 0 then Inr (- 1, [])
      else if factor fs = 1 then
        (case rd (ucast (partition_start_lba fs + fat_lba)) (ucast sectors) of (ret, buffer) \<Rightarrow>
           if cap < length buffer then Inl BadAccess else Inr (c_int ret, buffer))
      else if \<not> kmalloc_ok mem (unat (logical_sector_size fs)) then Inr (- ENOMEM, [])
      else drive_read_loop rd fs fat_lba sectors cap [])"

definition fat12_read_entry ::
    "read_sectors \<Rightarrow> (nat \<Rightarrow> bool) \<Rightarrow> filesystem_fat12 \<Rightarrow> u16 \<Rightarrow> nat \<Rightarrow> (int \<times> u8 list) kres" where
  "fat12_read_entry rd mem fs cluster cap =
     (if cluster < 2 then Inr (- 1, [])
      else fat12_drive_read rd mem fs (cluster_heap_start_lba fs + (ucast cluster - 2) * spc fs) (spc fs) cap)"

section \<open>The allocation table\<close>

definition byte_at :: "u8 list \<Rightarrow> nat \<Rightarrow> u8 kres" where
  "byte_at buf i = (if i < length buf then Inr (buf ! i) else Inl BadAccess)"

definition le16 :: "u8 \<Rightarrow> u8 \<Rightarrow> u16" where
  "le16 lo hi = ucast lo OR push_bit 8 (ucast hi)"

text \<open>The two bytes that hold the entry of a cluster; they may lie in two sectors.\<close>

definition entry_bytes ::
    "read_sectors \<Rightarrow> (nat \<Rightarrow> bool) \<Rightarrow> filesystem_fat12 \<Rightarrow> u32 \<Rightarrow> (int \<times> u16) kres" where
  "entry_bytes rd mem fs fat_offset =
     (let fat_sector = fat_start_lba fs + fat_offset div bps fs;
          offs = fat_offset mod bps fs
      in bindR (fat12_drive_read rd mem fs fat_sector 1 (unat (bps fs))) (\<lambda>(res, sector_buf).
           if res < 0 then Inr (- 1, 0)
           else bindR (byte_at sector_buf (unat offs)) (\<lambda>lo.
             if offs = bps fs - 1 then
               bindR (fat12_drive_read rd mem fs (fat_sector + 1) 1 (unat (bps fs))) (\<lambda>(res2, sector_buf2).
                 if res2 < 0 then Inr (- 1, 0)
                 else bindR (byte_at sector_buf2 0) (\<lambda>hi. Inr (0, le16 lo hi)))
             else bindR (byte_at sector_buf (unat offs + 1)) (\<lambda>hi. Inr (0, le16 lo hi)))))"

definition fat12_next_cluster ::
    "read_sectors \<Rightarrow> (nat \<Rightarrow> bool) \<Rightarrow> filesystem_fat12 \<Rightarrow> u16 \<Rightarrow> (int \<times> u16 option) kres" where
  "fat12_next_cluster rd mem fs cluster =
     (if cluster < 2 then Inr (- 1, None)
      else if \<not> kmalloc_ok mem (unat (bps fs)) then Inr (- ENOMEM, None)
      else bindR (entry_bytes rd mem fs ((ucast cluster * 3) div 2)) (\<lambda>(res, entry).
        if res < 0 then Inr (- 1, None)
        else Inr (0, Some (if cluster AND 1 \<noteq> 0 then drop_bit 4 entry else entry AND 0x0FFF))))"

section \<open>The root directory\<close>

definition fat12_read_root_entry ::
    "read_sectors \<Rightarrow> (nat \<Rightarrow> bool) \<Rightarrow> filesystem_fat12 \<Rightarrow> u32 \<Rightarrow> (int \<times> u8 list) kres" where
  "fat12_read_root_entry rd mem fs entry_index =
     (if ucast (root_entry_count (boot_sector fs)) \<le> entry_index then Inr (- 1, [])
      else if bps fs = 0 then Inl Halt
      else if \<not> kmalloc_ok mem (unat (bps fs)) then Inr (- ENOMEM, [])
      else bindR (fat12_drive_read rd mem fs (root_dir_start_lba fs + (entry_index * 32) div bps fs) 1 (unat (bps fs)))
             (\<lambda>(res, buf).
               if res < 0 then Inr (- 1, [])
               else let start = unat ((entry_index * 32) mod bps fs)
                    in if length buf < start + 32 then Inl BadAccess
                       else Inr (0, take 32 (drop start buf))))"

text \<open>The entries that are listed, by index: the scan ends at a free entry, and skips deleted ones and long names.\<close>

fun parse_root_loop ::
    "read_sectors \<Rightarrow> (nat \<Rightarrow> bool) \<Rightarrow> filesystem_fat12 \<Rightarrow> nat \<Rightarrow> u32 \<Rightarrow> (int \<times> (u32 \<times> u8 list) list) kres" where
  "parse_root_loop rd mem fs 0 i = Inr (0, [])"
| "parse_root_loop rd mem fs (Suc left) i =
     bindR (fat12_read_root_entry rd mem fs i) (\<lambda>(res, entry).
       if res < 0 then Inr (- 1, [])
       else if entry ! 0 = 0 then Inr (0, [])
       else if entry ! 0 = 0xE5 \<or> entry ! 11 = FAT_ATTR_LONG_NAME then parse_root_loop rd mem fs left (i + 1)
       else bindR (parse_root_loop rd mem fs left (i + 1)) (\<lambda>(r, es). Inr (r, (i, entry) # es)))"

definition fat12_parse_root ::
    "read_sectors \<Rightarrow> (nat \<Rightarrow> bool) \<Rightarrow> filesystem_fat12 \<Rightarrow> (int \<times> (u32 \<times> u8 list) list) kres" where
  "fat12_parse_root rd mem fs = parse_root_loop rd mem fs (unat (root_entry_count (boot_sector fs))) 0"

section \<open>Reading a file\<close>

record fat12_handle =
  current_cluster :: u64
  cluster_pos :: u64
  cluster_index :: u64
  seek_pos :: u64

text \<open>The variables of the loop.\<close>

record read_state =
  rs_cluster :: u16
  rs_index :: u32
  rs_offset :: u64
  rs_remaining :: u64
  rs_out :: "u8 list"

text \<open>The loop ends with \<open>Inl\<close> of the value returned at once, or with the variables at its end.\<close>

partial_function (option) file_read_loop ::
    "read_sectors \<Rightarrow> (nat \<Rightarrow> bool) \<Rightarrow> filesystem_fat12 \<Rightarrow> u32 \<Rightarrow> read_state \<Rightarrow> (int + read_state) kres option" where
  "file_read_loop rd mem fs bytes_per_cluster s =
     (if rs_remaining s = 0 \<or> FAT12_CLUSTER_EOC \<le> rs_cluster s then Some (Inr (Inr s))
      else case fat12_read_entry rd mem fs (rs_cluster s) (unat bytes_per_cluster) of
        Inl f \<Rightarrow> Some (Inl f)
      | Inr (res, cluster_buf) \<Rightarrow>
          if res < 0 then Some (Inr (Inl (- EIO)))
          else
            let room = ucast bytes_per_cluster - rs_offset s;
                to_copy = (if rs_remaining s < room then rs_remaining s else room);
                start = unat (rs_offset s);
                s1 = s\<lparr>rs_out := rs_out s @ take (unat to_copy) (drop start cluster_buf)\<rparr>
            in if length cluster_buf < start + unat to_copy then Some (Inl BadAccess)
               else if to_copy < room then Some (Inr (Inr (s1\<lparr>rs_offset := rs_offset s + to_copy\<rparr>)))
               else
                 let s2 = s1\<lparr>rs_offset := 0, rs_remaining := rs_remaining s - to_copy\<rparr>
                 in if rs_remaining s2 = 0 then Some (Inr (Inr s2))
                    else (case fat12_next_cluster rd mem fs (rs_cluster s) of
                        Inl f \<Rightarrow> Some (Inl f)
                      | Inr (res2, None) \<Rightarrow> Some (Inr (Inr s2))
                      | Inr (res2, Some next_cluster) \<Rightarrow>
                          if res2 < 0 then Some (Inr (Inr s2))
                          else if FAT12_CLUSTER_EOC \<le> next_cluster
                          then Some (Inr (Inr (s2\<lparr>rs_cluster := FAT12_CLUSTER_EOC, rs_index := rs_index s + 1\<rparr>)))
                          else file_read_loop rd mem fs bytes_per_cluster
                                 (s2\<lparr>rs_cluster := next_cluster, rs_index := rs_index s + 1\<rparr>)))"

text \<open>Whatever was read, the routine returns an error.\<close>

definition fat12_file_read_func ::
    "read_sectors \<Rightarrow> (nat \<Rightarrow> bool) \<Rightarrow> filesystem_fat12 \<Rightarrow> u64 \<Rightarrow> fat12_handle \<Rightarrow> u64 \<Rightarrow> (int \<times> u8 list \<times> fat12_handle) kres option" where
  "fat12_file_read_func rd mem fs start_cluster h len =
     (let bytes_per_cluster = bps fs * spc fs
      in if len = 0 then Some (Inr (- EIO, [], h))
         else if start_cluster < 2 then Some (Inr (- EIO, [], h))
         else if \<not> kmalloc_ok mem (unat bytes_per_cluster) then Some (Inr (- ENOMEM, [], h))
         else map_option (\<lambda>r. bindR r (\<lambda>e.
           case e of
             Inl res \<Rightarrow> Inr (res, [], h)
           | Inr s \<Rightarrow>
               let bytes_read = len - rs_remaining s
               in Inr (- EIO, rs_out s,
                    h\<lparr>current_cluster := ucast (rs_cluster s),
                      cluster_pos := rs_offset s + bytes_read mod ucast bytes_per_cluster,
                      cluster_index := ucast (rs_index s), seek_pos := seek_pos h + bytes_read\<rparr>)))
           (file_read_loop rd mem fs bytes_per_cluster
              \<lparr>rs_cluster = ucast (current_cluster h), rs_index = ucast (cluster_index h), rs_offset = cluster_pos h,
               rs_remaining = len, rs_out = []\<rparr>))"

section \<open>Setting up\<close>

text \<open>The fields that are computed from the boot sector.\<close>

definition fat12_layout :: "filesystem_fat12 \<Rightarrow> filesystem_fat12" where
  "fat12_layout fs =
     (let b = boot_sector fs;
          fsz = ucast (fat_size_16 b) :: u32;
          root_start = ucast (reserved_sector_count b) + ucast (num_fats b) * fsz
      in fs\<lparr>factor := (if bps fs = logical_sector_size fs then 1 else logical_sector_size fs div bps fs),
            total_sectors := all_sectors b, fat_sectors := fsz, root_dir_sectors := root_sectors b,
            fat_start_lba := ucast (reserved_sector_count b), root_dir_start_lba := root_start,
            cluster_heap_start_lba := root_start + root_sectors b, total_clusters := cluster_count b\<rparr>)"

definition fat12_setup ::
    "read_sectors \<Rightarrow> (nat \<Rightarrow> bool) \<Rightarrow> u32 \<Rightarrow> u32 \<Rightarrow> filesystem_fat12 \<Rightarrow> (int \<times> filesystem_fat12) kres" where
  "fat12_setup rd mem sector_size start_lba fs0 =
     (let fs = fs0\<lparr>logical_sector_size := sector_size\<rparr>; b = boot_sector fs
      in if read_status fs AND 1 = 0 then Inr (- 1, fs)
         else if fat_size_16 b = 0 then Inr (- 1, fs)
         else if boot_sector_signature b \<noteq> 0xAA55 then Inr (- 1, fs)
         else if bytes_per_sector b = 0 \<or> sectors_per_cluster b = 0 then Inl Halt
         else
           let fs1 = fat12_layout (fs\<lparr>partition_start_lba := start_lba\<rparr>)
           in if 4085 \<le> total_clusters fs1 then Inr (- 1, fs1)
              else bindR (fat12_parse_root rd mem fs1) (\<lambda>_. Inr (0, fs1)))"

section \<open>What the drive holds\<close>

text \<open>A drive of \<open>n\<close> sectors of \<open>l\<close> bytes that serves every read inside it from its contents.\<close>

definition serves :: "read_sectors \<Rightarrow> (nat \<Rightarrow> u8) \<Rightarrow> nat \<Rightarrow> nat \<Rightarrow> bool" where
  "serves rd img l n \<longleftrightarrow> (\<forall>lba k. 0 < k \<longrightarrow> unat lba + unat k \<le> n \<longrightarrow>
     (\<exists>r. 0 \<le> r \<and> r < 2 ^ 31 \<and> rd lba k = (r, map img [unat lba * l..<(unat lba + unat k) * l])))"

text \<open>The sectors of the drive are made of a whole number of sectors of the file system.\<close>

definition geometry :: "filesystem_fat12 \<Rightarrow> bool" where
  "geometry fs \<longleftrightarrow> bps fs \<noteq> 0 \<and> factor fs \<noteq> 0 \<and> unat (factor fs) * unat (bps fs) = unat (logical_sector_size fs)"

text \<open>Bytes of the partition.\<close>

definition part_bytes :: "(nat \<Rightarrow> u8) \<Rightarrow> filesystem_fat12 \<Rightarrow> nat \<Rightarrow> nat \<Rightarrow> u8 list" where
  "part_bytes img fs a n = map (\<lambda>j. img (unat (partition_start_lba fs) * unat (logical_sector_size fs) + j)) [a..<a + n]"

text \<open>A run of sectors of the file system that lies on the drive.\<close>

definition on_drive :: "filesystem_fat12 \<Rightarrow> nat \<Rightarrow> nat \<Rightarrow> nat \<Rightarrow> bool" where
  "on_drive fs n s k \<longleftrightarrow> n \<le> 2 ^ 32 \<and> s + k < 2 ^ 32 \<and> unat (partition_start_lba fs) * unat (factor fs) + s + k \<le> n * unat (factor fs)"

lemma part_bytes_append: "part_bytes img fs a m @ part_bytes img fs (a + m) n = part_bytes img fs a (m + n)"
  unfolding part_bytes_def map_append [symmetric] using upt_add_eq_append [of a "a + m" n]
  by (simp add: add.assoc del: map_append)

lemma slice_upt:
  "a + k \<le> l \<Longrightarrow> take k (drop a (map img [s..<s + l])) = map (\<lambda>j. img (s + a + j)) [0..<k]"
  by (rule nth_equalityI) (auto simp: drop_map take_map)

lemma part_bytes_shift:
  "part_bytes img fs a n = map (\<lambda>j. img (unat (partition_start_lba fs) * unat (logical_sector_size fs) + a + j)) [0..<n]"
  by (rule nth_equalityI) (auto simp: part_bytes_def add.assoc)

lemma c_int_small: "0 \<le> r \<Longrightarrow> r < 2 ^ 31 \<Longrightarrow> c_int r = r"
  by (simp add: c_int_def signed_of_int signed_take_bit_int_eq_self)

lemma sector_index:
  fixes p c k f n :: nat
  assumes "p * f + c + k \<le> n * f" "0 < k" "0 < f"
  shows "p + c div f < n"
proof (rule ccontr)
  assume "\<not> p + c div f < n"
  then have "n * f \<le> (p + c div f) * f" by simp
  also have "\<dots> \<le> p * f + c" by (simp add: add_mult_distrib)
  finally show False using assms by simp
qed

lemma drive_read_loop_law:
  assumes g: "geometry fs" and d: "serves rd img (unat (logical_sector_size fs)) n"
  shows "on_drive fs n (unat cur) (unat rem) \<Longrightarrow> length out + unat rem * unat (bps fs) \<le> cap \<Longrightarrow>
    drive_read_loop rd fs cur rem cap out = Inr (0, out @ part_bytes img fs (unat cur * unat (bps fs)) (unat rem * unat (bps fs)))"
proof (induction "unat rem" arbitrary: cur rem out rule: less_induct)
  case less
  let ?f = "unat (factor fs)" and ?b = "unat (bps fs)" and ?l = "unat (logical_sector_size fs)"
    and ?p = "unat (partition_start_lba fs)" and ?c = "unat cur"
  have fb: "?f * ?b = ?l" "0 < ?f" "0 < ?b" using g by (auto simp: geometry_def unat_gt_0)
  show ?case
  proof (cases "rem = 0")
    case True
    then show ?thesis by (subst drive_read_loop.simps) (simp add: part_bytes_def)
  next
    case False
    let ?o = "cur mod factor fs"
    define k where "k = (if rem < factor fs - ?o then rem else factor fs - ?o)"
    have o: "unat ?o = ?c mod ?f" "?o \<le> factor fs" "unat (cur div factor fs) = ?c div ?f"
      using fb(2) by (simp_all add: unat_mod unat_div word_le_nat_alt less_imp_le)
    have ku: "unat k = min (unat rem) (?f - ?c mod ?f)" using o by (auto simp: k_def word_less_nat_alt unat_sub)
    have lt: "?c mod ?f < ?f" using fb(2) by (rule mod_less_divisor)
    have "?c mod ?f + unat k \<le> ?c mod ?f + (?f - ?c mod ?f)" unfolding ku by simp
    then have kb: "unat k \<le> unat rem" "?c mod ?f + unat k \<le> ?f" "0 < unat k"
      using False lt by (simp_all add: ku unat_gt_0)
    have idx: "?p + ?c div ?f < n" by (rule sector_index [where k = "unat rem"])
        (use less.prems(1) False fb(2) in \<open>auto simp: on_drive_def unat_gt_0\<close>)
    then have lba: "unat (ucast (partition_start_lba fs + cur div factor fs) :: u64) = ?p + ?c div ?f"
      using less.prems(1) o(3) by (simp add: on_drive_def unat_word_ariths unsigned_ucast_eq take_bit_nat_eq_self)
    obtain r where r: "0 \<le> r" "r < 2 ^ 31" "rd (ucast (partition_start_lba fs + cur div factor fs)) 1 =
        (r, map img [(?p + ?c div ?f) * ?l..<(?p + ?c div ?f + 1) * ?l])"
      using d [unfolded serves_def, rule_format, of 1 "ucast (partition_start_lba fs + cur div factor fs)"] idx lba by auto
    have l32: "?l < 2 ^ 32" using unsigned_less [of "logical_sector_size fs"] by simp
    have "(?c mod ?f + unat k) * ?b \<le> ?f * ?b" using kb(2) by (rule mult_le_mono1)
    then have sl: "?c mod ?f * ?b + unat k * ?b \<le> ?l" by (simp add: fb(1) add_mult_distrib)
    have u: "unat (?o * bps fs) = ?c mod ?f * ?b" "unat (k * bps fs) = unat k * ?b"
      using unat_mult_lem [of ?o "bps fs"] unat_mult_lem [of k "bps fs"] sl l32 unfolding o(1) by simp_all
    have step: "unat (cur + k) = ?c + unat k" "unat (rem - k) = unat rem - unat k"
      using less.prems(1) kb(1) by (simp_all add: on_drive_def unat_word_ariths unat_sub word_le_nat_alt)
    have sh: "(?p + ?c div ?f) * ?l + ?c mod ?f * ?b = ?p * ?l + ?c * ?b"
      by (metis add.assoc add_mult_distrib div_mult_mod_eq fb(1) mult.assoc)
    have "(?p + ?c div ?f + 1) * ?l = (?p + ?c div ?f) * ?l + ?l" by simp
    then have tk: "take (unat k * ?b) (drop (?c mod ?f * ?b) (map img [(?p + ?c div ?f) * ?l..<(?p + ?c div ?f + 1) * ?l])) =
        part_bytes img fs (?c * ?b) (unat k * ?b)"
      using slice_upt [OF sl, of img "(?p + ?c div ?f) * ?l"] by (simp only: part_bytes_shift sh)
    define tmp where "tmp = map img [(?p + ?c div ?f) * ?l..<(?p + ?c div ?f + 1) * ?l]"
    have tmp: "rd (ucast (partition_start_lba fs + cur div factor fs)) 1 = (r, tmp)" "length tmp = ?l"
      "take (unat k * ?b) (drop (?c mod ?f * ?b) tmp) = part_bytes img fs (?c * ?b) (unat k * ?b)"
      using r(3) tk by (simp_all only: tmp_def length_map length_upt) simp
    have mono: "unat k * ?b \<le> unat rem * ?b" using kb(1) by simp
    then have room: "\<not> cap < length out + unat k * ?b" using less.prems(2) by linarith
    have "drive_read_loop rd fs cur rem cap out =
        drive_read_loop rd fs (cur + k) (rem - k) cap (out @ part_bytes img fs (?c * ?b) (unat k * ?b))"
      using False g sl room r(1) c_int_small [OF r(1,2)]
      by (subst drive_read_loop.simps) (simp add: geometry_def Let_def k_def [symmetric] u tmp)
    moreover have "drive_read_loop rd fs (cur + k) (rem - k) cap (out @ part_bytes img fs (?c * ?b) (unat k * ?b)) =
        Inr (0, (out @ part_bytes img fs (?c * ?b) (unat k * ?b)) @ part_bytes img fs (unat (cur + k) * ?b) (unat (rem - k) * ?b))"
      by (rule less.hyps) (use kb less.prems step mono in \<open>auto simp: on_drive_def part_bytes_def diff_mult_distrib\<close>)
    moreover have "unat k * ?b + (unat rem - unat k) * ?b = unat rem * ?b" using mono by (simp add: diff_mult_distrib)
    ultimately show ?thesis using part_bytes_append [of img fs "?c * ?b" "unat k * ?b" "(unat rem - unat k) * ?b"]
      by (simp add: step add_mult_distrib)
  qed
qed

lemma unat_up: "unat (ucast (k :: u32) :: u64) = unat k"
proof -
  have "unat k < 2 ^ 32" using unsigned_less [of k] by simp
  then have "unat k < 2 ^ 64" by simp
  then have "take_bit 64 (unat k) = unat k" by (rule take_bit_nat_eq_self)
  then show ?thesis by (simp add: unsigned_ucast_eq)
qed

lemma drive_read_law:
  assumes "geometry fs" "serves rd img (unat (logical_sector_size fs)) n" "on_drive fs n (unat s) (unat k)" "k \<noteq> 0"
    "kmalloc_ok mem (unat (logical_sector_size fs))" "unat k * unat (bps fs) \<le> cap"
  shows "\<exists>r\<ge>0. fat12_drive_read rd mem fs s k cap = Inr (r, part_bytes img fs (unat s * unat (bps fs)) (unat k * unat (bps fs)))"
proof (cases "factor fs = 1")
  case True
  let ?p = "unat (partition_start_lba fs)" and ?l = "unat (logical_sector_size fs)"
  have l: "unat (bps fs) = ?l" using assms(1) True by (simp add: geometry_def)
  have b: "?p + unat s + unat k \<le> n" "n \<le> 2 ^ 32" using assms(3) True by (simp_all add: on_drive_def)
  then have lba: "unat (ucast (partition_start_lba fs + s) :: u64) = ?p + unat s"
    using assms(4) by (simp add: unat_word_ariths unsigned_ucast_eq take_bit_nat_eq_self unat_gt_0 [symmetric])
  have k: "unat (ucast k :: u64) = unat k" "(0::u64) < ucast k"
    using assms(4) by (simp_all add: unat_up word_less_nat_alt unat_gt_0)
  obtain r where r: "0 \<le> r" "r < 2 ^ 31" "rd (ucast (partition_start_lba fs + s)) (ucast k) =
      (r, map img [(?p + unat s) * ?l..<(?p + unat s + unat k) * ?l])"
    using assms(2) [unfolded serves_def, rule_format, OF k(2), of "ucast (partition_start_lba fs + s)"] b(1) lba k(1) by auto
  have "map img [(?p + unat s) * ?l..<(?p + unat s + unat k) * ?l] = part_bytes img fs (unat s * ?l) (unat k * ?l)"
    by (rule nth_equalityI) (auto simp: part_bytes_def add_mult_distrib add.assoc)
  then show ?thesis using True assms(4,6) r c_int_small [OF r(1,2)] by (auto simp: fat12_drive_read_def l part_bytes_def)
next
  case False
  then show ?thesis using drive_read_loop_law [OF assms(1,2,3), of "[]" cap] assms(4-6) by (simp add: fat12_drive_read_def)
qed

section \<open>Entries of the table\<close>

text \<open>How 12-bit entries are laid out in bytes: two entries in three bytes.\<close>

definition fat_byte :: "(nat \<Rightarrow> nat) \<Rightarrow> nat \<Rightarrow> nat" where
  "fat_byte e j =
     (let i = 2 * (j div 3)
      in if j mod 3 = 0 then e i mod 256
         else if j mod 3 = 1 then e i div 256 + 16 * (e (i + 1) mod 16)
         else e (i + 1) div 16)"

lemma unat_le16: "unat (le16 lo hi) = unat lo + 256 * unat hi"
proof -
  have lo: "unat lo < 256" and hi: "unat hi < 256" using unsigned_less [of lo] unsigned_less [of hi] by simp_all
  have ulo: "unat (ucast lo :: u16) = unat lo" "unat (ucast hi :: u16) = unat hi"
    using lo hi by (simp_all add: unsigned_ucast_eq take_bit_nat_eq_self)
  have "le16 lo hi = ucast lo + push_bit 8 (ucast hi)"
    unfolding le16_def by (rule disjunctive_add [symmetric]) (auto simp: bit_push_bit_iff bit_ucast_iff dest: bit_imp_le_length)
  moreover have "unat (push_bit 8 (ucast hi :: u16)) = 256 * unat hi"
    using hi by (simp add: push_bit_eq_mult unat_word_ariths ulo)
  ultimately show ?thesis using lo hi by (simp add: unat_word_ariths ulo)
qed

lemma fat_byte_pairs:
  assumes "e (2 * i) < 4096" "e (2 * i + 1) < 4096"
  shows "fat_byte e (3 * i) + 256 * (fat_byte e (3 * i + 1) mod 16) = e (2 * i)"
    and "fat_byte e (3 * i + 1) div 16 + 16 * fat_byte e (3 * i + 2) = e (2 * i + 1)"
proof -
  have m: "3 * i mod 3 = 0" "(3 * i + 1) mod 3 = 1" "(3 * i + 2) mod 3 = 2" "3 * i div 3 = i" "(3 * i + 1) div 3 = i" "(3 * i + 2) div 3 = i"
    by presburger+
  have d: "e (2 * i) div 256 < 16" using assms(1) by (simp add: less_mult_imp_div_less)
  show "fat_byte e (3 * i) + 256 * (fat_byte e (3 * i + 1) mod 16) = e (2 * i)"
    using d mod_mult_div_eq [of "e (2 * i)" 256] unfolding fat_byte_def m Let_def by simp
  show "fat_byte e (3 * i + 1) div 16 + 16 * fat_byte e (3 * i + 2) = e (2 * i + 1)"
    using d mod_mult_div_eq [of "e (2 * i + 1)" 16] unfolding fat_byte_def m Let_def by simp
qed

lemma entry_value:
  assumes "\<forall>i. e i < 4096" "unat lo = fat_byte e (3 * unat c div 2)" "unat hi = fat_byte e (3 * unat c div 2 + 1)"
  shows "unat (if c AND 1 \<noteq> 0 then drop_bit 4 (le16 lo hi) else le16 lo hi AND 0x0FFF) = e (unat (c :: u16))"
proof -
  have lo: "unat lo < 256" using unsigned_less [of lo] by simp
  have par: "unat (c AND 1) = unat c mod 2" by (simp add: and_one_eq unat_mod)
  show ?thesis
proof (cases "even (unat c)")
  case True
  then obtain i where i: "unat c = 2 * i" by blast
  have "c AND 1 = 0" using True par by (simp add: even_iff_mod_2_eq_zero unat_eq_0)
  moreover have "le16 lo hi AND 0x0FFF = take_bit 12 (le16 lo hi)" by (simp add: take_bit_eq_mask mask_eq_exp_minus_1)
  moreover have "(unat lo + 256 * unat hi) mod 4096 = unat lo + 256 * (unat hi mod 16)"
    using lo mod_mult2_eq [of "unat lo + 256 * unat hi" 256 16] by simp
  ultimately show ?thesis using fat_byte_pairs(1) [of e i] assms i
    by (simp add: take_bit_eq_mod unat_mod unat_le16)
next
  case False
  then obtain i where i: "unat c = 2 * i + 1" by (metis oddE)
  have "c AND 1 \<noteq> 0" using False par by (auto simp: odd_iff_mod_2_eq_one)
  moreover have "3 * unat c div 2 = 3 * i + 1" using i by simp
  moreover have "(unat lo + 256 * unat hi) div 16 = unat lo div 16 + 16 * unat hi" by simp
  ultimately show ?thesis using fat_byte_pairs(2) [of e i] assms i
    by (simp add: drop_bit_eq_div unat_div unat_le16)
qed
qed

lemma entry_bytes_law:
  assumes g: "geometry fs" and d: "serves rd img (unat (logical_sector_size fs)) n"
    and od: "on_drive fs n (unat (fat_start_lba fs) + unat off div unat (bps fs)) 2"
    and mem: "kmalloc_ok mem (unat (logical_sector_size fs))"
  shows "\<exists>lo hi. entry_bytes rd mem fs off = Inr (0, le16 lo hi) \<and>
    [lo, hi] = part_bytes img fs (unat (fat_start_lba fs) * unat (bps fs) + unat off) 2"
proof -
  let ?b = "unat (bps fs)" and ?s = "fat_start_lba fs + off div bps fs"
  let ?at = "\<lambda>j. img (unat (partition_start_lba fs) * unat (logical_sector_size fs) + j)"
  have b: "0 < ?b" using g by (simp add: geometry_def unat_gt_0)
  have s: "unat ?s = unat (fat_start_lba fs) + unat off div ?b" "unat (?s + 1) = unat ?s + 1"
    using od by (simp_all add: on_drive_def unat_word_ariths unat_div)
  have o: "unat (off mod bps fs) = unat off mod ?b" by (rule unat_mod)
  have base: "unat ?s * ?b + unat off mod ?b = unat (fat_start_lba fs) * ?b + unat off"
    unfolding s(1) by (simp add: add_mult_distrib add.assoc)
  have ods: "on_drive fs n (unat ?s) (unat (1 :: u32))" "on_drive fs n (unat (?s + 1)) (unat (1 :: u32))"
    using od s by (simp_all add: on_drive_def)
  obtain r1 where r1: "0 \<le> r1" "fat12_drive_read rd mem fs ?s 1 ?b = Inr (r1, part_bytes img fs (unat ?s * ?b) ?b)"
    using drive_read_law [OF g d ods(1) _ mem, of ?b] by auto
  obtain r2 where r2: "0 \<le> r2" "fat12_drive_read rd mem fs (?s + 1) 1 ?b = Inr (r2, part_bytes img fs (unat (?s + 1) * ?b) ?b)"
    using drive_read_law [OF g d ods(2) _ mem, of ?b] by auto
  have at: "byte_at (part_bytes img fs a ?b) i = Inr (?at (a + i))" if "i < ?b" for a i
    using that by (simp add: byte_at_def part_bytes_def)
  have lt: "unat off mod ?b < ?b" using b by simp
  have last: "off mod bps fs = bps fs - 1 \<longleftrightarrow> unat off mod ?b = ?b - 1"
    using b by (simp add: word_unat_eq_iff o unat_sub word_le_nat_alt Suc_le_eq)
  have pb: "part_bytes img fs a 2 = [?at a, ?at (a + 1)]" for a
    by (simp add: part_bytes_def upt_conv_Cons)
  have lo: "byte_at (part_bytes img fs (unat ?s * ?b) ?b) (unat (off mod bps fs)) = Inr (?at (unat (fat_start_lba fs) * ?b + unat off))"
    using at [OF lt, of "unat ?s * ?b"] unfolding o base .
  show ?thesis
  proof (cases "unat off mod ?b = ?b - 1")
    case True
    have "unat (?s + 1) * ?b = unat (fat_start_lba fs) * ?b + unat off + 1" using True base b s(2) by simp
    then have hi: "byte_at (part_bytes img fs (unat (?s + 1) * ?b) ?b) 0 = Inr (?at (unat (fat_start_lba fs) * ?b + unat off + 1))"
      using at [OF b, of "unat (?s + 1) * ?b"] by simp
    have "(off mod bps fs = bps fs - 1) = True" "(r1 < 0) = False" "(r2 < 0) = False" using r1(1) r2(1) last True by simp_all
    then have "entry_bytes rd mem fs off = Inr (0, le16 (?at (unat (fat_start_lba fs) * ?b + unat off)) (?at (unat (fat_start_lba fs) * ?b + unat off + 1)))"
      unfolding entry_bytes_def Let_def by (simp only: r1(2) r2(2) bindR_simps split_conv lo hi if_True if_False)
    then show ?thesis unfolding pb by blast
  next
    case False
    have "byte_at (part_bytes img fs (unat ?s * ?b) ?b) (unat off mod ?b + 1) = Inr (?at (unat ?s * ?b + (unat off mod ?b + 1)))"
      using lt False by (intro at) simp
    then have hi: "byte_at (part_bytes img fs (unat ?s * ?b) ?b) (unat (off mod bps fs) + 1) =
        Inr (?at (unat (fat_start_lba fs) * ?b + unat off + 1))"
      unfolding o base [symmetric] by (simp only: add.assoc)
    have "(off mod bps fs = bps fs - 1) = False" "(r1 < 0) = False" using r1(1) last False by simp_all
    then have "entry_bytes rd mem fs off = Inr (0, le16 (?at (unat (fat_start_lba fs) * ?b + unat off)) (?at (unat (fat_start_lba fs) * ?b + unat off + 1)))"
      unfolding entry_bytes_def Let_def by (simp only: r1(2) bindR_simps split_conv lo hi if_False)
    then show ?thesis unfolding pb by blast
  qed
qed

section \<open>Setting up a volume\<close>

text \<open>Setting up gives the geometry that reading needs, and counts clusters the way the detection does.\<close>

lemma layout_geometry:
  assumes "bps fs \<noteq> 0" "logical_sector_size fs \<noteq> 0" "unat (bps fs) dvd unat (logical_sector_size fs)"
  shows "geometry (fat12_layout fs)"
proof -
  have fields: "bps (fat12_layout fs) = bps fs" "logical_sector_size (fat12_layout fs) = logical_sector_size fs"
    "factor (fat12_layout fs) = (if bps fs = logical_sector_size fs then 1 else logical_sector_size fs div bps fs)"
    by (simp_all add: fat12_layout_def Let_def bps_def)
  have m: "unat (logical_sector_size fs div bps fs) * unat (bps fs) = unat (logical_sector_size fs)"
    using assms(3) by (simp add: unat_div)
  then have "logical_sector_size fs div bps fs \<noteq> 0" using assms(2) by (metis mult_zero_left unat_0 unat_eq_zero)
  then show ?thesis using assms(1) m by (simp add: geometry_def fields)
qed

lemma setup_accepts_detected:
  assumes "read_status fs AND 1 \<noteq> 0" "boot_sector_signature (boot_sector fs) = 0xAA55"
    "fat_detect_type (boot_sector fs) = Inr FAT_TYPE_12" "fat12_setup rd mem l start fs = Inr (res, fs')"
  shows "res = 0 \<and> total_clusters fs' < 4085"
proof -
  have d: "fat_size_16 (boot_sector fs) \<noteq> 0" "bytes_per_sector (boot_sector fs) \<noteq> 0" "sectors_per_cluster (boot_sector fs) \<noteq> 0"
    "cluster_count (boot_sector fs) < 4085"
    using assms(3) by (auto simp: fat_detect_type_def split: if_splits)
  let ?fs = "fat12_layout (fs\<lparr>logical_sector_size := l, partition_start_lba := start\<rparr>)"
  have t: "total_clusters ?fs = cluster_count (boot_sector fs)" by (simp add: fat12_layout_def Let_def)
  have "bindR (fat12_parse_root rd mem ?fs) (\<lambda>_. Inr (0, ?fs)) = Inr (res, fs')"
    using assms(1,2,4) d(1-3) t d(4) [unfolded not_le [symmetric]] by (simp add: fat12_setup_def Let_def del: not_le)
  then show ?thesis using d(4) t by (auto simp: bindR_eq_Inr)
qed

text \<open>On a drive whose sectors are smaller than those of the volume the factor is 0, and the first read divides by it.\<close>

lemma small_sectors_halt:
  assumes "logical_sector_size fs < bps fs" "k \<noteq> 0" "kmalloc_ok mem (unat (logical_sector_size fs))"
  shows "fat12_drive_read rd mem (fat12_layout fs) s k cap = Inl Halt"
proof -
  have "logical_sector_size fs div bps fs = 0" using assms(1) by (simp add: word_arith_nat_div word_less_nat_alt)
  then have "factor (fat12_layout fs) = 0" "logical_sector_size (fat12_layout fs) = logical_sector_size fs"
    using assms(1) by (auto simp: fat12_layout_def Let_def)
  then show ?thesis using assms(2,3) by (simp add: fat12_drive_read_def drive_read_loop.simps)
qed

section \<open>Properties\<close>

text \<open>C31. Reading sectors of a FAT12 volume. When the sectors of the drive are a whole number of the sectors of the
  volume, reading any run of sectors that lies on the drive gives exactly the bytes of the partition at that
  place, however the run cuts the sectors of the drive, and no buffer is left.\<close>

theorem fat12_drive_read_slice:
  assumes "geometry fs" "serves rd img (unat (logical_sector_size fs)) n" "on_drive fs n (unat s) (unat k)" "k \<noteq> 0"
    "kmalloc_ok mem (unat (logical_sector_size fs))" "unat k * unat (bps fs) \<le> cap"
  shows "\<exists>r\<ge>0. fat12_drive_read rd mem fs s k cap = Inr (r, part_bytes img fs (unat s * unat (bps fs)) (unat k * unat (bps fs)))"
  using assms by (rule drive_read_law)

definition demo_image :: "nat \<Rightarrow> u8" where
  "demo_image j = (if 8 \<le> j \<and> j < 14 then of_nat (fat_byte (\<lambda>i. [0xFF8, 0xFFF, 3, 0xFF8] ! i) (j - 8)) else 0)"

definition demo_drive :: read_sectors where
  "demo_drive lba k = (0, map demo_image [unat lba * 8..<(unat lba + unat k) * 8])"

definition demo_fs :: filesystem_fat12 where
  "demo_fs = \<lparr>boot_sector = \<lparr>bytes_per_sector = 4, sectors_per_cluster = 1, reserved_sector_count = 0, num_fats = 1,
       root_entry_count = 0, total_sectors_16 = 8, fat_size_16 = 2, total_sectors_32 = 0, boot_sector_signature = 0xAA55\<rparr>,
     read_status = 1, logical_sector_size = 8, partition_start_lba = 1, factor = 2, fat_start_lba = 0, cluster_heap_start_lba = 2,
     root_dir_start_lba = 2, fat_sectors = 2, root_dir_sectors = 0, total_sectors = 8, total_clusters = 6\<rparr>"

lemma demo_drive_ok:
  "geometry demo_fs" "serves demo_drive demo_image (unat (logical_sector_size demo_fs)) 5" "bps demo_fs = 4"
  by (simp_all add: geometry_def serves_def demo_drive_def demo_fs_def bps_def)

theorem fat12_drive_read_slice_witness:
  "\<exists>r\<ge>0. fat12_drive_read demo_drive (\<lambda>_. True) demo_fs 1 2 8 = Inr (r, part_bytes demo_image demo_fs 4 8)"
  using fat12_drive_read_slice [OF demo_drive_ok(1,2), of 1 2 "\<lambda>_. True" 8] demo_drive_ok(3)
  by (simp add: on_drive_def kmalloc_ok_def demo_fs_def)

text \<open>C30. Following the chain of a file. When the allocation table on the drive is the 12-bit encoding of a table of
  entries, two entries in three bytes, the next cluster of every cluster is its entry: for even and odd clusters, and
  also where the two bytes of an entry lie in different sectors of the volume or of the drive.\<close>

theorem fat12_next_cluster_decodes:
  assumes "geometry fs" "serves rd img (unat (logical_sector_size fs)) n" "2 \<le> c"
    "kmalloc_ok mem (unat (logical_sector_size fs))" "kmalloc_ok mem (unat (bps fs))" "\<forall>i. e i < 4096"
    "on_drive fs n (unat (fat_start_lba fs) + 3 * unat c div 2 div unat (bps fs)) 2"
    "map unat (part_bytes img fs (unat (fat_start_lba fs) * unat (bps fs) + 3 * unat c div 2) 2) =
       [fat_byte e (3 * unat c div 2), fat_byte e (3 * unat c div 2 + 1)]"
  shows "fat12_next_cluster rd mem fs c = Inr (0, Some (of_nat (e (unat c))))"
proof -
  have c: "unat c < 65536" using unsigned_less [of c] by simp
  then have uc: "unat (ucast c :: u32) = unat c" by (simp add: unsigned_ucast_eq take_bit_nat_eq_self)
  have off: "unat ((ucast c * 3) div 2 :: u32) = 3 * unat c div 2"
    using c by (simp add: unat_div unat_word_ariths uc mult.commute)
  obtain lo hi where lh: "entry_bytes rd mem fs ((ucast c * 3) div 2) = Inr (0, le16 lo hi)"
    "[lo, hi] = part_bytes img fs (unat (fat_start_lba fs) * unat (bps fs) + 3 * unat c div 2) 2"
    using entry_bytes_law [OF assms(1,2) _ assms(4), of "(ucast c * 3) div 2"] assms(7) unfolding off by auto
  have "unat lo = fat_byte e (3 * unat c div 2)" "unat hi = fat_byte e (3 * unat c div 2 + 1)"
    using assms(8) unfolding lh(2) [symmetric] by simp_all
  note v = entry_value [OF assms(6) this]
  have "(if c AND 1 \<noteq> 0 then drop_bit 4 (le16 lo hi) else le16 lo hi AND 0x0FFF) = of_nat (e (unat c))"
    unfolding v [symmetric] by simp
  moreover have "(c < 2) = False" "(\<not> kmalloc_ok mem (unat (bps fs))) = False" "((0::int) < 0) = False" using assms(3,5) by simp_all
  ultimately show ?thesis unfolding fat12_next_cluster_def by (simp only: lh(1) bindR_simps split_conv if_False)
qed

theorem fat12_next_cluster_decodes_witness:
  "fat12_next_cluster demo_drive (\<lambda>_. True) demo_fs 2 = Inr (0, Some 3)"
proof -
  let ?e = "\<lambda>i. if i < 4 then [0xFF8, 0xFFF, 3, 0xFF8] ! i else 0 :: nat"
  have e: "\<forall>i. ?e i < 4096" by (simp add: nth_Cons')
  have "map unat (part_bytes demo_image demo_fs 3 2) = [fat_byte ?e 3, fat_byte ?e 4]"
    by (simp add: part_bytes_def upt_conv_Cons demo_image_def demo_fs_def fat_byte_def Let_def)
  then show ?thesis using fat12_next_cluster_decodes [OF demo_drive_ok(1,2), of 2 "\<lambda>_. True" ?e] e demo_drive_ok(3)
    by (simp add: on_drive_def kmalloc_ok_def demo_fs_def)
qed

end
