(* ===== verification/Sched.thy ===== *)
theory Sched
  imports Prelude
begin

unbundle bit_operations_syntax

text \<open>
  The scheduler of \<^verbatim>\<open>src/proc/scheduler.c\<close>: the list of ready threads, the ring of kernel tasks, and one pass of the
  loop that every core runs. Threads live in a store and are linked through their own \<^verbatim>\<open>next\<close> field. A routine
  is one step, because the list and the ring are only touched with their lock held. A pass ends when it hands the core
  to a task or a thread, assigns a thread or halts. The lemmas show that the threads and the tasks are first-in
  first-out queues, which is what \<open>queues\<close> says.
\<close>

section \<open>State\<close>

datatype proc_thread_state = READY | ASLEEP | RUNNING | DEAD

record thread =
  state :: proc_thread_state
  nextt :: u64

record cpu_core_data =
  status :: u8
  lapic_id :: u32
  online :: bool

type_synonym kernel_task = "u64 \<times> u64"

record sched =
  threads :: "u64 \<Rightarrow> thread option"
  ready_threads :: u64
  ready_threads_last :: u64
  cores_threads :: "u64 list"
  cpu_cores :: "cpu_core_data list"
  ready_kernel_tasks :: "kernel_task list"
  ready_kernel_tasks_head :: nat
  ready_kernel_tasks_tail :: nat

definition MAX_KERNEL_TASKS :: nat where "MAX_KERNEL_TASKS = 8192"

section \<open>Ready threads\<close>

text \<open>The cores that are sent the wake-up interrupt, by the identifier of their local APIC.\<close>

definition send_wakeup_ipi :: "nat \<Rightarrow> nat \<Rightarrow> sched \<Rightarrow> u32 list kres" where
  "send_wakeup_ipi n_cores curr_core s =
     (if length (cpu_cores s) < n_cores then Inl BadAccess
      else Inr (map (\<lambda>i. lapic_id (cpu_cores s ! i)) (filter (\<lambda>i. online (cpu_cores s ! i) \<and> i \<noteq> curr_core) [0..<n_cores])))"

partial_function (option) unready_loop :: "u64 \<Rightarrow> u64 \<Rightarrow> (u64 \<Rightarrow> thread option) \<Rightarrow> (u64 \<Rightarrow> thread option) kres option" where
  "unready_loop thread cur h =
     (case h cur of None \<Rightarrow> Some (Inl BadAccess) | Some c \<Rightarrow>
        if nextt c = 0 then Some (Inr h)
        else if nextt c = thread then
          (case h thread of None \<Rightarrow> Some (Inl BadAccess) | Some t \<Rightarrow> Some (Inr (h(cur \<mapsto> c\<lparr>nextt := nextt t\<rparr>))))
        else unready_loop thread (nextt c) h)"

definition thread_unready_nolock :: "u64 \<Rightarrow> sched \<Rightarrow> sched kres option" where
  "thread_unready_nolock thread s =
     (if ready_threads s = 0 then Some (Inr s)
      else case threads s thread of None \<Rightarrow> Some (Inl BadAccess) | Some t \<Rightarrow>
        let h = (threads s)(thread \<mapsto> t\<lparr>state := ASLEEP\<rparr>)
        in if ready_threads s = thread then
             Some (Inr (s\<lparr>threads := h, ready_threads := nextt t,
                          ready_threads_last := if nextt t = 0 then 0 else ready_threads_last s\<rparr>))
           else map_option (\<lambda>r. bindR r (\<lambda>h1. Inr (s\<lparr>threads := h1\<rparr>))) (unready_loop thread (ready_threads s) h))"

definition thread_unready :: "u64 \<Rightarrow> sched \<Rightarrow> sched kres option" where
  "thread_unready thread s = thread_unready_nolock thread s"

definition link_ready :: "u64 \<Rightarrow> sched \<Rightarrow> sched kres" where
  "link_ready thread s =
     (case threads s thread of None \<Rightarrow> Inl BadAccess | Some t \<Rightarrow>
        let h = (threads s)(thread \<mapsto> t\<lparr>state := READY\<rparr>)
        in if ready_threads s = 0 then Inr (s\<lparr>threads := h, ready_threads := thread, ready_threads_last := thread\<rparr>)
           else (case h (ready_threads_last s) of None \<Rightarrow> Inl BadAccess | Some l \<Rightarrow>
             Inr (s\<lparr>threads := h(ready_threads_last s \<mapsto> l\<lparr>nextt := thread\<rparr>), ready_threads_last := thread\<rparr>)))"

definition thread_ready :: "nat \<Rightarrow> nat \<Rightarrow> u64 \<Rightarrow> sched \<Rightarrow> (u32 list \<times> sched) kres" where
  "thread_ready n_cores curr_core thread s =
     bindR (link_ready thread s) (\<lambda>s1. bindR (send_wakeup_ipi n_cores curr_core s1) (\<lambda>ipis. Inr (ipis, s1)))"

section \<open>Kernel tasks\<close>

definition delegate_kernel_task :: "nat \<Rightarrow> nat \<Rightarrow> kernel_task \<Rightarrow> sched \<Rightarrow> (int \<times> u32 list \<times> sched) kres" where
  "delegate_kernel_task n_cores curr_core task s =
     (let next_head = (ready_kernel_tasks_head s + 1) mod MAX_KERNEL_TASKS
      in bindR (if next_head = ready_kernel_tasks_tail s then Inr (- 1, s)
                else if length (ready_kernel_tasks s) \<le> ready_kernel_tasks_head s then Inl BadAccess
                else Inr (0, s\<lparr>ready_kernel_tasks := (ready_kernel_tasks s)[ready_kernel_tasks_head s := task],
                               ready_kernel_tasks_head := next_head\<rparr>)) (\<lambda>(res, s1).
         bindR (send_wakeup_ipi n_cores curr_core s1) (\<lambda>ipis. Inr (res, ipis, s1))))"

section \<open>A pass of the loop of a core\<close>

text \<open>The switch to a thread does not return, so the lines after it are never reached.\<close>

datatype action = Run_Task kernel_task | Switch_To u64 | Assigned u64 | Idle

definition scheduler_pass :: "nat \<Rightarrow> sched \<Rightarrow> (action \<times> sched) kres option" where
  "scheduler_pass curr_core s =
     (if ready_kernel_tasks_head s \<noteq> ready_kernel_tasks_tail s then
        Some (if length (ready_kernel_tasks s) \<le> ready_kernel_tasks_tail s then Inl BadAccess
              else Inr (Run_Task (ready_kernel_tasks s ! ready_kernel_tasks_tail s),
                        s\<lparr>ready_kernel_tasks_tail := (ready_kernel_tasks_tail s + 1) mod MAX_KERNEL_TASKS\<rparr>))
      else if length (cores_threads s) \<le> curr_core \<or> length (cpu_cores s) \<le> curr_core then Some (Inl BadAccess)
      else if cores_threads s ! curr_core \<noteq> 0 then
        (case threads s (cores_threads s ! curr_core) of None \<Rightarrow> Some (Inl BadAccess) | Some t \<Rightarrow>
           Some (Inr (Switch_To (cores_threads s ! curr_core),
             s\<lparr>threads := (threads s)(cores_threads s ! curr_core \<mapsto> t\<lparr>state := RUNNING\<rparr>),
               cpu_cores := (cpu_cores s)[curr_core := (cpu_cores s ! curr_core)\<lparr>status := status (cpu_cores s ! curr_core) OR 1\<rparr>]\<rparr>)))
      else if ready_threads s \<noteq> 0 then
        map_option (\<lambda>r. bindR r (\<lambda>s1. Inr (Assigned (ready_threads s), s1)))
          (thread_unready_nolock (ready_threads s) (s\<lparr>cores_threads := (cores_threads s)[curr_core := ready_threads s]\<rparr>))
      else Some (Inr (Idle, s)))"

section \<open>What the scheduler promises\<close>

record queues =
  q_tasks :: "kernel_task list"
  q_ready :: "u64 list"
  q_cores :: "u64 list"

datatype event = Ready u64 | Delegate kernel_task | Pass nat

datatype outcome = Readied | Delegated int | Acted action

fun spec_step :: "event \<Rightarrow> queues \<Rightarrow> outcome \<times> queues" where
  "spec_step (Ready t) q = (Readied, q\<lparr>q_ready := q_ready q @ [t]\<rparr>)"
| "spec_step (Delegate x) q =
     (if length (q_tasks q) < MAX_KERNEL_TASKS - 1 then (Delegated 0, q\<lparr>q_tasks := q_tasks q @ [x]\<rparr>) else (Delegated (- 1), q))"
| "spec_step (Pass c) q =
     (case q_tasks q of
        x # xs \<Rightarrow> (Acted (Run_Task x), q\<lparr>q_tasks := xs\<rparr>)
      | [] \<Rightarrow>
          if q_cores q ! c \<noteq> 0 then (Acted (Switch_To (q_cores q ! c)), q)
          else (case q_ready q of
                  t # ts \<Rightarrow> (Acted (Assigned t), q\<lparr>q_ready := ts, q_cores := (q_cores q)[c := t]\<rparr>)
                | [] \<Rightarrow> (Acted Idle, q)))"

fun spec_run :: "event list \<Rightarrow> queues \<Rightarrow> outcome list \<times> queues" where
  "spec_run [] q = ([], q)"
| "spec_run (e # es) q = (case spec_step e q of (out, q1) \<Rightarrow> case spec_run es q1 of (outs, q2) \<Rightarrow> (out # outs, q2))"

fun sched_step :: "nat \<Rightarrow> nat \<Rightarrow> event \<Rightarrow> sched \<Rightarrow> (outcome \<times> sched) kres option" where
  "sched_step n c (Ready t) s = Some (bindR (thread_ready n c t s) (\<lambda>(ipis, s1). Inr (Readied, s1)))"
| "sched_step n c (Delegate x) s = Some (bindR (delegate_kernel_task n c x s) (\<lambda>(res, ipis, s1). Inr (Delegated res, s1)))"
| "sched_step n c (Pass i) s = map_option (\<lambda>r. bindR r (\<lambda>(a, s1). Inr (Acted a, s1))) (scheduler_pass i s)"

fun sched_run :: "nat \<Rightarrow> nat \<Rightarrow> event list \<Rightarrow> sched \<Rightarrow> (outcome list \<times> sched) kres option" where
  "sched_run n c [] s = Some (Inr ([], s))"
| "sched_run n c (e # es) s =
     (case sched_step n c e s of
        None \<Rightarrow> None
      | Some (Inl f) \<Rightarrow> Some (Inl f)
      | Some (Inr (out, s1)) \<Rightarrow> map_option (\<lambda>r. bindR r (\<lambda>(outs, s2). Inr (out # outs, s2))) (sched_run n c es s1))"

section \<open>The list of ready threads\<close>

fun chain :: "(u64 \<Rightarrow> thread option) \<Rightarrow> u64 \<Rightarrow> u64 list \<Rightarrow> bool" where
  "chain h p [] \<longleftrightarrow> p = 0"
| "chain h p (x # xs) \<longleftrightarrow> p = x \<and> x \<noteq> 0 \<and> (case h x of None \<Rightarrow> False | Some t \<Rightarrow> chain h (nextt t) xs)"

definition link_of :: "(u64 \<Rightarrow> thread option) \<Rightarrow> u64 \<Rightarrow> u64 option" where
  "link_of h x = map_option nextt (h x)"

lemma chain_cong: "\<forall>x\<in>set xs. link_of h' x = link_of h x \<Longrightarrow> chain h' p xs = chain h p xs"
proof (induction xs arbitrary: p)
  case (Cons x xs)
  have "link_of h' x = link_of h x" using Cons.prems by simp
  then show ?case using Cons by (auto simp: link_of_def split: option.splits)
qed simp

lemma chain_append:
  "chain h p (xs @ [l]) \<Longrightarrow> h t = Some tt \<Longrightarrow> nextt tt = 0 \<Longrightarrow> t \<noteq> 0 \<Longrightarrow> t \<notin> set (xs @ [l]) \<Longrightarrow> distinct (xs @ [l]) \<Longrightarrow>
   h l = Some ll \<Longrightarrow> chain (h(l \<mapsto> ll\<lparr>nextt := t\<rparr>)) p (xs @ [l, t])"
proof (induction xs arbitrary: p)
  case (Cons x xs)
  then show ?case by (auto split: option.splits)
qed auto

lemma chain_live: "chain h p xs \<Longrightarrow> x \<in> set xs \<Longrightarrow> x \<noteq> 0 \<and> h x \<noteq> None"
  by (induction xs arbitrary: p) (auto split: option.splits)

lemma unready_loop_last:
  assumes "chain h p (xs @ [a, b])" "distinct (xs @ [a, b])"
  shows "\<exists>ta. h a = Some ta \<and> unready_loop b p h = Some (Inr (h(a \<mapsto> ta\<lparr>nextt := 0\<rparr>))) \<and>
    chain (h(a \<mapsto> ta\<lparr>nextt := 0\<rparr>)) p (xs @ [a])"
  using assms
proof (induction xs arbitrary: p)
  case Nil
  then show ?case by (subst unready_loop.simps) (auto split: option.splits)
next
  case (Cons x xs)
  obtain c where c: "h x = Some c" "p = x" "x \<noteq> 0" "chain h (nextt c) (xs @ [a, b])"
    using Cons.prems(1) by (auto split: option.splits)
  have n: "nextt c \<noteq> 0" "nextt c \<noteq> b" using c(4) Cons.prems(2) by (cases xs; auto)+
  have xa: "x \<noteq> a" using Cons.prems(2) by auto
  obtain ta where ta: "h a = Some ta" "unready_loop b (nextt c) h = Some (Inr (h(a \<mapsto> ta\<lparr>nextt := 0\<rparr>)))"
    "chain (h(a \<mapsto> ta\<lparr>nextt := 0\<rparr>)) (nextt c) (xs @ [a])"
    using Cons.IH [OF c(4)] Cons.prems(2) unfolding append_Cons distinct.simps by blast
  have "unready_loop b p h = Some (Inr (h(a \<mapsto> ta\<lparr>nextt := 0\<rparr>)))"
    using c(1,2) n ta(2) by (subst unready_loop.simps) simp
  moreover have "chain (h(a \<mapsto> ta\<lparr>nextt := 0\<rparr>)) p ((x # xs) @ [a])" using c(1-3) xa ta(3) by (simp del: fun_upd_apply add: fun_upd_other)
  ultimately show ?case using ta(1) by blast
qed

section \<open>The ring of kernel tasks\<close>

definition ring_count :: "nat \<Rightarrow> nat \<Rightarrow> nat \<Rightarrow> nat" where
  "ring_count n h t = (h + n - t) mod n"

definition ring :: "nat \<Rightarrow> 'a list \<Rightarrow> nat \<Rightarrow> nat \<Rightarrow> 'a list" where
  "ring n r h t = map (\<lambda>i. r ! ((t + i) mod n)) [0..<ring_count n h t]"

lemma ring_count_cases:
  assumes "h < n" "t < n"
  shows "ring_count n h t = (if t \<le> h then h - t else h + n - t)" and "(t + ring_count n h t) mod n = h"
    and "ring_count n h t < n"
proof -
  show a: "ring_count n h t = (if t \<le> h then h - t else h + n - t)"
    using assms by (auto simp: ring_count_def mod_if)
  show "(t + ring_count n h t) mod n = h" "ring_count n h t < n" using assms by (auto simp: a)
qed

lemma ring_push:
  assumes "h < n" "t < n" "length r = n" "(h + 1) mod n \<noteq> t"
  shows "ring n (r[h := x]) ((h + 1) mod n) t = ring n r h t @ [x]" and "length (ring n r h t) < n - 1"
proof -
  note c = ring_count_cases [OF assms(1,2)]
  have h': "(h + 1) mod n < n" using assms(1) by simp
  have n: "ring_count n ((h + 1) mod n) t = Suc (ring_count n h t)"
    using assms c(1) ring_count_cases(1) [of 0 n t] ring_count_cases(1) [of "Suc h" n t]
    by (cases "Suc h = n") (auto split: if_splits)
  have neq: "(t + i) mod n \<noteq> h" if "i < ring_count n h t" for i
    using mod_add_inj [of t i n "ring_count n h t"] that c by auto
  show "ring n (r[h := x]) ((h + 1) mod n) t = ring n r h t @ [x]"
    unfolding ring_def n using assms neq [symmetric] c(2) by (auto simp: nth_list_update_neq)
  show "length (ring n r h t) < n - 1"
    using n ring_count_cases(3) [OF h' assms(2)] by (simp add: ring_def)
qed

lemma ring_full:
  assumes "h < n" "(h + 1) mod n = t"
  shows "length (ring n r h t) = n - 1"
proof -
  have t: "t < n" using assms by auto
  show ?thesis using assms by (auto simp: ring_def ring_count_cases(1) [OF assms(1) t] mod_if split: if_splits)
qed

lemma ring_pop:
  assumes "h < n" "t < n" "h \<noteq> t"
  shows "ring n r h t = r ! t # ring n r h ((t + 1) mod n)"
proof -
  have n: "ring_count n h t = Suc (ring_count n h ((t + 1) mod n))"
    using assms ring_count_cases(1) [OF assms(1,2)] ring_count_cases(1) [of h n 0] ring_count_cases(1) [of h n "Suc t"]
    by (cases "Suc t = n") (auto split: if_splits)
  have "(t + Suc i) mod n = ((t + 1) mod n + i) mod n" for i by (simp add: mod_simps)
  then show ?thesis using assms(2) by (simp add: ring_def n upt_conv_Cons map_Suc_upt [symmetric] o_def del: upt_Suc)
qed

lemma ring_empty: "h < n \<Longrightarrow> t < n \<Longrightarrow> ring n r h t = [] \<longleftrightarrow> h = t"
  by (auto simp: ring_def ring_count_cases(1))

section \<open>Each step refines the queues\<close>

definition repr :: "sched \<Rightarrow> queues \<Rightarrow> bool" where
  "repr s q \<longleftrightarrow>
     chain (threads s) (ready_threads s) (q_ready q) \<and> distinct (q_ready q) \<and>
     (q_ready q \<noteq> [] \<longrightarrow> ready_threads_last s = last (q_ready q)) \<and>
     cores_threads s = q_cores q \<and> (\<forall>t\<in>set (q_cores q). t \<noteq> 0 \<longrightarrow> threads s t \<noteq> None) \<and>
     length (cpu_cores s) = length (q_cores q) \<and> length (ready_kernel_tasks s) = MAX_KERNEL_TASKS \<and>
     ready_kernel_tasks_head s < MAX_KERNEL_TASKS \<and> ready_kernel_tasks_tail s < MAX_KERNEL_TASKS \<and>
     ring MAX_KERNEL_TASKS (ready_kernel_tasks s) (ready_kernel_tasks_head s) (ready_kernel_tasks_tail s) = q_tasks q"

text \<open>A thread that has not been made ready since it was created: it is not in the list and its link is null.\<close>

definition unqueued :: "u64 \<Rightarrow> sched \<Rightarrow> queues \<Rightarrow> bool" where
  "unqueued t s q \<longleftrightarrow> t \<noteq> 0 \<and> link_of (threads s) t = Some 0 \<and> t \<notin> set (q_ready q)"

text \<open>What every step leaves alone.\<close>

definition untouched :: "u64 set \<Rightarrow> sched \<Rightarrow> sched \<Rightarrow> bool" where
  "untouched ts s s' \<longleftrightarrow> (\<forall>t\<in>ts. link_of (threads s') t = link_of (threads s) t)"

lemma ready_refines:
  assumes r: "repr s q" and u: "unqueued t s q" and n: "n \<le> length (q_cores q)"
  shows "\<exists>s'. sched_step n c (Ready t) s = Some (Inr (Readied, s')) \<and> repr s' (q\<lparr>q_ready := q_ready q @ [t]\<rparr>) \<and>
    untouched (- set (q_ready q)) s s'"
proof -
  obtain tt where tt: "threads s t = Some tt" "nextt tt = 0" "t \<noteq> 0" "t \<notin> set (q_ready q)"
    using u by (auto simp: unqueued_def link_of_def)
  let ?h = "(threads s)(t \<mapsto> tt\<lparr>state := READY\<rparr>)"
  have lk: "link_of ?h x = link_of (threads s) x" for x using tt(1) by (simp add: link_of_def)
  have ch: "chain ?h (ready_threads s) (q_ready q)" using r chain_cong [of "q_ready q" ?h "threads s"] lk by (simp add: repr_def)
  show ?thesis
  proof (cases "q_ready q" rule: rev_cases)
    case Nil
    then show ?thesis using r n tt lk by (auto simp: repr_def thread_ready_def link_ready_def send_wakeup_ipi_def untouched_def)
  next
    case (snoc xs l)
    obtain ll where ll: "?h l = Some ll" using chain_live [OF ch, of l] snoc by auto
    have nz: "ready_threads s \<noteq> 0" using ch snoc by (cases xs) auto
    have "chain (?h(l \<mapsto> ll\<lparr>nextt := t\<rparr>)) (ready_threads s) (xs @ [l, t])"
      using chain_append [of ?h "ready_threads s" xs l t "tt\<lparr>state := READY\<rparr>" ll] ch tt ll r snoc by (simp add: repr_def)
    moreover have "link_of (?h(l \<mapsto> ll\<lparr>nextt := t\<rparr>)) x = link_of (threads s) x" if "x \<noteq> l" for x
      using lk [of x] that by (simp add: link_of_def)
    ultimately show ?thesis using r n tt ll nz snoc
      by (auto simp: repr_def thread_ready_def link_ready_def send_wakeup_ipi_def untouched_def)
  qed
qed

lemma delegate_refines:
  assumes "repr s q" "n \<le> length (q_cores q)" "spec_step (Delegate x) q = (out, q')"
  shows "\<exists>s'. sched_step n c (Delegate x) s = Some (Inr (out, s')) \<and> repr s' q' \<and> threads s' = threads s"
proof (cases "(ready_kernel_tasks_head s + 1) mod MAX_KERNEL_TASKS = ready_kernel_tasks_tail s")
  case True
  then have "length (q_tasks q) = MAX_KERNEL_TASKS - 1" using assms(1) ring_full by (metis repr_def)
  then show ?thesis using True assms by (auto simp: repr_def delegate_kernel_task_def send_wakeup_ipi_def)
next
  case False
  have "0 < MAX_KERNEL_TASKS" by (simp add: MAX_KERNEL_TASKS_def)
  then show ?thesis using False assms ring_push [of "ready_kernel_tasks_head s" MAX_KERNEL_TASKS "ready_kernel_tasks_tail s" "ready_kernel_tasks s"]
    by (auto simp: repr_def delegate_kernel_task_def send_wakeup_ipi_def)
qed

lemma pass_refines:
  assumes r: "repr s q" and c: "c < length (q_cores q)" and sp: "spec_step (Pass c) q = (out, q')"
  shows "\<exists>s'. sched_step n k (Pass c) s = Some (Inr (out, s')) \<and> repr s' q' \<and> untouched UNIV s s'"
proof (cases "q_tasks q")
  case (Cons x xs)
  let ?h = "ready_kernel_tasks_head s" and ?t = "ready_kernel_tasks_tail s"
  have b: "?h < MAX_KERNEL_TASKS" "?t < MAX_KERNEL_TASKS" "ring MAX_KERNEL_TASKS (ready_kernel_tasks s) ?h ?t = x # xs"
    using r Cons by (simp_all add: repr_def)
  have ne: "?h \<noteq> ?t" using ring_empty [OF b(1,2), of "ready_kernel_tasks s"] b(3) by auto
  have "ready_kernel_tasks s ! ?t = x" "ring MAX_KERNEL_TASKS (ready_kernel_tasks s) ?h ((?t + 1) mod MAX_KERNEL_TASKS) = xs"
    using ring_pop [OF b(1,2) ne, of "ready_kernel_tasks s"] b(3) by simp_all
  moreover have "(?t + 1) mod MAX_KERNEL_TASKS < MAX_KERNEL_TASKS" by (simp add: MAX_KERNEL_TASKS_def)
  ultimately show ?thesis using r ne sp Cons by (auto simp: repr_def scheduler_pass_def untouched_def)
next
  case Nil
  have e: "ready_kernel_tasks_head s = ready_kernel_tasks_tail s"
    using r Nil ring_empty by (metis repr_def)
  show ?thesis
  proof (cases "q_cores q ! c = 0")
    case False
    then obtain t where t: "threads s (q_cores q ! c) = Some t" using r c by (fastforce simp: repr_def)
    let ?h = "(threads s)(q_cores q ! c \<mapsto> t\<lparr>state := RUNNING\<rparr>)"
    have lk: "link_of ?h x = link_of (threads s) x" for x using t by (simp add: link_of_def)
    then have "chain ?h p ys = chain (threads s) p ys" for p ys using chain_cong by blast
    then show ?thesis using r e c t sp Nil False lk by (auto simp: repr_def scheduler_pass_def untouched_def)
  next
    case True
    show ?thesis
    proof (cases "q_ready q")
      case Nil': Nil
      then show ?thesis using r e c sp Nil True by (auto simp: repr_def scheduler_pass_def untouched_def)
    next
      case (Cons x xs)
      then obtain t where t: "threads s x = Some t" "chain (threads s) (nextt t) xs" "x \<noteq> 0" "ready_threads s = x"
        using r by (auto simp: repr_def split: option.splits)
      let ?h = "(threads s)(x \<mapsto> t\<lparr>state := ASLEEP\<rparr>)"
      have lk: "link_of ?h y = link_of (threads s) y" for y using t by (simp add: link_of_def)
      then have ch: "chain ?h p ys = chain (threads s) p ys" for p ys using chain_cong by blast
      have "xs \<noteq> [] \<Longrightarrow> nextt t \<noteq> 0" using t(2) by (cases xs) auto
      then show ?thesis using r e c sp Nil True Cons t ch lk
        by (auto simp: repr_def scheduler_pass_def thread_unready_nolock_def untouched_def dest: in_set_takeD in_set_dropD
            dest!: set_update_subset_insert [THEN subsetD])
    qed
  qed
qed

section \<open>Runs\<close>

fun readied :: "event list \<Rightarrow> u64 list" where
  "readied [] = []"
| "readied (Ready t # es) = t # readied es"
| "readied (e # es) = readied es"

definition pass_ok :: "nat \<Rightarrow> event \<Rightarrow> bool" where
  "pass_ok n e \<longleftrightarrow> (case e of Pass c \<Rightarrow> c < n | _ \<Rightarrow> True)"

lemma step_refines:
  assumes "repr s q" "pass_ok (length (q_cores q)) e" "n \<le> length (q_cores q)" "\<forall>t\<in>set (readied [e]). unqueued t s q"
    "spec_step e q = (out, q')"
  shows "\<exists>s'. sched_step n c e s = Some (Inr (out, s')) \<and> repr s' q' \<and> untouched (- set (q_ready q)) s s' \<and>
    length (q_cores q') = length (q_cores q) \<and> set (q_ready q') \<subseteq> set (q_ready q) \<union> set (readied [e])"
proof (cases e)
  case (Ready t)
  then show ?thesis using ready_refines [OF assms(1), of t n c] assms(3-5) by auto
next
  case (Delegate x)
  then show ?thesis using delegate_refines [OF assms(1,3), of x out q' c] assms(5)
    by (auto simp: untouched_def split: if_splits)
next
  case (Pass i)
  then show ?thesis using pass_refines [OF assms(1), of i out q' n c] assms(2,5)
    by (auto simp: pass_ok_def untouched_def split: list.splits if_splits)
qed

lemma run_refines:
  assumes "repr s q" "\<forall>e\<in>set es. pass_ok (length (q_cores q)) e" "n \<le> length (q_cores q)"
    "distinct (readied es)" "\<forall>t\<in>set (readied es). unqueued t s q"
  shows "\<exists>s'. sched_run n c es s = Some (Inr (fst (spec_run es q), s')) \<and> repr s' (snd (spec_run es q))"
  using assms
proof (induction es arbitrary: s q)
  case (Cons e es)
  obtain out q1 where q1: "spec_step e q = (out, q1)" by fastforce
  have sub: "set (readied [e]) \<subseteq> set (readied (e # es))" "set (readied es) \<subseteq> set (readied (e # es))"
    "set (readied es) \<inter> set (readied [e]) = {}" "distinct (readied es)"
    using Cons.prems(4) by (cases e; auto)+
  obtain s1 where s1: "sched_step n c e s = Some (Inr (out, s1))" "repr s1 q1" "untouched (- set (q_ready q)) s s1"
    "length (q_cores q1) = length (q_cores q)" "set (q_ready q1) \<subseteq> set (q_ready q) \<union> set (readied [e])"
    using step_refines [OF Cons.prems(1) _ Cons.prems(3) _ q1, of c] Cons.prems(2,5) sub(1) by auto
  have "\<forall>t\<in>set (readied es). unqueued t s1 q1"
    using Cons.prems(5) sub(2,3) s1(3,5) by (fastforce simp: unqueued_def untouched_def)
  then obtain s' where "sched_run n c es s1 = Some (Inr (fst (spec_run es q1), s'))" "repr s' (snd (spec_run es q1))"
    using Cons.IH [OF s1(2)] Cons.prems(2,3) s1(4) sub(4) by auto
  then show ?case using s1(1) q1 by (auto split: prod.splits)
qed simp

section \<open>Properties\<close>


definition demo_sched :: sched where
  "demo_sched = \<lparr>threads = [0x1000 \<mapsto> \<lparr>state = ASLEEP, nextt = 0\<rparr>, 0x2000 \<mapsto> \<lparr>state = ASLEEP, nextt = 0\<rparr>],
     ready_threads = 0, ready_threads_last = 0, cores_threads = [0, 0],
     cpu_cores = [\<lparr>status = 0, lapic_id = 0, online = True\<rparr>, \<lparr>status = 0, lapic_id = 1, online = True\<rparr>],
     ready_kernel_tasks = replicate MAX_KERNEL_TASKS (0, 0), ready_kernel_tasks_head = 0, ready_kernel_tasks_tail = 0\<rparr>"

lemma demo_sched_repr: "repr demo_sched \<lparr>q_tasks = [], q_ready = [], q_cores = [0, 0]\<rparr>"
  by (simp add: repr_def demo_sched_def ring_def ring_count_def MAX_KERNEL_TASKS_def)


text \<open>Taking the last of several ready threads out of the list does not move the end of the list: the thread made
  ready next is linked behind the thread that was taken out, so that no pass ever reaches it.\<close>

lemma unready_last_loses_next:
  assumes "repr s q" "q_ready q = xs @ [a, b]" "unqueued t s q" "n \<le> length (q_cores q)"
  shows "\<exists>s1 ipis s2. thread_unready b s = Some (Inr s1) \<and> thread_ready n c t s1 = Inr (ipis, s2) \<and>
    chain (threads s2) (ready_threads s2) (xs @ [a]) \<and> ready_threads_last s2 = t \<and> t \<notin> set (xs @ [a])"
proof -
  have r: "chain (threads s) (ready_threads s) (xs @ [a, b])" "distinct (xs @ [a, b])" "ready_threads_last s = b"
    "length (cpu_cores s) = length (q_cores q)"
    using assms(1,2) by (simp_all add: repr_def)
  obtain tt where tt: "threads s t = Some tt" "t \<noteq> 0" "t \<notin> set (xs @ [a, b])"
    using assms(2,3) by (auto simp: unqueued_def link_of_def)
  obtain tb where tb: "threads s b = Some tb" using chain_live [OF r(1), of b] by auto
  let ?h = "(threads s)(b \<mapsto> tb\<lparr>state := ASLEEP\<rparr>)"
  have "chain ?h (ready_threads s) (xs @ [a, b])"
    using r(1) chain_cong [of "xs @ [a, b]" ?h "threads s"] tb by (simp add: link_of_def)
  then obtain ta where ta: "?h a = Some ta" "unready_loop b (ready_threads s) ?h = Some (Inr (?h(a \<mapsto> ta\<lparr>nextt := 0\<rparr>)))"
    "chain (?h(a \<mapsto> ta\<lparr>nextt := 0\<rparr>)) (ready_threads s) (xs @ [a])"
    using unready_loop_last r(2) by blast
  let ?g = "?h(a \<mapsto> ta\<lparr>nextt := 0\<rparr>)"
  have rt: "ready_threads s \<noteq> 0" "ready_threads s \<noteq> b" using r(1,2) by (cases xs; auto)+
  have un: "thread_unready b s = Some (Inr (s\<lparr>threads := ?g\<rparr>))"
    using rt ta(2) tb by (simp add: thread_unready_def thread_unready_nolock_def)
  have ne: "a \<noteq> b" "t \<noteq> a" "t \<noteq> b" using r(2) tt(3) by auto
  let ?k = "?g(t \<mapsto> tt\<lparr>state := READY\<rparr>, b \<mapsto> tb\<lparr>state := ASLEEP, nextt := t\<rparr>)"
  have "\<forall>x\<in>set (xs @ [a]). link_of ?k x = link_of ?g x" using r(2) tt(3) by (auto simp: link_of_def)
  then have "chain ?k (ready_threads s) (xs @ [a])" using chain_cong ta(3) by blast
  moreover have "\<exists>ipis. thread_ready n c t (s\<lparr>threads := ?g\<rparr>) = Inr (ipis, s\<lparr>threads := ?k, ready_threads_last := t\<rparr>)"
    using rt(1) r(3,4) tt(1) ne assms(4) by (simp add: thread_ready_def link_ready_def send_wakeup_ipi_def)
  ultimately show ?thesis using un tt(3) by auto
qed

end
