(* ===== verification/Syscalls.thy ===== *)
theory Syscalls
  imports Vfs UserMem
begin

unbundle bit_operations_syntax

text \<open>
  File descriptors (\<^verbatim>\<open>src/proc/proc.c\<close>) and the file system calls of \<^verbatim>\<open>src/syscall/fs\<close>: opening, closing, reading,
  writing, seeking, directory entries, attributes and the working directory. They put the path helpers (\<open>Paths\<close>), the
  virtual file system (\<open>Vfs\<close>) and the copies to user memory (\<open>UserMem\<close>) together. The functions behind an operations
  block and the user's page tables are arguments. The buffers that a call allocates and frees again only appear as
  the addresses that the allocator returned, with zero for a failure.
\<close>

section \<open>File descriptors\<close>

record proc =
  p_uid :: u32
  p_cwd :: string
  fds_max :: int
  fds :: "u64 list"

definition PROCESS_FDS_MAX :: int where "PROCESS_FDS_MAX = 64"

definition proc_get_fd :: "proc \<Rightarrow> int \<Rightarrow> u64 kres" where
  "proc_get_fd p fd =
     (if fd < 0 then Inr 0
      else if fds_max p \<le> fd then Inr 0
      else if length (fds p) \<le> nat fd then Inl BadAccess
      else Inr (fds p ! nat fd))"

text \<open>The loop of \<^verbatim>\<open>proc_alloc_fd\<close>, with the number of descriptors that are left.\<close>

fun alloc_fd_loop :: "u64 list \<Rightarrow> nat \<Rightarrow> nat \<Rightarrow> nat option kres" where
  "alloc_fd_loop xs i 0 = Inr None"
| "alloc_fd_loop xs i (Suc left) =
     (if length xs \<le> i then Inl BadAccess
      else if xs ! i = 0 then Inr (Some i)
      else alloc_fd_loop xs (i + 1) left)"

definition proc_alloc_fd :: "proc \<Rightarrow> u64 \<Rightarrow> (int \<times> proc) kres" where
  "proc_alloc_fd p handle =
     (if handle = 0 then Inr (- 1, p)
      else bindR (alloc_fd_loop (fds p) 0 (nat (fds_max p))) (\<lambda>r.
        case r of None \<Rightarrow> Inr (- 1, p)
        | Some i \<Rightarrow> Inr (int i, p\<lparr>fds := (fds p)[i := handle]\<rparr>)))"

text \<open>A negative descriptor is not rejected.\<close>

definition proc_free_fd :: "proc \<Rightarrow> int \<Rightarrow> proc kres" where
  "proc_free_fd p fd =
     (if fds_max p \<le> fd then Inr p
      else if fd < 0 \<or> length (fds p) \<le> nat fd then Inl BadAccess
      else Inr (p\<lparr>fds := (fds p)[nat fd := 0]\<rparr>))"

section \<open>Handles of descriptors\<close>

definition get_handle_and_check_backing_node :: "int \<Rightarrow> proc \<Rightarrow> 'm vfs \<Rightarrow> (int \<times> u64) kres" where
  "get_handle_and_check_backing_node fd p v =
     bindR (proc_get_fd p fd) (\<lambda>f.
       if f = 0 then Inr (- EINVAL, 0)
       else bindR (handle_at v f) (\<lambda>h. Inr (if backing_node h = None then (- EIO, 0) else (0, f))))"

definition handle_type :: "u64 \<Rightarrow> 'm vfs \<Rightarrow> u8 kres" where
  "handle_type f v =
     bindR (handle_at v f) (\<lambda>h. case backing_node h of None \<Rightarrow> Inl BadAccess
       | Some q \<Rightarrow> bindR (node_at (cache v) q) (\<lambda>n. Inr (f_type n)))"

definition get_dir_handle :: "int \<Rightarrow> proc \<Rightarrow> 'm vfs \<Rightarrow> (int \<times> u64) kres" where
  "get_dir_handle fd p v =
     bindR (get_handle_and_check_backing_node fd p v) (\<lambda>(res, f).
       if res < 0 then Inr (res, 0)
       else bindR (handle_type f v) (\<lambda>t. Inr (if t \<noteq> DT_DIR then (- ENOTDIR, 0) else (0, f))))"

definition get_not_dir_handle :: "int \<Rightarrow> proc \<Rightarrow> 'm vfs \<Rightarrow> (int \<times> u64) kres" where
  "get_not_dir_handle fd p v =
     bindR (get_handle_and_check_backing_node fd p v) (\<lambda>(res, f).
       if res < 0 then Inr (res, 0)
       else bindR (handle_type f v) (\<lambda>t. Inr (if t = DT_DIR then (- EISDIR, 0) else (0, f))))"

section \<open>Opening and closing\<close>

definition syscall_routine_open ::
    "'m fscache load_fun \<Rightarrow> 'm fscache create_fun \<Rightarrow> (u64 \<Rightarrow> u64 \<Rightarrow> 'm vfs \<Rightarrow> (int \<times> 'm vfs) kres) \<Rightarrow>
     string \<Rightarrow> u8 \<Rightarrow> mode_t \<Rightarrow> proc \<Rightarrow> 'm vfs \<Rightarrow> (int \<times> proc \<times> 'm vfs) kres" where
  "syscall_routine_open load create close path flags mode p v =
     (case kmalloc_next (cache v) of (path_abs, c1) \<Rightarrow>
        let v1 = v\<lparr>cache := c1\<rparr>
        in if path_abs = 0 then Inr (- ENOMEM, p, v1)
           else (case handle_relative_path path (p_cwd p) of
             Inl res \<Rightarrow> Inr (res, p, v1)
           | Inr full \<Rightarrow>
               bindR (vfs_open load create (Some full) flags mode (p_uid p) True v1) (\<lambda>(res, handle, v2).
                 if res < 0 then Inr (res, p, v2)
                 else bindR (proc_alloc_fd p handle) (\<lambda>(fd, p1).
                   if fd = - 1 then bindR (vfs_close close handle v2) (\<lambda>(r, v3). Inr (- EMFILE, p1, v3))
                   else Inr (fd, p1, v2)))))"

definition syscall_routine_close ::
    "(u64 \<Rightarrow> u64 \<Rightarrow> 'm vfs \<Rightarrow> (int \<times> 'm vfs) kres) \<Rightarrow> int \<Rightarrow> proc \<Rightarrow> 'm vfs \<Rightarrow> (int \<times> proc \<times> 'm vfs) kres" where
  "syscall_routine_close close fd p v =
     bindR (proc_get_fd p fd) (\<lambda>handle.
       if handle = 0 then Inr (- EINVAL, p, v)
       else bindR (proc_free_fd p fd) (\<lambda>p1. bindR (vfs_close close handle v) (\<lambda>(r, v1). Inr (0, p1, v1))))"

section \<open>Reading, writing, seeking\<close>

text \<open>\<^verbatim>\<open>kmalloc_heap\<close> returns null for a size of zero.\<close>

definition kmalloc_sized :: "u64 \<Rightarrow> 'm fscache \<Rightarrow> u64 \<times> 'm fscache" where
  "kmalloc_sized sz s = (if sz = 0 then (0, s) else kmalloc_next s)"

type_synonym 'm read_fun = "u64 \<Rightarrow> u64 \<Rightarrow> u64 \<Rightarrow> 'm vfs \<Rightarrow> (int \<times> u8 list \<times> 'm vfs) kres"

text \<open>What \<^verbatim>\<open>read\<close> and \<^verbatim>\<open>getdents\<close> do with a handle: a buffer of \<open>count\<close> bytes, of which \<open>len\<close> are asked for.\<close>

definition read_to_user ::
    "u64 \<Rightarrow> 'm read_fun \<Rightarrow> u64 \<Rightarrow> u64 \<Rightarrow> u64 \<Rightarrow> u64 \<Rightarrow> u64 \<Rightarrow> 'm vfs \<Rightarrow> umem \<Rightarrow> (int \<times> 'm vfs \<times> umem) kres option" where
  "read_to_user hhdm call handle buf count len pml4 v u =
     (case kmalloc_sized count (cache v) of (buf_tmp, c1) \<Rightarrow>
        let v1 = v\<lparr>cache := c1\<rparr>
        in if buf_tmp = 0 then Some (Inr (- ENOMEM, v1, u))
           else (case vfs_read call (replicate (unat count) 0) handle len v1 of
             Inl f \<Rightarrow> Some (Inl f)
           | Inr (res, bytes, v2) \<Rightarrow>
               if 0 < res then
                 map_option (\<lambda>r. bindR r (\<lambda>(check, u1). Inr (if check < 0 then check else res, v2, u1)))
                   (copy_to_user_buf hhdm buf bytes (word_of_int res) False pml4 u)
               else Some (Inr (res, v2, u))))"

definition syscall_routine_read ::
    "u64 \<Rightarrow> 'm read_fun \<Rightarrow> int \<Rightarrow> u64 \<Rightarrow> u64 \<Rightarrow> proc \<Rightarrow> u64 \<Rightarrow> 'm vfs \<Rightarrow> umem \<Rightarrow> (int \<times> 'm vfs \<times> umem) kres option" where
  "syscall_routine_read hhdm call fd buf count p pml4 v u =
     (case get_not_dir_handle fd p v of
        Inl f \<Rightarrow> Some (Inl f)
      | Inr (res, handle) \<Rightarrow>
          if res < 0 then Some (Inr (res, v, u)) else read_to_user hhdm call handle buf count count pml4 v u)"

definition syscall_routine_getdents ::
    "u64 \<Rightarrow> 'm read_fun \<Rightarrow> int \<Rightarrow> u64 \<Rightarrow> u64 \<Rightarrow> proc \<Rightarrow> u64 \<Rightarrow> 'm vfs \<Rightarrow> umem \<Rightarrow> (int \<times> 'm vfs \<times> umem) kres option" where
  "syscall_routine_getdents hhdm call fd buf count p pml4 v u =
     (case get_dir_handle fd p v of
        Inl f \<Rightarrow> Some (Inl f)
      | Inr (res, handle) \<Rightarrow>
          if res < 0 then Some (Inr (res, v, u))
          else read_to_user hhdm call handle buf count ((count div SIZEOF_DIRENT) * SIZEOF_DIRENT) pml4 v u)"

definition syscall_routine_write ::
    "(u64 \<Rightarrow> u64 \<Rightarrow> 'r \<Rightarrow> 'm vfs \<Rightarrow> (int \<times> 'm vfs) kres) \<Rightarrow> int \<Rightarrow> 'r \<Rightarrow> proc \<Rightarrow> 'm vfs \<Rightarrow> (int \<times> 'm vfs) kres" where
  "syscall_routine_write call fd buf p v =
     bindR (get_not_dir_handle fd p v) (\<lambda>(res, handle). if res < 0 then Inr (res, v) else vfs_write call handle buf v)"

definition syscall_routine_lseek ::
    "(u64 \<Rightarrow> u64 \<Rightarrow> int \<Rightarrow> u32 \<Rightarrow> 'm vfs \<Rightarrow> (int \<times> 'm vfs) kres) \<Rightarrow> int \<Rightarrow> int \<Rightarrow> u32 \<Rightarrow> proc \<Rightarrow> 'm vfs \<Rightarrow> (int \<times> 'm vfs) kres" where
  "syscall_routine_lseek call fd offset whence p v =
     bindR (get_handle_and_check_backing_node fd p v) (\<lambda>(res, handle).
       if res < 0 then Inr (res, v) else vfs_seek call handle offset whence v)"

section \<open>Attributes\<close>

definition le_bytes :: "nat \<Rightarrow> 'a::len word \<Rightarrow> u8 list" where
  "le_bytes n w = map (\<lambda>i. ucast (drop_bit (8 * i) w)) [0..<n]"

text \<open>\<^verbatim>\<open>struct kstat\<close>: the mode in 2 bytes, the owners in 4 each and the size in 8, at their alignment.\<close>

definition kstat_bytes :: "fscache_node \<Rightarrow> u8 list" where
  "kstat_bytes n = le_bytes 2 (f_mode n) @ [0, 0] @ le_bytes 4 (f_uid n) @ le_bytes 4 (f_gid n) @ [0, 0, 0, 0] @ le_bytes 8 (f_size n)"

definition SIZEOF_KSTAT :: u64 where "SIZEOF_KSTAT = 24"

definition syscall_routine_stat_from_handle :: "u64 \<Rightarrow> u64 \<Rightarrow> u64 \<Rightarrow> u64 \<Rightarrow> 'm vfs \<Rightarrow> umem \<Rightarrow> (int \<times> umem) kres option" where
  "syscall_routine_stat_from_handle hhdm handle out_stat_ptr pml4 v u =
     (case bindR (handle_at v handle) (\<lambda>h. case backing_node h of None \<Rightarrow> Inl BadAccess | Some q \<Rightarrow> node_at (cache v) q) of
        Inl f \<Rightarrow> Some (Inl f)
      | Inr n \<Rightarrow> copy_to_user_buf hhdm out_stat_ptr (kstat_bytes n) SIZEOF_KSTAT False pml4 u)"

definition syscall_routine_fstat :: "u64 \<Rightarrow> int \<Rightarrow> u64 \<Rightarrow> proc \<Rightarrow> u64 \<Rightarrow> 'm vfs \<Rightarrow> umem \<Rightarrow> (int \<times> umem) kres option" where
  "syscall_routine_fstat hhdm fd out_stat_ptr p pml4 v u =
     (case get_handle_and_check_backing_node fd p v of
        Inl f \<Rightarrow> Some (Inl f)
      | Inr (res, handle) \<Rightarrow>
          if res < 0 then Some (Inr (res, u)) else syscall_routine_stat_from_handle hhdm handle out_stat_ptr pml4 v u)"

text \<open>The common end of \<^verbatim>\<open>syscall_routine_stat\<close>: the handle is closed when there is one.\<close>

definition stat_cleanup ::
    "(u64 \<Rightarrow> u64 \<Rightarrow> 'm vfs \<Rightarrow> (int \<times> 'm vfs) kres) \<Rightarrow> u64 \<Rightarrow> int \<Rightarrow> 'm vfs \<Rightarrow> umem \<Rightarrow> (int \<times> 'm vfs \<times> umem) kres" where
  "stat_cleanup close handle res v u =
     (if handle = 0 then Inr (res, v, u) else bindR (vfs_close close handle v) (\<lambda>(r, v1). Inr (res, v1, u)))"

definition syscall_routine_stat ::
    "'m fscache load_fun \<Rightarrow> 'm fscache create_fun \<Rightarrow> (u64 \<Rightarrow> u64 \<Rightarrow> 'm vfs \<Rightarrow> (int \<times> 'm vfs) kres) \<Rightarrow>
     u64 \<Rightarrow> string \<Rightarrow> u64 \<Rightarrow> proc \<Rightarrow> u64 \<Rightarrow> 'm vfs \<Rightarrow> umem \<Rightarrow> (int \<times> 'm vfs \<times> umem) kres option" where
  "syscall_routine_stat load create close hhdm path out_stat_ptr p pml4 v u =
     (case kmalloc_next (cache v) of (path_abs, c1) \<Rightarrow>
        let v1 = v\<lparr>cache := c1\<rparr>
        in if path_abs = 0 then Some (Inr (- ENOMEM, v1, u))
           else (case handle_relative_path path (p_cwd p) of
             Inl res \<Rightarrow> Some (stat_cleanup close 0 res v1 u)
           | Inr full \<Rightarrow>
               (case vfs_open load create (Some full) 0 0 (p_uid p) True v1 of
                  Inl f \<Rightarrow> Some (Inl f)
                | Inr (res, handle, v2) \<Rightarrow>
                    if res < 0 then Some (stat_cleanup close handle res v2 u)
                    else if handle = 0 then Some (stat_cleanup close handle (- EIO) v2 u)
                    else (case handle_at v2 handle of
                        Inl f \<Rightarrow> Some (Inl f)
                      | Inr h \<Rightarrow>
                          if backing_node h = None then Some (stat_cleanup close handle (- EIO) v2 u)
                          else map_option (\<lambda>r. bindR r (\<lambda>(res2, u1). stat_cleanup close handle res2 v2 u1))
                                 (syscall_routine_stat_from_handle hhdm handle out_stat_ptr pml4 v2 u)))))"

definition syscall_routine_lstat ::
    "'m fscache load_fun \<Rightarrow> 'm fscache create_fun \<Rightarrow> (u64 \<Rightarrow> u64 \<Rightarrow> 'm vfs \<Rightarrow> (int \<times> 'm vfs) kres) \<Rightarrow>
     u64 \<Rightarrow> string \<Rightarrow> u64 \<Rightarrow> proc \<Rightarrow> u64 \<Rightarrow> 'm vfs \<Rightarrow> umem \<Rightarrow> (int \<times> 'm vfs \<times> umem) kres option" where
  "syscall_routine_lstat load create close hhdm path out_stat_ptr p pml4 v u =
     syscall_routine_stat load create close hhdm path out_stat_ptr p pml4 v u"

section \<open>The working directory\<close>

text \<open>\<^verbatim>\<open>collapse_path\<close> allocates a buffer of its own.\<close>

definition syscall_routine_chdir :: "'m fscache load_fun \<Rightarrow> string \<Rightarrow> proc \<Rightarrow> 'm fscache \<Rightarrow> (int \<times> proc \<times> 'm fscache) kres" where
  "syscall_routine_chdir load path p s =
     (case kmalloc_next s of (path_abs, s1) \<Rightarrow>
        if path_abs = 0 then Inr (- ENOMEM, p, s1)
        else (case handle_relative_path path (p_cwd p) of
          Inl res \<Rightarrow> Inr (res, p, s1)
        | Inr full \<Rightarrow>
            (case kmalloc_next s1 of (temp, s2) \<Rightarrow>
               bindR (collapse_path (temp \<noteq> 0) full) (\<lambda>r.
                 case r of Inl res \<Rightarrow> Inr (res, p, s2)
                 | Inr col \<Rightarrow>
                     bindR (fscache_request_node load (Some col) (p_uid p) False s2) (\<lambda>(res, out, s3).
                       if res < 0 then Inr (res, p, s3)
                       else if res = FSCACHE_REQUEST_NODE_ONE_LEVEL_AWAY then Inr (- ENOENT, p, s3)
                       else Inr (0, p\<lparr>p_cwd := take (PATH_MAX - 1) col\<rparr>, s3))))))"

definition syscall_routine_getcwd :: "u64 \<Rightarrow> u64 \<Rightarrow> int \<Rightarrow> proc \<Rightarrow> u64 \<Rightarrow> umem \<Rightarrow> (int \<times> umem) kres option" where
  "syscall_routine_getcwd hhdm out_buf_ptr sz p pml4 u =
     (if sz = 0 then Some (Inr (- EINVAL, u))
      else let cwd_len = int (length (p_cwd p))
           in if sz < cwd_len + 1 then Some (Inr (- ERANGE, u))
              else map_option (\<lambda>r. bindR r (\<lambda>(res, u1). Inr (if res < 0 then res else cwd_len + 1, u1)))
                     (copy_to_user_buf hhdm out_buf_ptr (map of_char (p_cwd p) @ [0]) (word_of_int (cwd_len + 1)) False pml4 u))"

section \<open>The table of descriptors\<close>

text \<open>The table has its full length; its handles are live and no handle has two descriptors.\<close>

definition table_ok :: "proc \<Rightarrow> 'm vfs \<Rightarrow> bool" where
  "table_ok p v \<longleftrightarrow>
     fds_max p = int (length (fds p)) \<and> (\<forall>f\<in>set (fds p). f \<noteq> 0 \<longrightarrow> handles v f \<noteq> None) \<and>
     (\<forall>i<length (fds p). \<forall>j<length (fds p). fds p ! i \<noteq> 0 \<longrightarrow> fds p ! i = fds p ! j \<longrightarrow> i = j)"

text \<open>\<open>lowest_free\<close> says that a descriptor is the first free one.\<close>

definition lowest_free :: "u64 list \<Rightarrow> nat \<Rightarrow> bool" where
  "lowest_free xs i \<longleftrightarrow> i < length xs \<and> xs ! i = 0 \<and> (\<forall>j<i. xs ! j \<noteq> 0)"

lemma table_ok_handles: "handles v' = handles v \<Longrightarrow> table_ok p v' = table_ok p v"
  by (simp add: table_ok_def)

lemma alloc_fd_loop_law:
  "i + left \<le> length xs \<Longrightarrow>
    (\<exists>j. alloc_fd_loop xs i left = Inr (Some j) \<and> i \<le> j \<and> j < i + left \<and> xs ! j = 0 \<and> (\<forall>k. i \<le> k \<longrightarrow> k < j \<longrightarrow> xs ! k \<noteq> 0)) \<or>
    alloc_fd_loop xs i left = Inr None \<and> (\<forall>k. i \<le> k \<longrightarrow> k < i + left \<longrightarrow> xs ! k \<noteq> 0)"
proof (induction left arbitrary: i)
  case (Suc left)
  show ?case
  proof (cases "xs ! i = 0")
    case True
    then show ?thesis using Suc.prems by auto
  next
    case False
    have ne: "(\<forall>k. i \<le> k \<longrightarrow> k < m \<longrightarrow> xs ! k \<noteq> 0) = (\<forall>k. i + 1 \<le> k \<longrightarrow> k < m \<longrightarrow> xs ! k \<noteq> 0)" for m
      using False by (metis Suc_eq_plus1 Suc_leD le_antisym not_less_eq_eq)
    have eq: "alloc_fd_loop xs i (Suc left) = alloc_fd_loop xs (i + 1) left" using False Suc.prems by simp
    have "i + 1 + left \<le> length xs" using Suc.prems by simp
    from Suc.IH [OF this] show ?thesis unfolding ne eq
    proof (elim disjE exE conjE, goal_cases)
      case (1 j)
      then show ?case by (intro disjI1 exI [of _ j] conjI) (assumption | simp)+
    next
      case 2
      then show ?case by (intro disjI2 conjI) (assumption | simp)+
    qed
  qed
qed simp

lemma proc_alloc_fd_law:
  assumes "table_ok p v" "h \<noteq> 0"
  shows "if 0 \<in> set (fds p) then \<exists>i. lowest_free (fds p) i \<and> proc_alloc_fd p h = Inr (int i, p\<lparr>fds := (fds p)[i := h]\<rparr>)
    else proc_alloc_fd p h = Inr (- 1, p)"
proof -
  have n: "nat (fds_max p) = length (fds p)" using assms(1) by (simp add: table_ok_def)
  consider j where "alloc_fd_loop (fds p) 0 (length (fds p)) = Inr (Some j)" "lowest_free (fds p) j"
    | "alloc_fd_loop (fds p) 0 (length (fds p)) = Inr None" "0 \<notin> set (fds p)"
    using alloc_fd_loop_law [of 0 "length (fds p)" "fds p"] by (auto simp: lowest_free_def in_set_conv_nth)
  then show ?thesis
  proof cases
    case (1 j)
    then have "0 \<in> set (fds p)" by (auto simp: lowest_free_def in_set_conv_nth)
    then show ?thesis using 1 assms(2) n by (auto simp: proc_alloc_fd_def)
  qed (use assms(2) n in \<open>simp add: proc_alloc_fd_def\<close>)
qed

lemma table_ok_open:
  assumes "table_ok p v" "lowest_free (fds p) i" "h \<noteq> 0" "handles v h = None" "handles v' = (handles v)(h \<mapsto> x)"
  shows "table_ok (p\<lparr>fds := (fds p)[i := h]\<rparr>) v'"
proof -
  have nin: "h \<notin> set (fds p)" using assms(1,3,4) by (auto simp: table_ok_def)
  have same: "a = b" if "a < length (fds p)" "b < length (fds p)" "fds p ! a \<noteq> 0" "fds p ! a = fds p ! b" for a b
    using that assms(1) unfolding table_ok_def by blast
  have "\<forall>f\<in>set ((fds p)[i := h]). f \<noteq> 0 \<longrightarrow> handles v' f \<noteq> None"
    using set_update_subset_insert [of "fds p" i h] assms(1,5) by (auto simp: table_ok_def)
  moreover have "a = b" if "a < length (fds p)" "b < length (fds p)" "(fds p)[i := h] ! a \<noteq> 0" "(fds p)[i := h] ! a = (fds p)[i := h] ! b" for a b
    using that nin same [of a b] nth_mem [of a "fds p"] nth_mem [of b "fds p"] by (cases "a = i"; cases "b = i") auto
  ultimately show ?thesis using assms(1) by (simp add: table_ok_def)
qed

section \<open>Closing a handle of the kernel file system\<close>

lemma vfs_close_law:
  assumes "cache_ok kview kroot (cache v) g idle" "g q = Some k" "handles v f = Some (fresh_handle flags q)" "f \<noteq> 0"
  shows "vfs_close close f v = Inr (0, v\<lparr>handles := (handles v)(f := None)\<rparr>)"
proof -
  obtain n where n: "fc_nodes (cache v) q = Some n" "entry_ok kview (cache v) g (idle q) k n" by (rule cache_okD [OF assms(1,2)])
  then have "fsops n = a_ops (k_atts (backend (cache v)) k)" "fsops n \<noteq> None"
    by (auto simp: entry_ok_def attrs_ok_def simp flip: attrs_fields)
  then obtain kn where "fsops n = Some (kernelfs_ops kn)" by (auto simp: k_atts_def split: option.splits)
  then show ?thesis using assms(3,4) n(1)
    by (simp add: vfs_close_def handle_at_def handle_ops_def fresh_handle_def node_at_def kernelfs_ops_def)
qed

section \<open>Collapsed paths never step above the root\<close>

lemma resolve_names:
  assumes "\<forall>w\<in>set cs. is_name w"
  shows "\<exists>r k'. resolve v m uid (concat (map (\<lambda>w. slash # w) cs)) k = (r, k', False)"
  using assms
proof (induction cs arbitrary: k)
  case Nil
  then show ?case by (subst resolve.simps) simp
next
  case (Cons w cs)
  let ?rest = "concat (map (\<lambda>w. slash # w) cs)"
  have w: "w \<noteq> []" "slash \<notin> set w" "w \<noteq> ''..''" using Cons.prems by (auto simp: is_name_def)
  have hd: "?rest = [] \<or> hd ?rest = slash" by (cases cs) auto
  have st: "dropWhile (\<lambda>c. c = slash) (slash # w @ ?rest) = w @ ?rest" using w(1,2) by (cases w) auto
  have tk: "takeWhile (\<lambda>c. c \<noteq> slash) (w @ ?rest) = w" "dropWhile (\<lambda>c. c \<noteq> slash) (w @ ?rest) = ?rest"
    using w(2) hd by (auto simp: takeWhile_append dropWhile_append takeWhile_eq_Nil_iff dropWhile_eq_self_iff)
  have "\<exists>r. resolve_step v m uid w at k = Inl (r, False) \<or> (\<exists>k'. resolve_step v m uid w at k = Inr k')" for at
    using w(3) by (auto simp: resolve_step_def Let_def split: option.splits)
  then consider r where "resolve_step v m uid w (?rest = []) k = Inl (r, False)"
    | k' where "resolve_step v m uid w (?rest = []) k = Inr k'" by blast
  moreover have "resolve v m uid (concat (map (\<lambda>w. slash # w) (w # cs))) k =
      (case resolve_step v m uid w (?rest = []) k of Inl (r, over) \<Rightarrow> (r, k, over) | Inr k' \<Rightarrow> resolve v m uid ?rest k')"
    using w(1) by (subst resolve.simps) (simp only: list.map concat.simps append_Cons st tk Let_def if_False)
  ultimately show ?case using Cons.IH Cons.prems by cases simp_all
qed

lemma resolve_canonical:
  "\<exists>r k. resolve_path v m uid (render (canon p)) kroot = (r, k, False)"
proof -
  have "\<exists>r k. resolve v m uid (render (canon p)) kroot = (r, k, False)"
  proof (cases "canon p = []")
    case True
    then show ?thesis by (subst resolve.simps) (simp add: render_def)
  next
    case False
    then show ?thesis using resolve_names [of "canon p" v m uid kroot] canon_names [of p] by (simp add: render_def)
  qed
  then show ?thesis by (auto simp: resolve_path_def split: prod.splits)
qed

lemma bindR_assoc: "bindR (bindR m f) g = bindR m (\<lambda>x. bindR (f x) g)"
  by (cases m) simp_all

lemma request_node_release:
  "fscache_request_node load (Some path) uid False s =
     bindR (fscache_request_node load (Some path) uid True s) (\<lambda>(r, q, s1).
       case q of None \<Rightarrow> Inr (r, None, s1) | Some p \<Rightarrow> bindR (fscache_release_node_readable p s1) (\<lambda>s2. Inr (r, None, s2)))"
  unfolding fscache_request_node_def
  by (cases "path = []"; cases "fscache_root_node s"; cases "kmalloc_next s") (simp_all add: bindR_assoc split_def Let_def)

lemma resolve_step_result:
  "resolve_step v m uid token at_end k = Inl (r, over) \<Longrightarrow> r = FSCACHE_REQUEST_NODE_ONE_LEVEL_AWAY \<or> r < 0"
  by (auto simp: resolve_step_def Let_def errno_defs split: if_splits option.splits)

lemma resolve_result:
  "resolve v m uid rest k = (r, k', over) \<Longrightarrow> r = 0 \<or> r = FSCACHE_REQUEST_NODE_ONE_LEVEL_AWAY \<or> r < 0"
proof (induction v m uid rest k rule: resolve.induct)
  case (1 v m uid rest k)
  let ?start = "dropWhile (\<lambda>c. c = slash) rest"
  let ?token = "takeWhile (\<lambda>c. c \<noteq> slash) ?start" and ?after = "dropWhile (\<lambda>c. c \<noteq> slash) ?start"
  have e: "resolve v m uid rest k = (if ?token = [] then (0, k, False)
      else case resolve_step v m uid ?token (?after = []) k of Inl (r, over) \<Rightarrow> (r, k, over) | Inr k' \<Rightarrow> resolve v m uid ?after k')"
    by (subst resolve.simps) (simp only: Let_def)
  show ?case
  proof (cases "?token = []")
    case True
    then show ?thesis using 1(2) e by simp
  next
    case False
    show ?thesis
    proof (cases "resolve_step v m uid ?token (?after = []) k")
      case (Inl ro)
      obtain r0 o0 where ro: "ro = (r0, o0)" by (cases ro)
      then have "r = r0" using 1(2) unfolding e if_not_P [OF False] Inl by simp
      then show ?thesis using resolve_step_result [OF Inl [unfolded ro]] by simp
    next
      case (Inr k1)
      then have "resolve v m uid ?after k1 = (r, k', over)" using 1(2) unfolding e if_not_P [OF False] Inr by simp
      then show ?thesis by (rule 1(1) [OF refl refl refl False Inr])
    qed
  qed
qed

lemma resolve_path_result:
  assumes "resolve_path v m uid path kroot = (r, k, over)"
  shows "r = 0 \<or> r = FSCACHE_REQUEST_NODE_ONE_LEVEL_AWAY \<or> r < 0"
proof -
  obtain r1 k1 o1 where "resolve v m uid path kroot = (r1, k1, o1)" by (cases "resolve v m uid path kroot")
  then show ?thesis using resolve_result [of v m uid path kroot r1 k1 o1] assms
    by (auto simp: resolve_path_def errno_defs split: if_splits)
qed

lemma path_verdict_sign:
  assumes "resolve_path v m uid path kroot = (r, k, over)"
  shows "path_verdict flags uid r a \<le> 0"
  using resolve_path_result [OF assms] by (auto simp: path_verdict_def open_verdict_def errno_defs)

section \<open>Properties\<close>


definition demo_proc :: proc where
  "demo_proc = \<lparr>p_uid = 0, p_cwd = ''/'', fds_max = PROCESS_FDS_MAX, fds = replicate 64 0\<rparr>"

lemma demo_proc_ok: "table_ok demo_proc \<lparr>cache = demo, handles = \<lambda>_. None\<rparr>"
  by (simp add: table_ok_def demo_proc_def PROCESS_FDS_MAX_def)


section \<open>Changing the working directory\<close>

text \<open>The working directory is a canonical absolute path that fits its buffer.\<close>

definition cwd_ok :: "proc \<Rightarrow> bool" where
  "cwd_ok p \<longleftrightarrow> NUL \<notin> set (p_cwd p) \<and> length (p_cwd p) < PATH_MAX \<and> p_cwd p = render (canon (p_cwd p))"

lemma render_slash: "\<exists>q. render cs = slash # q"
  by (cases cs) (auto simp: render_def)

lemma split_path_set: "w \<in> set (split_path p) \<Longrightarrow> set w \<subseteq> set p"
proof (induction p arbitrary: w)
  case (Cons c p)
  have "set (hd (split_path p)) \<subseteq> set p" using Cons.IH [of "hd (split_path p)"] by simp
  moreover have "set w \<subseteq> set p" if "w \<in> set (tl (split_path p))"
    using Cons.IH [of w] that by (cases "split_path p") auto
  ultimately show ?case using Cons.prems Cons.IH [of w] by (auto split: if_splits)
qed simp

lemma canon_set: "w \<in> set (canon p) \<Longrightarrow> set w \<subseteq> set p"
proof -
  have "w \<in> set (foldl step_comp st ws) \<Longrightarrow> w \<in> set st \<or> w \<in> set ws" for w st ws
    by (induction ws arbitrary: st) (fastforce simp: step_comp_def dest: in_set_butlastD split: if_splits)+
  then show "w \<in> set (canon p) \<Longrightarrow> set w \<subseteq> set p" using split_path_set by (fastforce simp: canon_def)
qed

lemma render_canon_set: "set (render (canon p)) \<subseteq> insert slash (set p)"
  by (auto simp: render_def split: if_splits dest!: canon_set [THEN subsetD])

lemma full_path:
  assumes "cwd_ok p" "handle_relative_path path (p_cwd p) = Inr full" "NUL \<notin> set path"
  shows "\<exists>q. full = slash # q" "length full < PATH_MAX" "NUL \<notin> set full"
proof -
  obtain q where q: "p_cwd p = slash # q" using assms(1) render_slash [of "canon (p_cwd p)"] by (auto simp: cwd_ok_def)
  show "\<exists>q. full = slash # q" using assms(2) q by (cases path) (auto simp: handle_relative_path_def PATH_MAX_def split: if_splits)
  show "length full < PATH_MAX" using assms(2) q by (auto simp: handle_relative_path_def PATH_MAX_def split: if_splits)
  show "NUL \<notin> set full" using assms q
    by (auto simp: handle_relative_path_def cwd_ok_def NUL_def split: if_splits dest: in_set_takeD)
qed

text \<open>C29. Changing the working directory. The path is joined to the working directory and collapsed; the lookup of the
  collapsed path decides: when an object is found the collapsed path becomes the working directory, otherwise the
  process is unchanged and gets the error. The working directory stays a canonical absolute path, and because a
  collapsed path never steps above the root every lock is released again, whatever the path.\<close>

theorem chdir_keeps_canonical:
  assumes "cache_ok kview kroot s g idle" "kfs_ok (backend s)" "heap_fresh s" "cwd_ok p" "NUL \<notin> set path"
    "handle_relative_path path (p_cwd p) = Inr full" "2 * length (render (canon full)) + 2 < length (fc_heap s)"
  shows "\<exists>res p' s' g' r k. syscall_routine_chdir call_load path p s = Inr (res, p', s') \<and> cwd_ok p' \<and>
    cache_ok kview kroot s' g' idle \<and> g \<subseteq>\<^sub>m g' \<and> backend s' = backend s \<and>
    resolve_path kview (backend s) (p_uid p) (render (canon full)) kroot = (r, k, False) \<and>
    (if r = 0 then res = 0 \<and> p' = p\<lparr>p_cwd := render (canon full)\<rparr>
     else p' = p \<and> res = (if r = FSCACHE_REQUEST_NODE_ONE_LEVEL_AWAY then - ENOENT else r))"
proof -
  let ?col = "render (canon full)"
  note fp = full_path [OF assms(4,6,5)]
  obtain q where q: "full = slash # q" using fp(1) by blast
  have col: "collapse_path True full = Inr (Inr ?col)" "length ?col < PATH_MAX"
    using collapse_path_eq [of q] fp(2) q by simp_all
  have nul: "NUL \<notin> set ?col" using render_canon_set [of full] fp(3) by (auto simp: NUL_def)
  have ne: "?col \<noteq> []" using render_slash [of "canon full"] by auto
  obtain a b as where h: "fc_heap s = a # b # as" "a \<noteq> 0" "b \<noteq> 0" using assms(3,7)
    by (cases "fc_heap s"; cases "tl (fc_heap s)") (auto simp: heap_fresh_def)
  let ?s = "s\<lparr>fc_heap := as\<rparr>"
  have c: "cache_ok kview kroot ?s g idle" by (rule cache_frame [OF assms(1)]) auto
  have hf: "heap_fresh ?s" by (rule heap_fresh_sub [OF assms(3)]) (auto simp: h(1) intro: exI [of _ 2])
  obtain r k where rk: "resolve_path kview (backend s) (p_uid p) ?col kroot = (r, k, False)" using resolve_canonical [of kview "backend s" "p_uid p" full kroot] by auto
  then have rk': "resolve_path kview (backend ?s) (p_uid p) ?col kroot = (r, k, False)" by simp
  have pre: "kfs_ok (backend ?s)" "2 * length ?col < length (fc_heap ?s)" using assms(2,7) h(1) by simp_all
  obtain x s1 g' where rq: "fscache_request_node call_load (Some ?col) (p_uid p) True ?s = Inr (r, Some x, s1)"
    "kept (2 * length ?col + 1) ?s s1" "cache_ok kview kroot s1 g' (idle(x := one_reader))" "g' x = Some k" "g \<subseteq>\<^sub>m g'"
    using kf.request_node_law [OF c pre(1) hf pre(2) nul ne rk'] by auto
  obtain n where n: "release x \<lparr>cache = s1, handles = \<lambda>_. None\<rparr> =
      Inr (\<lparr>cache = set_node x (n\<lparr>rwlock := rw_lock_init\<rparr>) s1, handles = \<lambda>_. None\<rparr>)"
    "cache_ok kview kroot (set_node x (n\<lparr>rwlock := rw_lock_init\<rparr>) s1) g' idle"
    using release_ok [of kview kroot "\<lparr>cache = s1, handles = \<lambda>_. None\<rparr>" g' x k] rq(3,4) by auto
  let ?s' = "set_node x (n\<lparr>rwlock := rw_lock_init\<rparr>) s1"
  have "fscache_release_node_readable x s1 = Inr ?s'"
    using n(1) by (auto simp: release_def bindR_def split: sum.splits)
  then have rf: "fscache_request_node call_load (Some ?col) (p_uid p) False ?s = Inr (r, None, ?s')"
    unfolding request_node_release rq(1) by simp
  have eq: "syscall_routine_chdir call_load path p s = Inr (
      if r < 0 then (r, p, ?s') else if r = FSCACHE_REQUEST_NODE_ONE_LEVEL_AWAY then (- ENOENT, p, ?s')
      else (0, p\<lparr>p_cwd := ?col\<rparr>, ?s'))"
    using h assms(6) col rf by (simp add: syscall_routine_chdir_def kmalloc_next_def)
  have ok: "cwd_ok (p\<lparr>p_cwd := ?col\<rparr>)" using nul col(2) canon_render [OF canon_names] by (simp add: cwd_ok_def)
  have "backend ?s' = backend s" using rq(2) by (simp add: kept_def set_node_def)
  then show ?thesis using eq ok n(2) rq(5) rk assms(4) resolve_path_result [OF rk]
    by (auto simp: FSCACHE_REQUEST_NODE_ONE_LEVEL_AWAY_def)
qed

theorem chdir_keeps_canonical_witness:
  "\<exists>p' s'. syscall_routine_chdir call_load ''..'' demo_proc demo = Inr (0, p', s') \<and> cwd_ok p' \<and> p_cwd p' = ''/''"
proof -
  have hf: "heap_fresh demo" using demo_ok(3) by (simp add: kheap_fresh_def)
  have cn: "canon ''/'' = []" "canon ''//..'' = []" by (simp_all add: canon_def step_comp_def)
  have rd: "render [] = ''/''" by (simp add: render_def)
  have cw: "cwd_ok demo_proc" using cn(1) rd by (simp add: cwd_ok_def demo_proc_def NUL_def PATH_MAX_def)
  have p: "handle_relative_path ''..'' (p_cwd demo_proc) = Inr ''//..''"
    by (simp add: handle_relative_path_def demo_proc_def PATH_MAX_def)
  from chdir_keeps_canonical [OF demo_ok(2,1) hf cw _ p] show ?thesis
    using demo_ok(5) demo_resolve(1) by (auto simp: cn rd NUL_def)
qed

end
