(* ===== verification/Spec2Isabelle.thy ===== *)
theory Spec2Isabelle
  imports Prelude Locks Alloc_Spec Kmalloc PhysMem Paging Paths UserMem Fscache Kernelfs Vfs Console Printf Keyboard Ps2kbd Ps2ctl Bstree Fat12 Sched Syscalls
begin

text \<open>
  A verification library for the Plenjos kernel, a small x86-64 kernel in C. Paths below are relative to the root of the
  sources.

  \<^bold>\<open>The program.\<close> Memory is managed in three layers: the frame allocator hands out physical frames, the page tables map
  them, and the kernel heap serves requests from mapped pages. Files are reached through the virtual file system, which
  resolves paths in a cache of nodes in front of the mounted file systems; the kernel file system, a tree in memory, is
  the one at the root. A process enters the kernel by a system call, which joins the path to the working
  directory, goes to the virtual file system or the page tables, and copies from and to user memory. Keys arrive by
  interrupts of the PS/2 controller, are decoded to events and wait in a ring buffer. The scheduler of every core runs
  delegated kernel tasks and ready threads. Output goes to a console drawn on the frame buffer.

  \<^bold>\<open>Conventions\<close> (theory \<open>Prelude\<close>). Machine integers are words of their width; a C \<^verbatim>\<open>int\<close> result, an errno included,
  is an integer. A routine returns \<open>Inr\<close> of its results, or \<open>Inl\<close> of a \<open>fault\<close>: \<open>Halt\<close> when the kernel stops, \<open>BadAccess\<close>
  when a pointer or an index leaves its object, \<open>Deadlock\<close> when the running thread waits for a lock it holds
  itself. Objects that are reached by pointers live in stores from addresses to records, with 0 for \<^verbatim>\<open>NULL\<close>. State is passed
  explicitly. A loop that may run forever is a \<^theory_text>\<open>partial_function (option)\<close>, where \<open>None\<close> is a loop that never
  ends, and the theorems about it state that it returns. No fuel is used. Code that is reached through a function pointer,
  and devices, are arguments of the definitions; what is relied on is a named hypothesis, and a concrete instance in
  a witness shows that it can hold.

  \<^bold>\<open>Theories, sources and what is shown.\<close>

  \<^item> \<open>Locks\<close>: the mutex and the reader/writer lock of \<^verbatim>\<open>src/lib/lock.c\<close>, as step relations of one rule per atomic access
    (\<open>mutex_lock_step\<close>, \<open>rw_lock_read_lock_step\<close>, \<open>rw_lock_write_lock_step\<close>, \<open>rw_lock_upgrade_step\<close>, \<open>rw_lock_downgrade_step\<close> and the
    unlocking ones) that any number of threads interleave. Mutual exclusion, the meaning of the counters, progress of a
    waiting writer, and the effect of every routine when it runs alone, which the file system cache uses.
  \<^item> \<open>Alloc_Spec\<close>, \<open>Kmalloc\<close>: the contract of a heap (locale \<open>heap_allocator\<close>) and the kernel heap of
    \<^verbatim>\<open>src/memory/kmalloc.c\<close>, which interprets it. \<open>kmalloc_heap\<close> is first fit on the list of blocks that the linked headers
    represent, live blocks never overlap, and freeing gives everything back. Mapping a page of the heap is a
    parameter. The budget of the contract bounds the address space the heap may grow into.
  \<^item> \<open>PhysMem\<close>: the frame table and free list of \<^verbatim>\<open>src/memory/mm_phys.c\<close> and \<^verbatim>\<open>src/memory/detect.h\<close>. Allocation pops the
    list, frames are never handed out twice (locale \<open>frame_source\<close>), and what happens when none is left.
  \<^item> \<open>Paging\<close>: the table walk, mapping, translation and release of address spaces of \<^verbatim>\<open>src/memory/mm_page.c\<close> and
    \<^verbatim>\<open>mm_virt.c\<close>. The routines that create tables are proved once against any allocator of frames (locales \<open>table_alloc\<close> and
    \<open>page_alloc\<close>), interpreted on \<open>alloc_paging_node\<close>. Mapping changes exactly the translations asked for.
  \<^item> \<open>Paths\<close>: strings, permission bits and path names (\<^verbatim>\<open>src/lib/string.c\<close>, \<^verbatim>\<open>src/lib/mode.c\<close>,
    \<^verbatim>\<open>src/syscall/syscall_helpers.c\<close>). \<open>collapse_path\<close> computes the canonical form of a path inside its buffer of
    \<open>PATH_MAX\<close> characters; joining and permissions have lemmas of their own.
  \<^item> \<open>UserMem\<close>: \<^verbatim>\<open>copy_to_user_buf\<close> and \<^verbatim>\<open>copy_to_kernel_buf\<close>, and \<^verbatim>\<open>src/syscall/mem/memmap.c\<close>. Copies return, touch only
    pages the user may access and fail otherwise; a mapping is backed by distinct cleared frames.
  \<^item> \<open>Fscache\<close>, \<open>Kernelfs\<close>, \<open>Vfs\<close>: the cache of \<^verbatim>\<open>src/vfs/fscache.c\<close> with its node locks, the tree of
    \<^verbatim>\<open>src/vfs/kernelfs.c\<close>, and handles, opening and creation of \<^verbatim>\<open>src/vfs/vfs.c\<close>. The locale \<open>dir_fs\<close> is what the cache needs of
    a file system; the kernel file system interprets it. The cache is transparent: \<open>fscache_request_node\<close> gives what
    resolving the path on the tree (\<open>resolve_path\<close>) gives. Opening grants exactly the access that the mode of the
    object allows, creation adds exactly one name, and every lock is released, except for a path that steps above the
    root.
  \<^item> \<open>Syscalls\<close>: file descriptors of \<^verbatim>\<open>src/proc/proc.c\<close> and the calls of \<^verbatim>\<open>src/syscall/fs\<close> (\<open>syscall_routine_open\<close>,
    \<open>syscall_routine_close\<close>, \<open>syscall_routine_read\<close>, \<open>syscall_routine_chdir\<close> and others) on top of \<open>Paths\<close>, \<open>Vfs\<close> and \<open>UserMem\<close>.
    Opening gives the lowest free descriptor and closing undoes it; the working directory stays canonical, and a canonical
    path never steps above the root.
  \<^item> \<open>Fat12\<close>: detection and reading of FAT12 volumes (\<^verbatim>\<open>src/vfs/fat/fat12.c\<close>, \<^verbatim>\<open>fat.c\<close>) on a drive that is a parameter
    (\<open>serves\<close>). Reads give the bytes of the partition, and \<open>fat12_next_cluster\<close> decodes the table of 12-bit entries.
  \<^item> \<open>Sched\<close>: the ready threads, the kernel tasks and a pass of the loop of a core of \<^verbatim>\<open>src/proc/scheduler.c\<close>. They refine two
    first-in first-out queues as long as a thread is made ready once.
  \<^item> \<open>Console\<close>, \<open>Printf\<close>: \<^verbatim>\<open>src/devices/kconsole.c\<close> and \<^verbatim>\<open>src/lib/stdio/stdio_out.c\<close>. No console operation leaves the frame
    buffer; printed numbers read back, with the bounds of the digit buffers. The font is a parameter.
  \<^item> \<open>Keyboard\<close>, \<open>Ps2kbd\<close>, \<open>Ps2ctl\<close>: key events and their buffer (\<^verbatim>\<open>include/plenjos/dev/kbd.h\<close>,
    \<^verbatim>\<open>src/devices/input/keyboard/keyboard.c\<close>), which interprets the locale \<open>lossy_queue\<close>; the decoder of scan codes and the
    initialisation of the controller (\<^verbatim>\<open>src/devices/input/keyboard/drivers/ps2kbd.c\<close>). Key strokes give their events, and the
    initialisation ends on every controller that \<open>behaves\<close> as documented.
  \<^item> \<open>Bstree\<close>: \<^verbatim>\<open>src/lib/structures/bstree.c\<close> with the comparison as a parameter. Removal unlinks one node, rotations keep
    the order; insertion returns exactly when it links to the left.

  \<^bold>\<open>Bounds.\<close> Addresses and sizes are 64 bits wide, and theorems state the ranges in which sums do not wrap. The sequence of
  addresses that the allocator is going to return (\<open>fc_heap\<close>) has to be long enough for a call: a lookup takes at
  most two blocks for each character of the path and one more. Interleavings are those of the locks; the other routines
  run with the lock they take, so that each is one step.

  \<^bold>\<open>Not modelled.\<close> Boot, processor and interrupt setup, timers, PCI, USB and the disk drivers act on machine and device
  registers whose effect the sources do not define. Creation and exit of processes and threads, the switch to a thread and
  the dispatch of system calls depend on addresses fixed by the linker script and on assembly. \<^verbatim>\<open>syscall_routine_mkdir\<close> passes a
  buffer it has freed, so that its effect depends on the allocator's use of freed memory. The other FAT variants, ISO 9660,
  the program loaders, the red-black tree, the fixed-size allocator, and the C library and programs for users are left out.
  In the modelled parts, console messages, flushing the translation cache and masking interrupts have no effect on the state.
\<close>

end
